(* ===== verification/Prelude.thy ===== *)
theory Prelude
  imports Main "HOL-Library.Word" "HOL-Library.Monad_Syntax" "HOL-Library.AList" "HOL-Library.Multiset"
begin

text \<open>
  What every component shares: Go's machine integers, its checked indexing and slicing, its error
  values, the big- and little-endian accessors of \<open>encoding/binary\<close>, and the lemmas on them.

  A Go function that can panic at run time (an index or a slice bound out of range) is a HOL
  function into \<^typ>\<open>'a option\<close>: \<^term>\<open>None\<close> is the panic, which ends the whole process when it
  happens on a goroutine. A Go function that returns \<open>(T, error)\<close> returns \<^typ>\<open>'e + 'a\<close>. Both
  together give \<open>(goerr + 'a) option\<close>. Go's \<open>int\<close> is \<^typ>\<open>int\<close>; where a conversion or a sum could
  leave its 64 (or 32) bits, the wrap-around is written out (see \<open>SDUDP\<close>).

  A byte slice is a list. Go lets a slice expression reach up to the capacity; here the bound is
  the length, so a panic of the model covers every panic of the code.
\<close>

unbundle bit_operations_syntax

section \<open>Machine integers\<close>

type_synonym byte = "8 word"
type_synonym u8 = "8 word"
type_synonym u16 = "16 word"
type_synonym u32 = "32 word"

named_theorems go_simps \<open>evaluation of in-range indexing, slicing and writing\<close>

text \<open>Go's \<open>int\<close> has the width of the platform, \<open>w\<close> bits; arithmetic on it wraps around.\<close>

definition goint :: "nat \<Rightarrow> int \<Rightarrow> int" where
  "goint w x = (x + 2 ^ (w - 1)) mod 2 ^ w - 2 ^ (w - 1)"

lemma goint_id: "0 < w \<Longrightarrow> - (2 ^ (w - 1)) \<le> x \<Longrightarrow> x < 2 ^ (w - 1) \<Longrightarrow> goint w x = x"
proof -
  assume a: "0 < w" "- (2 ^ (w - 1)) \<le> x" "x < 2 ^ (w - 1)"
  then have "(2 :: int) ^ w = 2 * 2 ^ (w - 1)" by (cases w) simp_all
  with a have "(x + 2 ^ (w - 1)) mod 2 ^ w = x + 2 ^ (w - 1)" by (intro mod_pos_pos_trivial) auto
  then show ?thesis by (simp add: goint_def)
qed

lemma goint_64: "0 \<le> x \<Longrightarrow> x < 2 ^ 63 \<Longrightarrow> goint 64 x = x"
  by (rule goint_id) simp_all

section \<open>Errors\<close>

text \<open>
  The four mandatory sentinels belong to the RELAY module, which is not part of this repository:
  they are opaque names. \<open>New\<close> is \<open>errors.New\<close>, \<open>Errorf\<close> is \<open>fmt.Errorf\<close> with one \<open>%w\<close> operand;
  the formatted numbers of a message are left out of its text. \<open>External\<close> is an error value made
  by code outside this repository (the network, a context, a user's handler).
\<close>

datatype relay_sentinel = RelayErrClosed | RelayErrTimeout | RelayErrNotConnected | RelayErrPayloadTooLarge

datatype goerr = Relay relay_sentinel | New string | External string | Errorf string goerr

text \<open>\<open>errors.Is\<close>: the error itself or one it wraps, transitively.\<close>

fun errors_is :: "goerr \<Rightarrow> goerr \<Rightarrow> bool" where
  "errors_is (Errorf s e) t = (Errorf s e = t \<or> errors_is e t)"
| "errors_is (Relay r) t = (Relay r = t)"
| "errors_is (New s) t = (New s = t)"
| "errors_is (External s) t = (External s = t)"

lemma errors_is_refl [simp]: "errors_is e e"
  by (cases e) auto

lemma errors_is_trans: "errors_is a b \<Longrightarrow> errors_is b c \<Longrightarrow> errors_is a c"
  by (induction a b rule: errors_is.induct) auto

section \<open>Indexing and slicing\<close>

text \<open>\<open>xs[i]\<close>, \<open>xs[lo:hi]\<close>, \<open>xs[lo:]\<close> and \<open>xs[i] = v\<close>.\<close>

definition idx :: "'a list \<Rightarrow> int \<Rightarrow> 'a option" where
  "idx xs i = (if 0 \<le> i \<and> i < int (length xs) then Some (xs ! nat i) else None)"

definition sub :: "'a list \<Rightarrow> int \<Rightarrow> int \<Rightarrow> 'a list option" where
  "sub xs lo hi =
     (if 0 \<le> lo \<and> lo \<le> hi \<and> hi \<le> int (length xs)
      then Some (take (nat (hi - lo)) (drop (nat lo) xs)) else None)"

definition sub_from :: "'a list \<Rightarrow> int \<Rightarrow> 'a list option" where
  "sub_from xs lo = sub xs lo (int (length xs))"

definition upd :: "'a list \<Rightarrow> int \<Rightarrow> 'a \<Rightarrow> 'a list option" where
  "upd xs i v = (if 0 \<le> i \<and> i < int (length xs) then Some (xs[nat i := v]) else None)"

text \<open>\<open>copy(dst[lo:hi], src)\<close>: as many elements as both sides hold.\<close>

definition copy_into :: "'a list \<Rightarrow> int \<Rightarrow> int \<Rightarrow> 'a list \<Rightarrow> 'a list option" where
  "copy_into dst lo hi src =
     (if 0 \<le> lo \<and> lo \<le> hi \<and> hi \<le> int (length dst)
      then (let n = min (nat (hi - lo)) (length src)
            in Some (take (nat lo) dst @ take n src @ drop (nat lo + n) dst))
      else None)"

lemma idx_Some [go_simps]: "0 \<le> i \<Longrightarrow> i < int (length xs) \<Longrightarrow> idx xs i = Some (xs ! nat i)"
  by (simp add: idx_def)

lemma sub_Some [go_simps]:
  "0 \<le> lo \<Longrightarrow> lo \<le> hi \<Longrightarrow> hi \<le> int (length xs) \<Longrightarrow>
   sub xs lo hi = Some (take (nat (hi - lo)) (drop (nat lo) xs))"
  by (simp add: sub_def)

lemma sub_int: "a + b \<le> length xs \<Longrightarrow> sub xs (int a) (int a + int b) = Some (take b (drop a xs))"
  by (simp add: sub_def)

lemma sub_from_Some [go_simps]:
  "0 \<le> lo \<Longrightarrow> lo \<le> int (length xs) \<Longrightarrow> sub_from xs lo = Some (drop (nat lo) xs)"
  by (simp add: sub_from_def sub_def nat_diff_distrib)

lemma upd_Some [go_simps]: "0 \<le> i \<Longrightarrow> i < int (length xs) \<Longrightarrow> upd xs i v = Some (xs[nat i := v])"
  by (simp add: upd_def)

lemma copy_into_Some [go_simps]:
  "0 \<le> lo \<Longrightarrow> lo \<le> hi \<Longrightarrow> hi \<le> int (length dst) \<Longrightarrow>
   copy_into dst lo hi src = Some (take (nat lo) dst @ take (nat (hi - lo)) src
     @ drop (nat lo + min (nat (hi - lo)) (length src)) dst)"
  by (simp add: copy_into_def Let_def min_def)

lemma length_copy_into: "copy_into dst lo hi src = Some r \<Longrightarrow> length r = length dst"
  by (auto simp: copy_into_def Let_def split: if_splits)

section \<open>Byte order\<close>

text \<open>
  \<open>binary.BigEndian.Uint16(b)\<close> and its kin read the first bytes of \<open>b\<close> and panic when there are
  too few; \<open>PutUint16(b[lo:hi], v)\<close> writes the first two bytes of the subslice.
\<close>

definition bytes16 :: "u16 \<Rightarrow> byte list" where
  "bytes16 v = [ucast (drop_bit 8 v), ucast v]"

definition bytes32 :: "u32 \<Rightarrow> byte list" where
  "bytes32 v = [ucast (drop_bit 24 v), ucast (drop_bit 16 v), ucast (drop_bit 8 v), ucast v]"

definition join16 :: "byte \<Rightarrow> byte \<Rightarrow> u16" where
  "join16 hi lo = ucast lo OR push_bit 8 (ucast hi)"

definition join32 :: "byte \<Rightarrow> byte \<Rightarrow> byte \<Rightarrow> byte \<Rightarrow> u32" where
  "join32 b0 b1 b2 b3 =
     ucast b3 OR push_bit 8 (ucast b2) OR push_bit 16 (ucast b1) OR push_bit 24 (ucast b0)"

fun be16 :: "byte list \<Rightarrow> u16 option" where
  "be16 (b0 # b1 # _) = Some (join16 b0 b1)"
| "be16 _ = None"

fun be32 :: "byte list \<Rightarrow> u32 option" where
  "be32 (b0 # b1 # b2 # b3 # _) = Some (join32 b0 b1 b2 b3)"
| "be32 _ = None"

fun le32 :: "byte list \<Rightarrow> u32 option" where
  "le32 (b0 # b1 # b2 # b3 # _) = Some (join32 b3 b2 b1 b0)"
| "le32 _ = None"

definition put16 :: "byte list \<Rightarrow> int \<Rightarrow> int \<Rightarrow> u16 \<Rightarrow> byte list option" where
  "put16 b lo hi v = (if hi - lo < 2 then None else copy_into b lo hi (bytes16 v))"

definition put32 :: "byte list \<Rightarrow> int \<Rightarrow> int \<Rightarrow> u32 \<Rightarrow> byte list option" where
  "put32 b lo hi v = (if hi - lo < 4 then None else copy_into b lo hi (bytes32 v))"

text \<open>\<open>binary.LittleEndian.PutUint32(b[lo:hi], v)\<close>.\<close>

definition put32le :: "byte list \<Rightarrow> int \<Rightarrow> int \<Rightarrow> u32 \<Rightarrow> byte list option" where
  "put32le b lo hi v = (if hi - lo < 4 then None else copy_into b lo hi (rev (bytes32 v)))"

lemma byte_no_high_bit [simp]: "8 \<le> n \<Longrightarrow> \<not> bit (b :: byte) n"
  using bit_imp_le_length [of b n] by auto

lemma u32_no_high_bit [simp]: "32 \<le> n \<Longrightarrow> \<not> bit (b :: u32) n"
  using bit_imp_le_length [of b n] by auto

lemma xor_left_cancel: "(a XOR b = a XOR c) \<longleftrightarrow> b = (c :: 'a :: len word)"
  by (metis xor.assoc xor_self_eq xor.left_neutral)

lemma xor_right_cancel: "(b XOR a = c XOR a) \<longleftrightarrow> b = (c :: 'a :: len word)"
  by (metis xor.commute xor_left_cancel)

lemma ucast_byte_u32_id [simp]: "(ucast (ucast (b :: byte) :: u32) :: byte) = b"
  by (rule bit_word_eqI) (auto simp: bit_simps)

lemma ucast_byte_inj: "(ucast (b :: byte) :: u32) = ucast c \<longleftrightarrow> b = c"
  by (metis ucast_byte_u32_id)

lemma length_bytes16 [simp]: "length (bytes16 v) = 2"
  by (simp add: bytes16_def)

lemma length_bytes32 [simp]: "length (bytes32 v) = 4"
  by (simp add: bytes32_def)

lemma join16_split [simp]: "join16 (ucast (drop_bit 8 v)) (ucast v) = v"
  by (rule bit_word_eqI) (auto simp: join16_def bit_simps)

lemma join32_split [simp]:
  "join32 (ucast (drop_bit 24 v)) (ucast (drop_bit 16 v)) (ucast (drop_bit 8 v)) (ucast v) = v"
proof (rule bit_word_eqI)
  fix n
  assume "n < LENGTH(32)"
  then consider "n < 8" | "8 \<le> n" "n < 16" | "16 \<le> n" "n < 24" | "24 \<le> n" "n < 32"
    by fastforce
  then show "bit (join32 (ucast (drop_bit 24 v)) (ucast (drop_bit 16 v)) (ucast (drop_bit 8 v)) (ucast v)) n
    \<longleftrightarrow> bit v n"
    by cases (auto simp: join32_def bit_simps)
qed

lemma bytes16_join [simp]: "bytes16 (join16 a b) = [a, b]"
  by (auto simp: bytes16_def join16_def bit_simps intro!: bit_word_eqI)

lemma bytes32_join [simp]: "bytes32 (join32 a b c d) = [a, b, c, d]"
  by (auto simp: bytes32_def join32_def bit_simps intro!: bit_word_eqI)

lemma be16_bytes16 [simp]: "be16 (bytes16 v @ rest) = Some v"
  by (simp add: bytes16_def)

lemma be32_bytes32 [simp]: "be32 (bytes32 v @ rest) = Some v"
  by (simp add: bytes32_def)

lemma be16_bytes16_only [simp]: "be16 (bytes16 v) = Some v"
  by (simp add: bytes16_def)

lemma be32_bytes32_only [simp]: "be32 (bytes32 v) = Some v"
  by (simp add: bytes32_def)

lemma be16_Some: "2 \<le> length b \<Longrightarrow> be16 b = Some (join16 (b ! 0) (b ! 1))"
  by (cases b rule: be16.cases) auto

lemma be32_Some: "4 \<le> length b \<Longrightarrow> be32 b = Some (join32 (b ! 0) (b ! 1) (b ! 2) (b ! 3))"
  by (cases b rule: be32.cases) (auto simp: eval_nat_numeral)

lemma bytes16_inj: "bytes16 v = bytes16 w \<longleftrightarrow> v = w"
  by (metis be16_bytes16_only option.inject)

lemma bytes32_inj: "bytes32 v = bytes32 w \<longleftrightarrow> v = w"
  by (metis be32_bytes32_only option.inject)

section \<open>Lists of a known length\<close>

text \<open>A list of at least \<open>n\<close> elements is \<open>n\<close> conses, so that the simplifier can read it.\<close>

lemma length_ge_Suc: "Suc n \<le> length xs \<Longrightarrow> \<exists>y ys. xs = y # ys \<and> n \<le> length ys"
  by (cases xs) auto

lemma length_ge_3: "3 \<le> length b \<Longrightarrow> \<exists>b0 b1 b2 r. b = b0 # b1 # b2 # r"
  by (auto dest!: length_ge_Suc simp: eval_nat_numeral)

lemma length_ge_4:
  "4 \<le> length b \<Longrightarrow> \<exists>b0 b1 b2 b3 r. b = b0 # b1 # b2 # b3 # r"
  by (auto dest!: length_ge_Suc simp: eval_nat_numeral)

lemma length_ge_8:
  "8 \<le> length b \<Longrightarrow> \<exists>b0 b1 b2 b3 b4 b5 b6 b7 r. b = b0 # b1 # b2 # b3 # b4 # b5 # b6 # b7 # r"
  by (auto dest!: length_ge_Suc simp: eval_nat_numeral)

lemma length_ge_12:
  "12 \<le> length b \<Longrightarrow> \<exists>b0 b1 b2 b3 b4 b5 b6 b7 b8 b9 b10 b11 r.
     b = b0 # b1 # b2 # b3 # b4 # b5 # b6 # b7 # b8 # b9 # b10 # b11 # r"
  by (auto dest!: length_ge_Suc simp: eval_nat_numeral)

lemma length_ge_16:
  "16 \<le> length b \<Longrightarrow> \<exists>b0 b1 b2 b3 b4 b5 b6 b7 b8 b9 b10 b11 b12 b13 b14 b15 r.
     b = b0 # b1 # b2 # b3 # b4 # b5 # b6 # b7 # b8 # b9 # b10 # b11 # b12 # b13 # b14 # b15 # r"
  by (auto dest!: length_ge_Suc simp: eval_nat_numeral)

section \<open>Association lists\<close>

lemma set_AList_update:
  "distinct (map fst xs) \<Longrightarrow> set (AList.update k v xs) = insert (k, v) {x \<in> set xs. fst x \<noteq> k}"
proof (induction xs)
  case (Cons x xs)
  then show ?case by (cases x) (force simp del: split_paired_All)
qed simp

lemma distinct_AList_update:
  "distinct (map (f \<circ> snd) xs) \<Longrightarrow> \<forall>x \<in> set xs. f (snd x) \<noteq> f v \<Longrightarrow>
   distinct (map (f \<circ> snd) (AList.update k v xs))"
proof (induction xs)
  case (Cons x xs)
  obtain a b where x: "x = (a, b)" by (cases x)
  have "(f \<circ> snd) ` set (AList.update k v xs) \<subseteq> insert (f v) ((f \<circ> snd) ` set xs)"
    by (induction xs) auto
  with Cons show ?case by (auto simp: x)
qed simp

section \<open>Sequences of steps\<close>

text \<open>A step that may panic, taken for each element of a list.\<close>

fun run_all :: "('s \<Rightarrow> 'x \<Rightarrow> 's option) \<Rightarrow> 's \<Rightarrow> 'x list \<Rightarrow> 's option" where
  "run_all f s [] = Some s"
| "run_all f s (x # xs) = Option.bind (f s x) (\<lambda>s. run_all f s xs)"

lemma run_all_append: "run_all f s (xs @ ys) = Option.bind (run_all f s xs) (\<lambda>s. run_all f s ys)"
  by (induction xs arbitrary: s) (auto simp: Option.bind_assoc split: bind_split)

lemma of_nat_word_inj:
  assumes "(of_nat i :: 'a :: len word) = of_nat j" "i < 2 ^ LENGTH('a)" "j < 2 ^ LENGTH('a)"
  shows "i = j"
  using of_nat_inverse [OF assms(1,2)] of_nat_inverse [OF refl assms(3)] by (rule trans [OF sym])

lemma run_all_map: "run_all f s (map g xs) = run_all (\<lambda>s x. f s (g x)) s xs"
  by (induction xs arbitrary: s) (auto split: bind_split)

end
