(* ===== verification/Interfaces.thy ===== *)
theory Interfaces
  imports Prelude
begin

text \<open>
  The interfaces the components share, as locales: what a client may call and the laws the provider
  promises. Each is interpreted in the theory of every component that provides it.
\<close>

section \<open>Encoders and decoders\<close>

text \<open>
  A wire format: \<open>enc\<close> lays a value out, \<open>dec\<close> reads it back (\<open>None\<close> would be a panic, \<open>Inl\<close> an
  error), \<open>ok\<close> says which values the format can carry.
\<close>

locale wire_format =
  fixes enc :: "'a \<Rightarrow> byte list"
    and dec :: "byte list \<Rightarrow> ('e + 'a) option"
    and ok :: "'a \<Rightarrow> bool"
  assumes dec_enc: "ok x \<Longrightarrow> dec (enc x) = Some (Inr x)"
begin

lemma enc_inj: "ok x \<Longrightarrow> ok y \<Longrightarrow> enc x = enc y \<Longrightarrow> x = y"
  by (metis dec_enc option.inject sum.inject(2))

lemma enc_inj_on: "inj_on enc {x. ok x}"
  by (auto intro: inj_onI enc_inj)

end

text \<open>A canonical format: every accepted byte string is the layout of the value it decodes to.\<close>

locale canonical_format = wire_format enc dec ok
  for enc :: "'a \<Rightarrow> byte list" and dec :: "byte list \<Rightarrow> ('e + 'a) option" and ok :: "'a \<Rightarrow> bool" +
  assumes enc_dec: "dec b = Some (Inr x) \<Longrightarrow> enc x = b \<and> ok x"
begin

lemma dec_unique: "dec b = Some (Inr x) \<Longrightarrow> dec c = Some (Inr x) \<Longrightarrow> b = c"
  using enc_dec by metis

lemma dec_iff: "dec b = Some (Inr x) \<longleftrightarrow> ok x \<and> b = enc x"
  using enc_dec dec_enc by metis

end

section \<open>Checksums\<close>

text \<open>
  A checksum engine folds its update over the bytes. If the update is injective in the state and in
  the byte, two byte strings that differ in one position never have the same checksum.
\<close>

locale crc_engine =
  fixes step_byte :: "'s \<Rightarrow> byte \<Rightarrow> 's"
  assumes step_state_inj: "step_byte s b = step_byte t b \<Longrightarrow> s = t"
    and step_byte_inj: "step_byte s b = step_byte s c \<Longrightarrow> b = c"
begin

lemma fold_state_inj: "foldl step_byte s bs = foldl step_byte t bs \<Longrightarrow> s = t"
  by (induction bs arbitrary: s t) (auto dest: step_state_inj)

lemma fold_one_byte:
  "foldl step_byte s (p @ b # q) = foldl step_byte s (p @ c # q) \<longleftrightarrow> b = c"
  by (auto dest: fold_state_inj step_byte_inj)

lemma fold_update:
  assumes "i < length bs" and "v \<noteq> bs ! i"
  shows "foldl step_byte s (bs[i := v]) \<noteq> foldl step_byte s bs"
  using fold_one_byte [of s "take i bs" v "drop (Suc i) bs" "bs ! i"] assms
  by (simp add: upd_conv_take_nth_drop id_take_nth_drop [symmetric])

end

section \<open>End-to-end protection\<close>

text \<open>
  A protection profile: \<open>protect\<close> frames a payload with a counter, \<open>check\<close> verifies a frame against
  the counter the receiver expects. \<open>slot\<close> is the part of a counter the frame carries.
\<close>

locale e2e_profile =
  fixes protect :: "byte list \<Rightarrow> u8 \<Rightarrow> byte list"
    and check :: "byte list \<Rightarrow> u8 \<Rightarrow> (goerr + byte list) option"
    and valid :: "u8 \<Rightarrow> bool"
    and slot :: "u8 \<Rightarrow> u8"
    and stale :: goerr
  assumes check_protect: "valid c \<Longrightarrow> slot c = slot d \<Longrightarrow> check (protect p c) d = Some (Inr p)"
    and check_stale: "valid c \<Longrightarrow> slot c \<noteq> slot d \<Longrightarrow>
      \<exists>e. check (protect p c) d = Some (Inl e) \<and> errors_is e stale"
begin

text \<open>A frame is accepted at exactly the counters of its own slot, with its own payload.\<close>

lemma accepted_iff:
  "valid c \<Longrightarrow> check (protect p c) d = Some (Inr q) \<longleftrightarrow> slot c = slot d \<and> q = p"
  using check_protect [of c d p] check_stale [of c d p] by (cases "slot c = slot d") auto

lemma check_defined: "valid c \<Longrightarrow> check (protect p c) d \<noteq> None"
  using check_protect [of c d p] check_stale [of c d p] by (cases "slot c = slot d") auto

end

sublocale e2e_profile \<subseteq> at_counter: wire_format "\<lambda>p. protect p c" "\<lambda>f. check f c" "\<lambda>_. valid c" for c
  by unfold_locales (simp add: check_protect)

section \<open>Registries fed by announcements\<close>

text \<open>
  A registry of announcements: \<open>announce\<close> applies one, \<open>entry_at\<close> looks a key up. An announcement
  concerns its own key only: it stores a record made from it, or removes the key when it withdraws.
\<close>

locale announcement_registry =
  fixes announce :: "'r \<Rightarrow> 'a \<Rightarrow> 'r"
    and entry_at :: "'r \<Rightarrow> 'k \<Rightarrow> 'v option"
    and key :: "'a \<Rightarrow> 'k"
    and made :: "'a \<Rightarrow> 'v option"
    and inv :: "'r \<Rightarrow> bool"
  assumes inv_announce: "inv r \<Longrightarrow> inv (announce r a)"
    and entry_announce: "inv r \<Longrightarrow> entry_at (announce r a) k = (if k = key a then made a else entry_at r k)"
begin

lemma inv_history: "inv r \<Longrightarrow> inv (foldl announce r as)"
  by (induction as arbitrary: r) (simp_all add: inv_announce)

text \<open>After any history, a key holds what its last announcement made of it.\<close>

lemma entry_history:
  "inv r \<Longrightarrow> entry_at (foldl announce r as) k =
     (case find (\<lambda>a. key a = k) (rev as) of None \<Rightarrow> entry_at r k | Some a \<Rightarrow> made a)"
proof (induction as rule: rev_induct)
  case (snoc a as)
  then show ?case using inv_history [of r as] by (simp add: entry_announce)
qed simp

lemma announcements_commute:
  "inv r \<Longrightarrow> key a \<noteq> key b \<Longrightarrow>
   entry_at (announce (announce r a) b) k = entry_at (announce (announce r b) a) k"
  by (simp add: entry_announce inv_announce)

end

section \<open>Bounded queues\<close>

text \<open>
  A bounded queue that drops what arrives when it is full: \<open>push\<close> appends the element or leaves the queue
  alone, the latter only at capacity.
\<close>

locale bounded_queue =
  fixes push :: "'q \<Rightarrow> 'x \<Rightarrow> 'q"
    and content :: "'q \<Rightarrow> 'x list"
    and capacity :: "'q \<Rightarrow> nat"
    and open_queue :: "'q \<Rightarrow> bool"
  assumes open_push: "open_queue q \<Longrightarrow> open_queue (push q x)"
    and push_content: "open_queue q \<Longrightarrow> content (push q x) =
      (if length (content q) < capacity q then content q @ [x] else content q)"
    and push_capacity: "open_queue q \<Longrightarrow> capacity (push q x) = capacity q"
    and within: "open_queue q \<Longrightarrow> length (content q) \<le> capacity q"
begin

text \<open>After any number of pushes the queue holds what it held and the first elements that fitted.\<close>

lemma push_all:
  "open_queue q \<Longrightarrow> open_queue (foldl push q xs) \<and> capacity (foldl push q xs) = capacity q
     \<and> content (foldl push q xs) = take (capacity q) (content q @ xs)"
proof (induction xs arbitrary: q)
  case Nil
  then show ?case using within by simp
next
  case (Cons x xs)
  from Cons.IH [of "push q x"] Cons.prems within [of q] show ?case
    by (auto simp: open_push push_content push_capacity take_Cons')
qed

end

section \<open>Pending calls\<close>

text \<open>
  The table of pending calls of a client. \<open>start\<close> gives a call the next session number and the next slot,
  which is empty; \<open>deliver\<close> puts a response into the slot of its session if that slot is empty and drops it
  otherwise. \<open>takes\<close> says which messages are responses.
\<close>

locale call_table =
  fixes start :: "'s \<Rightarrow> 'q \<Rightarrow> 's option"
    and deliver :: "'s \<Rightarrow> 'm \<Rightarrow> 's option"
    and session :: "'s \<Rightarrow> u16"
    and slot :: "'s \<Rightarrow> nat"
    and pending :: "'s \<Rightarrow> u16 \<Rightarrow> nat option"
    and content :: "'s \<Rightarrow> nat \<Rightarrow> 'm list"
    and key :: "'m \<Rightarrow> u16"
    and takes :: "'m \<Rightarrow> bool"
    and inv :: "'s \<Rightarrow> bool"
  assumes start_call: "inv s \<Longrightarrow> \<exists>s'. start s q = Some s' \<and> inv s' \<and> session s' = session s + 1 \<and> slot s' = Suc (slot s)
      \<and> pending s' = (pending s)(session s + 1 \<mapsto> slot s) \<and> content s' = (content s)(slot s := [])"
    and deliver_one: "inv s \<Longrightarrow> takes m \<Longrightarrow> \<exists>s'. deliver s m = Some s' \<and> inv s' \<and> pending s' = pending s
      \<and> content s' = (\<lambda>c. if pending s (key m) = Some c \<and> content s c = [] then [m] else content s c)"
    and pending_below: "inv s \<Longrightarrow> pending s k = Some c \<Longrightarrow> c < slot s"
begin

text \<open>Starting many calls: call \<open>i\<close> alone waits on slot \<open>i\<close>, counted from the first, under session \<open>i + 1\<close>.\<close>

lemma start_all:
  "inv s \<Longrightarrow> length qs \<le> 2 ^ 16 \<Longrightarrow> \<exists>s'. run_all start s qs = Some s' \<and> inv s' \<and>
     (\<forall>i < length qs. content s' (slot s + i) = [] \<and> (\<forall>k. pending s' k = Some (slot s + i) \<longleftrightarrow> k = session s + 1 + of_nat i))
     \<and> session s' = session s + of_nat (length qs) \<and> slot s' = slot s + length qs"
proof (induction qs rule: rev_induct)
  case (snoc q qs)
  from snoc.prems(2) have "length qs \<le> 2 ^ 16" by simp
  from snoc.IH [OF snoc.prems(1) this] obtain s1 where s1: "run_all start s qs = Some s1" "inv s1"
    "session s1 = session s + of_nat (length qs)" "slot s1 = slot s + length qs"
    "\<forall>i < length qs. content s1 (slot s + i) = [] \<and> (\<forall>k. pending s1 k = Some (slot s + i) \<longleftrightarrow> k = session s + 1 + of_nat i)"
    by blast
  obtain s2 where s2: "start s1 q = Some s2" "inv s2" "session s2 = session s1 + 1" "slot s2 = Suc (slot s1)"
    "pending s2 = (pending s1)(session s1 + 1 \<mapsto> slot s1)" "content s2 = (content s1)(slot s1 := [])"
    using start_call [OF s1(2)] by blast
  have ne: "session s + 1 + of_nat i \<noteq> session s1 + 1" if "i < length qs" for i
    using of_nat_word_inj [of i "length qs", where 'a = 16] that snoc.prems(2) by (auto simp: s1(3))
  have "content s2 (slot s + i) = [] \<and> (\<forall>k. pending s2 k = Some (slot s + i) \<longleftrightarrow> k = session s + 1 + of_nat i)"
    if "i < length (qs @ [q])" for i
  proof (cases "i < length qs")
    case True
    then show ?thesis using ne [OF True] s1(4,5) by (auto simp: s2(5,6))
  next
    case False
    then have "i = length qs" using that by simp
    moreover have "pending s1 k \<noteq> Some (slot s1)" for k using pending_below [OF s1(2)] by blast
    ultimately show ?thesis using s1(3,4) by (auto simp: s2(5,6) ac_simps)
  qed
  moreover have "run_all start s (qs @ [q]) = Some s2" by (simp add: run_all_append s1(1) s2(1))
  moreover have "session s2 = session s + of_nat (length (qs @ [q]))" "slot s2 = slot s + length (qs @ [q])"
    by (simp_all add: s2(3,4) s1(3,4))
  ultimately show ?case using s2(2) by blast
qed simp

text \<open>Delivering many responses: an empty slot gets the first response of its session.\<close>

lemma deliver_all:
  "inv s \<Longrightarrow> \<forall>m \<in> set ms. takes m \<Longrightarrow> \<exists>s'. run_all deliver s ms = Some s' \<and> inv s' \<and> pending s' = pending s
     \<and> (\<forall>c. content s' c = (if content s c = [] then take 1 (filter (\<lambda>m. pending s (key m) = Some c) ms) else content s c))"
proof (induction ms arbitrary: s)
  case (Cons m ms)
  obtain s1 where s1: "deliver s m = Some s1" "inv s1" "pending s1 = pending s"
    "content s1 = (\<lambda>c. if pending s (key m) = Some c \<and> content s c = [] then [m] else content s c)"
    using deliver_one [of s m] Cons.prems by auto
  obtain s2 where s2: "run_all deliver s1 ms = Some s2" "inv s2" "pending s2 = pending s"
    "\<forall>c. content s2 c = (if content s1 c = [] then take 1 (filter (\<lambda>m. pending s (key m) = Some c) ms) else content s1 c)"
    using Cons.IH [OF s1(2)] Cons.prems(2) s1(3) by auto
  have "content s2 c = (if content s c = [] then take 1 (filter (\<lambda>m. pending s (key m) = Some c) (m # ms)) else content s c)" for c
    by (simp add: s2(4) s1(4))
  then show ?case using s1(1) s2(1-3) by simp
qed simp

text \<open>Whatever responses arrive, in whatever order: each call of a batch gets the first of its own session.\<close>

lemma answered:
  assumes "inv s" "length qs \<le> 2 ^ 16" "run_all start s qs = Some s1" "\<forall>m \<in> set ms. takes m"
  shows "\<exists>s2. run_all deliver s1 ms = Some s2 \<and>
    (\<forall>i < length qs. content s2 (slot s + i) = take 1 (filter (\<lambda>m. key m = session s + 1 + of_nat i) ms))"
proof -
  have s1: "inv s1" "\<forall>i < length qs. content s1 (slot s + i) = [] \<and>
      (\<forall>k. pending s1 k = Some (slot s + i) \<longleftrightarrow> k = session s + 1 + of_nat i)"
    using start_all [OF assms(1,2)] assms(3) by auto
  obtain s2 where s2: "run_all deliver s1 ms = Some s2"
    "\<forall>c. content s2 c = (if content s1 c = [] then take 1 (filter (\<lambda>m. pending s1 (key m) = Some c) ms) else content s1 c)"
    using deliver_all [OF s1(1) assms(4)] by blast
  then show ?thesis using s1(2) by simp
qed

text \<open>If the responses that arrive are answers \<open>ans i\<close> to calls of the batch, lost, repeated and reordered at
  will, each call has its own answer, when that arrived at all, and nothing else.\<close>

lemma answered_from:
  assumes "inv s" "length qs \<le> 2 ^ 16" "run_all start s qs = Some s1" "\<forall>m \<in> set ms. takes m"
    and "set ms \<subseteq> ans ` {..<length qs}" and "\<forall>i < length qs. key (ans i) = session s + 1 + of_nat i"
  shows "\<exists>s2. run_all deliver s1 ms = Some s2 \<and>
    (\<forall>i < length qs. content s2 (slot s + i) = (if ans i \<in> set ms then [ans i] else []))"
proof -
  have own: "key m = session s + 1 + of_nat i \<longleftrightarrow> m = ans i" if m: "m \<in> set ms" and i: "i < length qs" for m i
  proof -
    obtain j where j: "j < length qs" "m = ans j" using assms(5) m by blast
    show ?thesis
    proof
      assume "key m = session s + 1 + of_nat i"
      then have "(of_nat j :: u16) = of_nat i" using assms(6) j by simp
      then have "j = i" by (rule of_nat_word_inj) (use i j(1) assms(2) in auto)
      then show "m = ans i" using j(2) by simp
    qed (use assms(6) i in simp)
  qed
  have "take 1 (filter (\<lambda>m. key m = session s + 1 + of_nat i) ms) = (if ans i \<in> set ms then [ans i] else [])"
    if i: "i < length qs" for i
  proof -
    have "filter (\<lambda>m. key m = session s + 1 + of_nat i) ms = filter (\<lambda>m. m = ans i) ms"
      using own i by (intro filter_cong) auto
    moreover have "take 1 (filter (\<lambda>m. m = x) xs) = (if x \<in> set xs then [x] else [])" for x and xs :: "'m list"
      by (induction xs) auto
    ultimately show ?thesis by simp
  qed
  then show ?thesis using answered [OF assms(1-4)] by simp
qed

end

section \<open>Calls that are over\<close>

locale call_lifecycle = call_table start deliver session slot pending content key takes inv
  for start :: "'s \<Rightarrow> 'q \<Rightarrow> 's option" and deliver :: "'s \<Rightarrow> 'm \<Rightarrow> 's option" and session :: "'s \<Rightarrow> u16"
    and slot :: "'s \<Rightarrow> nat" and pending :: "'s \<Rightarrow> u16 \<Rightarrow> nat option" and content :: "'s \<Rightarrow> nat \<Rightarrow> 'm list"
    and key :: "'m \<Rightarrow> u16" and takes :: "'m \<Rightarrow> bool" and inv :: "'s \<Rightarrow> bool" +
  fixes finish :: "'s \<Rightarrow> u16 \<Rightarrow> 's"
  assumes finish_call: "inv s \<Longrightarrow> inv (finish s k) \<and> session (finish s k) = session s \<and> slot (finish s k) = slot s
      \<and> pending (finish s k) = (pending s)(k := None) \<and> content (finish s k) = content s"
begin

text \<open>Any number of calls, each over before the next: the session number has moved on by as many, and nothing waits.\<close>

lemma over_all:
  "inv s \<Longrightarrow> \<exists>s'. run_all (\<lambda>s q. map_option (\<lambda>s'. finish s' (session s')) (start s q)) s qs = Some s' \<and> inv s'
     \<and> session s' = session s + of_nat (length qs)"
proof (induction qs arbitrary: s)
  case (Cons q qs)
  obtain s1 where s1: "start s q = Some s1" "inv s1" "session s1 = session s + 1" using start_call [OF Cons.prems] by blast
  note f = finish_call [OF s1(2), of "session s1"]
  obtain s2 where "run_all (\<lambda>s q. map_option (\<lambda>s'. finish s' (session s')) (start s q)) (finish s1 (session s1)) qs = Some s2"
    "inv s2" "session s2 = session (finish s1 (session s1)) + of_nat (length qs)" using Cons.IH f by blast
  then show ?case using s1 f by (simp add: add.assoc)
qed simp

text \<open>An answer that comes when its call is over, and others after it: the call that waits now takes it for its own
  exactly when its number has come round to that of the first.\<close>

lemma late_answer:
  assumes "inv s" "run_all (\<lambda>s q. map_option (\<lambda>s'. finish s' (session s')) (start s q)) s qs = Some s1"
    and "start s1 q = Some s2" "takes m" "key m = session s + 1"
  shows "\<exists>s3. deliver s2 m = Some s3 \<and> content s3 (slot s1) = (if length qs mod 2 ^ 16 = 0 then [m] else [])"
proof -
  have s1: "inv s1" "session s1 = session s + of_nat (length qs)" using over_all [OF assms(1), of qs] assms(2) by auto
  have s2: "inv s2" "pending s2 = (pending s1)(session s1 + 1 \<mapsto> slot s1)" "content s2 = (content s1)(slot s1 := [])"
    using start_call [OF s1(1), of q] assms(3) by auto
  have "(of_nat (length qs) :: u16) = 0 \<longleftrightarrow> length qs mod 2 ^ 16 = 0"
    by (simp add: word_of_nat_eq_0_iff dvd_eq_mod_eq_0)
  then have k: "key m = session s1 + 1 \<longleftrightarrow> length qs mod 2 ^ 16 = 0" using assms(5) s1(2) by (simp add: add.commute)
  have "pending s1 x \<noteq> Some (slot s1)" for x using pending_below [OF s1(1), of x "slot s1"] by blast
  then show ?thesis using deliver_one [OF s2(1) assms(4)] k by (auto simp: s2(2,3))
qed

end

section \<open>Machines in step\<close>

text \<open>A machine run on a list of operations: its last state and what each gave. \<^term>\<open>None\<close> is an operation that panics or blocks.\<close>

fun outcomes :: "('s \<Rightarrow> 'x \<Rightarrow> ('s \<times> 'y) option) \<Rightarrow> 's \<Rightarrow> 'x list \<Rightarrow> ('s \<times> 'y list) option" where
  "outcomes f s [] = Some (s, [])"
| "outcomes f s (x # xs) = do {
     (s, y) \<leftarrow> f s x;
     (s, ys) \<leftarrow> outcomes f s xs;
     Some (s, y # ys)
   }"

text \<open>Two machines whose every operation gives the same, from related states into related states.\<close>

locale lockstep =
  fixes step1 :: "'s \<Rightarrow> 'x \<Rightarrow> ('s \<times> 'y) option" and step2 :: "'t \<Rightarrow> 'x \<Rightarrow> ('t \<times> 'y) option"
    and same :: "'s \<Rightarrow> 't \<Rightarrow> bool" and ok :: "'x \<Rightarrow> bool"
  assumes step: "same s t \<Longrightarrow> ok x \<Longrightarrow> rel_option (rel_prod same (=)) (step1 s x) (step2 t x)"
begin

lemma runs: "same s t \<Longrightarrow> list_all ok xs \<Longrightarrow> rel_option (rel_prod same (=)) (outcomes step1 s xs) (outcomes step2 t xs)"
proof (induction xs arbitrary: s t)
  case (Cons x xs)
  have ok: "ok x" "list_all ok xs" using Cons.prems(2) by simp_all
  from step [OF Cons.prems(1) ok(1)] show ?case
  proof (cases rule: option.rel_cases)
    case (Some y z)
    then obtain s' t' o1 where y: "step1 s x = Some (s', o1)" "step2 t x = Some (t', o1)" "same s' t'" by (auto elim!: rel_prod.cases)
    from Cons.IH [OF y(3) ok(2)] show ?thesis using y by (cases rule: option.rel_cases) auto
  qed simp
qed simp

text \<open>What can be read off either state is the same after a run.\<close>

lemma agree:
  assumes "same s t" "list_all ok xs" "\<And>s t. same s t \<Longrightarrow> f s = g t"
  shows "case (outcomes step1 s xs, outcomes step2 t xs) of (None, None) \<Rightarrow> True
    | (Some (s', ys), Some (t', zs)) \<Rightarrow> ys = zs \<and> f s' = g t' | _ \<Rightarrow> False"
  using runs [OF assms(1,2)] by (cases rule: option.rel_cases) (auto simp: assms(3))

end

end
