(* ===== verification/E2E.thy ===== *)
theory E2E
  imports Interfaces
begin

text \<open>
  AUTOSAR end-to-end protection: \<open>src/e2e/e2e.go\<close>. The two table-driven checksums with the bit-serial
  definition of each, and the two profiles on top of them.
\<close>

definition ErrCRCMismatch :: goerr where "ErrCRCMismatch = New ''e2e: CRC mismatch''"
definition ErrCounterMismatch :: goerr where "ErrCounterMismatch = New ''e2e: counter mismatch''"
definition E2E_ErrShortFrame :: goerr where "E2E_ErrShortFrame = New ''e2e: frame shorter than E2E header''"
definition ErrInvalidCounter :: goerr where "ErrInvalidCounter = New ''e2e: counter out of range''"

lemmas e2e_errors = ErrCRCMismatch_def ErrCounterMismatch_def E2E_ErrShortFrame_def ErrInvalidCounter_def

section \<open>CRC-8/SAE-J1850\<close>

text \<open>The body of the inner loop of \<open>init\<close>, the table it fills, and \<open>crc8\<close>.\<close>

definition crc8_shift :: "u8 \<Rightarrow> u8" where
  "crc8_shift crc = (if crc AND 0x80 \<noteq> 0 then push_bit 1 crc XOR 0x1D else push_bit 1 crc)"

definition crc8Table :: "u8 list" where
  "crc8Table = map (\<lambda>i. (crc8_shift ^^ 8) (word_of_nat i)) [0..<256]"

definition crc8_byte :: "u8 \<Rightarrow> byte \<Rightarrow> u8" where
  "crc8_byte crc b = crc8Table ! unat (crc XOR b)"

definition crc8 :: "u8 \<Rightarrow> byte list \<Rightarrow> u8" where
  "crc8 ini data = foldl crc8_byte ini data XOR 0xFF"

section \<open>CRC-32/Ethernet\<close>

definition crc32_shift :: "u32 \<Rightarrow> u32" where
  "crc32_shift crc = (if crc AND 1 \<noteq> 0 then drop_bit 1 crc XOR 0xEDB88320 else drop_bit 1 crc)"

definition crc32Table :: "u32 list" where
  "crc32Table = map (\<lambda>i. (crc32_shift ^^ 8) (word_of_nat i)) [0..<256]"

definition crc32_byte :: "u32 \<Rightarrow> byte \<Rightarrow> u32" where
  "crc32_byte crc b = crc32Table ! unat ((ucast crc :: byte) XOR b) XOR drop_bit 8 crc"

definition crc32 :: "u32 \<Rightarrow> byte list \<Rightarrow> u32" where
  "crc32 ini data = foldl crc32_byte ini data XOR 0xFFFFFFFF"

section \<open>Profile 01\<close>

record Profile01 = P01_DataID :: u16

definition Profile01HeaderSize :: int where "Profile01HeaderSize = 2"

text \<open>What \<open>Protect\<close> and \<open>Check\<close> feed to the checksum.\<close>

definition P01_crc_input :: "Profile01 \<Rightarrow> u8 \<Rightarrow> byte list \<Rightarrow> byte list" where
  "P01_crc_input p hdr1 payload =
     [ucast (P01_DataID p), ucast (drop_bit 8 (P01_DataID p)), hdr1] @ payload"

definition P01_Protect :: "Profile01 \<Rightarrow> byte list \<Rightarrow> u8 \<Rightarrow> (goerr + byte list) option" where
  "P01_Protect p payload counter =
     (if counter > 14 then Some (Inl (Errorf ''e2e: Profile01 counter'' ErrInvalidCounter))
      else do {
        let hdr1 = (ucast (P01_DataID p) AND 0xF0) OR (counter AND 0x0F);
        let crc = crc8 0xFF (P01_crc_input p hdr1 payload);
        let out = replicate (nat (Profile01HeaderSize + int (length payload))) 0;
        out \<leftarrow> upd out 0 crc;
        out \<leftarrow> upd out 1 hdr1;
        out \<leftarrow> copy_into out Profile01HeaderSize (int (length out)) payload;
        Some (Inr out)
      })"

definition P01_Check :: "Profile01 \<Rightarrow> byte list \<Rightarrow> u8 \<Rightarrow> (goerr + byte list) option" where
  "P01_Check p frame expectedCounter =
     (if int (length frame) < Profile01HeaderSize then Some (Inl (Errorf ''got, need'' E2E_ErrShortFrame))
      else do {
        receivedCRC \<leftarrow> idx frame 0;
        hdr1 \<leftarrow> idx frame 1;
        let counter = hdr1 AND 0x0F;
        payload \<leftarrow> sub_from frame Profile01HeaderSize;
        let want = crc8 0xFF (P01_crc_input p hdr1 payload);
        if receivedCRC \<noteq> want then Some (Inl (Errorf ''received, computed'' ErrCRCMismatch))
        else if counter \<noteq> expectedCounter AND 0x0F
        then Some (Inl (Errorf ''received, expected'' ErrCounterMismatch))
        else Some (Inr payload)
      })"

section \<open>Profile 05\<close>

record Profile05 = P05_DataID :: u8

definition Profile05HeaderSize :: int where "Profile05HeaderSize = 8"

definition P05_Protect :: "Profile05 \<Rightarrow> byte list \<Rightarrow> u8 \<Rightarrow> (goerr + byte list) option" where
  "P05_Protect p payload counter = do {
     let out = replicate (nat (Profile05HeaderSize + int (length payload))) 0;
     out \<leftarrow> upd out 4 counter;
     out \<leftarrow> copy_into out Profile05HeaderSize (int (length out)) payload;
     tl \<leftarrow> sub_from out 4;
     let checksum = crc32 0xFFFFFFFF (P05_DataID p # tl);
     out \<leftarrow> put32le out 0 4 checksum;
     Some (Inr out)
   }"

definition P05_Check :: "Profile05 \<Rightarrow> byte list \<Rightarrow> u8 \<Rightarrow> (goerr + byte list) option" where
  "P05_Check p frame expectedCounter =
     (if int (length frame) < Profile05HeaderSize then Some (Inl (Errorf ''got, need'' E2E_ErrShortFrame))
      else do {
        receivedCRC \<leftarrow> Option.bind (sub frame 0 4) le32;
        counter \<leftarrow> idx frame 4;
        payload \<leftarrow> sub_from frame Profile05HeaderSize;
        tl \<leftarrow> sub_from frame 4;
        let want = crc32 0xFFFFFFFF (P05_DataID p # tl);
        if receivedCRC \<noteq> want then Some (Inl (Errorf ''received, computed'' ErrCRCMismatch))
        else if counter \<noteq> expectedCounter then Some (Inl (Errorf ''received, expected'' ErrCounterMismatch))
        else Some (Inr payload)
      })"

section \<open>The checksums, bit by bit\<close>

text \<open>The bit-serial definition: one message bit enters the shift register at a time, most
  significant bit first for CRC-8, least significant first (reflected) for CRC-32.\<close>

definition crc8_bit :: "u8 \<Rightarrow> bool \<Rightarrow> u8" where
  "crc8_bit crc d = push_bit 1 crc XOR (if bit crc 7 \<noteq> d then 0x1D else 0)"

definition crc32_bit :: "u32 \<Rightarrow> bool \<Rightarrow> u32" where
  "crc32_bit crc d = drop_bit 1 crc XOR (if bit crc 0 \<noteq> d then 0xEDB88320 else 0)"

definition msb_first :: "byte \<Rightarrow> bool list" where
  "msb_first b = map (\<lambda>i. bit b (7 - i)) [0..<8]"

definition lsb_first :: "byte \<Rightarrow> bool list" where
  "lsb_first b = map (bit b) [0..<8]"

lemma and_0x80: "(crc :: u8) AND 0x80 \<noteq> 0 \<longleftrightarrow> bit crc 7"
proof -
  have "(0x80 :: u8) = push_bit 7 1" by simp
  then show ?thesis by (metis and.commute bit_iff_and_push_bit_not_eq_0)
qed

lemma and_1: "(crc :: u32) AND 1 \<noteq> 0 \<longleftrightarrow> bit crc 0"
  by (simp add: and_one_eq bit_0 odd_iff_mod_2_eq_one)

lemma crc8_shift_bit: "crc8_shift (crc XOR b) = crc8_bit crc (bit b 7) XOR push_bit 1 b"
  unfolding crc8_shift_def crc8_bit_def and_0x80 bit_xor_iff push_bit_xor
  by (auto simp: ac_simps)

lemma crc32_shift_bit: "crc32_shift (crc XOR b) = crc32_bit crc (bit b 0) XOR drop_bit 1 b"
  unfolding crc32_shift_def crc32_bit_def and_1 bit_xor_iff drop_bit_xor
  by (auto simp: ac_simps)

lemma crc8_shifts:
  "n \<le> 8 \<Longrightarrow> (crc8_shift ^^ n) (crc XOR b) =
     foldl crc8_bit crc (map (\<lambda>i. bit b (7 - i)) [0..<n]) XOR push_bit n b"
proof (induction n)
  case (Suc n)
  then have "bit (push_bit n b) 7 = bit b (7 - n)" by (simp add: bit_push_bit_iff)
  moreover have "push_bit 1 (push_bit n b) = push_bit (Suc n) b" by (simp add: push_bit_push_bit)
  ultimately show ?case using Suc by (simp add: crc8_shift_bit)
qed simp

lemma crc32_shifts:
  "(crc32_shift ^^ n) (crc XOR b) = foldl crc32_bit crc (map (bit b) [0..<n]) XOR drop_bit n b"
proof (induction n)
  case (Suc n)
  have "bit (drop_bit n b) 0 = bit b n" by (simp add: bit_drop_bit_eq)
  moreover have "drop_bit 1 (drop_bit n b) = drop_bit (Suc n) b" by simp
  ultimately show ?case using Suc by (simp add: crc32_shift_bit)
qed simp

lemma crc8Table_nth: "crc8Table ! unat i = (crc8_shift ^^ 8) i"
proof -
  have "unat i < 2 ^ LENGTH(8)" by (rule unsigned_less)
  then have lt: "unat i < 256" by simp
  show ?thesis using lt by (simp add: crc8Table_def del: funpow.simps)
qed

lemma crc32Table_nth: "crc32Table ! unat (i :: byte) = (crc32_shift ^^ 8) (ucast i)"
proof -
  have "unat i < 2 ^ LENGTH(8)" by (rule unsigned_less)
  then have lt: "unat i < 256" by simp
  have "(word_of_nat (unat i) :: u32) = ucast i" by (simp add: of_nat_unat)
  then show ?thesis using lt by (simp add: crc32Table_def del: funpow.simps)
qed

lemma funpow_8: "(f ^^ 8) x = f (f (f (f (f (f (f (f x)))))))"
  by (simp add: numeral_eq_Suc)

lemma crc8_byte_shifts: "crc8_byte crc b = (crc8_shift ^^ 8) (crc XOR b)"
  by (simp only: crc8_byte_def crc8Table_nth)

lemma crc8_byte_serial: "crc8_byte crc b = foldl crc8_bit crc (msb_first b)"
proof -
  have "push_bit 8 b = (0 :: byte)"
    by (rule bit_word_eqI) (simp add: bit_push_bit_iff)
  then show ?thesis
    by (simp add: crc8_byte_def crc8Table_nth crc8_shifts msb_first_def del: funpow.simps upt.simps)
qed

lemma crc32_shifts_split:
  "(crc32_shift ^^ 8) crc = (crc32_shift ^^ 8) (ucast (ucast crc :: byte)) XOR drop_bit 8 crc"
proof -
  let ?lo = "ucast (ucast crc :: byte) :: u32" and ?hi = "push_bit 8 (drop_bit 8 crc)"
  have split: "crc = ?lo XOR ?hi"
    by (rule bit_word_eqI) (auto simp: bit_simps)
  have hi0: "map (bit ?hi) [0..<8] = map (bit (0 :: u32)) [0..<8]"
    by (auto simp: bit_push_bit_iff)
  have "(crc32_shift ^^ 8) (?lo XOR ?hi) = foldl crc32_bit ?lo (map (bit (0 :: u32)) [0..<8]) XOR drop_bit 8 ?hi"
    unfolding crc32_shifts hi0 ..
  also have "foldl crc32_bit ?lo (map (bit (0 :: u32)) [0..<8]) = (crc32_shift ^^ 8) ?lo"
    using crc32_shifts [of 8 ?lo 0] by (simp del: funpow.simps upt.simps)
  also have "drop_bit 8 ?hi = drop_bit 8 crc"
  proof (rule bit_word_eqI)
    fix n
    show "bit (drop_bit 8 ?hi) n \<longleftrightarrow> bit (drop_bit 8 crc) n"
      by (cases "n < 24") (auto simp: bit_simps)
  qed
  finally show ?thesis using split by simp
qed

lemma crc32_byte_shifts: "crc32_byte crc b = (crc32_shift ^^ 8) (crc XOR ucast b)"
proof -
  have "(ucast (crc XOR ucast b) :: byte) = ucast crc XOR b"
    by (rule bit_word_eqI) (auto simp: bit_simps)
  moreover have "drop_bit 8 (crc XOR ucast b) = drop_bit 8 crc"
    by (rule bit_word_eqI) (auto simp: bit_simps)
  ultimately show ?thesis
    unfolding crc32_byte_def crc32Table_nth crc32_shifts_split [of "crc XOR ucast b"] by simp
qed

lemma crc32_byte_serial: "crc32_byte crc b = foldl crc32_bit crc (lsb_first b)"
proof -
  have "drop_bit 8 (ucast b) = (0 :: u32)"
    by (rule bit_word_eqI) (auto simp: bit_simps)
  moreover have "map (bit (ucast b :: u32)) [0..<8] = lsb_first b"
    unfolding lsb_first_def by (rule map_cong) (auto simp: bit_simps)
  ultimately show ?thesis
    by (simp add: crc32_byte_shifts crc32_shifts del: funpow.simps upt.simps)
qed

lemma foldl_concat_map: "foldl (\<lambda>s b. foldl f s (g b)) s bs = foldl f s (concat (map g bs))"
  by (induction bs arbitrary: s) auto

section \<open>Injectivity of the updates\<close>

lemma crc8_bit_inj: "crc8_bit a d = crc8_bit b d \<Longrightarrow> a = b"
proof -
  assume eq: "crc8_bit a d = crc8_bit b d"
  have bit0: "bit (crc8_bit x d) 0 \<longleftrightarrow> bit x 7 \<noteq> d" for x
    unfolding crc8_bit_def bit_xor_iff bit_push_bit_iff by auto
  from eq bit0 [of a] bit0 [of b] have top: "bit a 7 \<longleftrightarrow> bit b 7" by auto
  with eq have "push_bit 1 a = push_bit 1 b" by (auto simp: crc8_bit_def xor_right_cancel)
  then have low: "bit a n \<longleftrightarrow> bit b n" if "n < 7" for n
    using that bit_push_bit_iff [of 1 a "Suc n"] bit_push_bit_iff [of 1 b "Suc n"] by auto
  show "a = b"
  proof (rule bit_word_eqI)
    fix n assume "n < LENGTH(8)"
    then show "bit a n \<longleftrightarrow> bit b n" using low [of n] top by (cases "n = 7") auto
  qed
qed

lemma crc32_bit_inj: "crc32_bit a d = crc32_bit b d \<Longrightarrow> a = b"
proof -
  assume eq: "crc32_bit a d = crc32_bit b d"
  have bit31: "bit (crc32_bit x d) 31 \<longleftrightarrow> bit x 0 \<noteq> d" for x
    unfolding crc32_bit_def bit_xor_iff bit_drop_bit_eq by auto
  from eq bit31 [of a] bit31 [of b] have bot: "bit a 0 \<longleftrightarrow> bit b 0" by auto
  with eq have "drop_bit 1 a = drop_bit 1 b" by (auto simp: crc32_bit_def xor_right_cancel)
  then have high: "bit a (Suc n) \<longleftrightarrow> bit b (Suc n)" for n
    by (metis bit_drop_bit_eq comp_apply plus_1_eq_Suc)
  show "a = b"
  proof (rule bit_word_eqI)
    fix n
    show "bit a n \<longleftrightarrow> bit b n" using high bot by (cases n) auto
  qed
qed

lemma foldl_inj:
  assumes "\<forall>a b d. f a d = f b d \<longrightarrow> a = b"
  shows "foldl f a ds = foldl f b ds \<Longrightarrow> a = b"
proof (induction ds arbitrary: a b)
  case (Cons d ds)
  then have "f a d = f b d" by (simp only: foldl_Cons)
  with assms show ?case by blast
qed simp

lemma crc8_shifts_inj: "(crc8_shift ^^ 8) a = (crc8_shift ^^ 8) b \<Longrightarrow> a = b"
proof -
  let ?ds = "map (\<lambda>i. bit (0 :: u8) (7 - i)) [0..<8]"
  assume "(crc8_shift ^^ 8) a = (crc8_shift ^^ 8) b"
  moreover have "(crc8_shift ^^ 8) x = foldl crc8_bit x ?ds" for x
    using crc8_shifts [of 8 x 0] by (simp del: funpow.simps upt.simps)
  ultimately have "foldl crc8_bit a ?ds = foldl crc8_bit b ?ds" by simp
  then show "a = b" using foldl_inj [of crc8_bit] crc8_bit_inj by blast
qed

lemma crc32_shifts_inj: "(crc32_shift ^^ 8) a = (crc32_shift ^^ 8) b \<Longrightarrow> a = b"
proof -
  let ?ds = "map (bit (0 :: u32)) [0..<8]"
  assume "(crc32_shift ^^ 8) a = (crc32_shift ^^ 8) b"
  moreover have "(crc32_shift ^^ 8) x = foldl crc32_bit x ?ds" for x
    using crc32_shifts [of 8 x 0] by (simp del: funpow.simps upt.simps)
  ultimately have "foldl crc32_bit a ?ds = foldl crc32_bit b ?ds" by simp
  then show "a = b" using foldl_inj [of crc32_bit] crc32_bit_inj by blast
qed

interpretation crc8_engine: crc_engine crc8_byte
proof unfold_locales
  show "s = t" if "crc8_byte s b = crc8_byte t b" for s t b
    using that unfolding crc8_byte_def crc8Table_nth by (auto dest!: crc8_shifts_inj simp: xor_right_cancel)
  show "b = c" if "crc8_byte s b = crc8_byte s c" for s b c
    using that unfolding crc8_byte_def crc8Table_nth by (auto dest!: crc8_shifts_inj simp: xor_left_cancel)
qed

interpretation crc32_engine: crc_engine crc32_byte
proof unfold_locales
  show "s = t" if "crc32_byte s b = crc32_byte t b" for s t b
    using that unfolding crc32_byte_shifts by (auto dest!: crc32_shifts_inj simp: xor_right_cancel)
  show "b = c" if "crc32_byte s b = crc32_byte s c" for s b c
    using that unfolding crc32_byte_shifts
    by (auto dest!: crc32_shifts_inj simp: xor_left_cancel ucast_byte_inj)
qed

section \<open>The profiles as frames\<close>

definition p01_hdr1 :: "Profile01 \<Rightarrow> u8 \<Rightarrow> u8" where
  "p01_hdr1 p c = (ucast (P01_DataID p) AND 0xF0) OR (c AND 0x0F)"

definition p01_frame :: "Profile01 \<Rightarrow> byte list \<Rightarrow> u8 \<Rightarrow> byte list" where
  "p01_frame p payload c =
     crc8 0xFF (P01_crc_input p (p01_hdr1 p c) payload) # p01_hdr1 p c # payload"

definition p05_body :: "byte list \<Rightarrow> u8 \<Rightarrow> byte list" where
  "p05_body payload c = c # 0 # 0 # 0 # payload"

definition p05_frame :: "Profile05 \<Rightarrow> byte list \<Rightarrow> u8 \<Rightarrow> byte list" where
  "p05_frame p payload c =
     rev (bytes32 (crc32 0xFFFFFFFF (P05_DataID p # p05_body payload c))) @ p05_body payload c"

lemma length_p05_body [simp]: "length (p05_body payload c) = 4 + length payload"
  by (simp add: p05_body_def)

lemma length_p01_frame [simp]: "length (p01_frame p payload c) = 2 + length payload"
  by (simp add: p01_frame_def)

lemma length_p05_frame [simp]: "length (p05_frame p payload c) = 8 + length payload"
  by (simp add: p05_frame_def p05_body_def)

lemma hdr1_counter: "p01_hdr1 p c AND 0x0F = c AND 0x0F"
proof -
  have "(0xF0 :: u8) AND 0x0F = 0" by simp
  then show ?thesis
    by (simp add: p01_hdr1_def bit.conj_disj_distrib2 and.assoc)
qed

lemma P01_Protect_eq:
  "P01_Protect p payload c = Some
     (if c > 14 then Inl (Errorf ''e2e: Profile01 counter'' ErrInvalidCounter)
      else Inr (p01_frame p payload c))"
  by (auto simp: P01_Protect_def Profile01HeaderSize_def upd_def copy_into_def p01_frame_def
      p01_hdr1_def Let_def nat_add_distrib)

lemma P01_Check_eq:
  "P01_Check p frame d = Some
     (if length frame < 2 then Inl (Errorf ''got, need'' E2E_ErrShortFrame)
      else if frame ! 0 \<noteq> crc8 0xFF (P01_crc_input p (frame ! 1) (drop 2 frame))
      then Inl (Errorf ''received, computed'' ErrCRCMismatch)
      else if (frame ! 1) AND 0x0F \<noteq> d AND 0x0F
      then Inl (Errorf ''received, expected'' ErrCounterMismatch)
      else Inr (drop 2 frame))"
proof (cases "length frame < 2")
  case False
  then obtain a b r where "frame = a # b # r"
    by (metis length_ge_Suc numeral_2_eq_2 not_less le_0_eq One_nat_def)
  then show ?thesis
    by (simp add: P01_Check_def Profile01HeaderSize_def idx_def sub_from_def sub_def Let_def)
qed (simp add: P01_Check_def Profile01HeaderSize_def)

lemma P05_Protect_eq: "P05_Protect p payload c = Some (Inr (p05_frame p payload c))"
proof -
  have "replicate (8 + length payload) (0::byte) = 0 # 0 # 0 # 0 # 0 # 0 # 0 # 0 # replicate (length payload) 0"
    by (simp add: eval_nat_numeral)
  then show ?thesis
    by (simp add: P05_Protect_def Profile05HeaderSize_def upd_def copy_into_def sub_from_def sub_def
        put32le_def p05_frame_def p05_body_def Let_def nat_add_distrib)
qed

lemma le32_bytes: "4 \<le> length f \<Longrightarrow> le32 (take 4 f) = Some c \<longleftrightarrow> take 4 f = rev (bytes32 c)"
proof -
  assume "4 \<le> length f"
  then obtain b0 b1 b2 b3 r where f: "f = b0 # b1 # b2 # b3 # r"
    using length_ge_4 by blast
  have "join32 b3 b2 b1 b0 = c \<longleftrightarrow> [b3, b2, b1, b0] = bytes32 c"
    using bytes32_join bytes32_inj by metis
  then show ?thesis by (auto simp: f bytes32_def)
qed

lemma P05_Check_eq:
  "P05_Check p frame d = Some
     (if length frame < 8 then Inl (Errorf ''got, need'' E2E_ErrShortFrame)
      else if take 4 frame \<noteq> rev (bytes32 (crc32 0xFFFFFFFF (P05_DataID p # drop 4 frame)))
      then Inl (Errorf ''received, computed'' ErrCRCMismatch)
      else if frame ! 4 \<noteq> d then Inl (Errorf ''received, expected'' ErrCounterMismatch)
      else Inr (drop 8 frame))"
proof (cases "length frame < 8")
  case False
  then obtain b0 b1 b2 b3 r where "frame = b0 # b1 # b2 # b3 # r"
    using length_ge_4 [of frame] by auto
  then obtain c where c: "le32 (take 4 frame) = Some c" by auto
  with False have "take 4 frame = rev (bytes32 w) \<longleftrightarrow> c = w" for w
    using le32_bytes [of frame] by (auto simp: bytes32_inj)
  with False c show ?thesis
    by (simp add: P05_Check_def Profile05HeaderSize_def go_simps Let_def)
qed (simp add: P05_Check_def Profile05HeaderSize_def)

interpretation p01: e2e_profile "\<lambda>pl c. p01_frame p pl c" "P01_Check p" "\<lambda>c. c \<le> 14"
  "\<lambda>c. c AND 0x0F" ErrCounterMismatch for p
proof unfold_locales
  fix c d :: u8 and pl
  show "P01_Check p (p01_frame p pl c) d = Some (Inr pl)" if "c AND 0x0F = d AND 0x0F"
    using that by (simp add: P01_Check_eq p01_frame_def hdr1_counter)
  show "\<exists>e. P01_Check p (p01_frame p pl c) d = Some (Inl e) \<and> errors_is e ErrCounterMismatch"
    if "c AND 0x0F \<noteq> d AND 0x0F"
    using that by (simp add: P01_Check_eq p01_frame_def hdr1_counter)
qed

interpretation p05: e2e_profile "\<lambda>pl c. p05_frame p pl c" "P05_Check p" "\<lambda>_. True"
  "\<lambda>c. c" ErrCounterMismatch for p
proof unfold_locales
  fix c d :: u8 and pl
  show "P05_Check p (p05_frame p pl c) d = Some (Inr pl)" if "c = d"
    using that by (simp add: P05_Check_eq p05_frame_def p05_body_def nth_append)
  show "\<exists>e. P05_Check p (p05_frame p pl c) d = Some (Inl e) \<and> errors_is e ErrCounterMismatch" if "c \<noteq> d"
    using that by (simp add: P05_Check_eq p05_frame_def p05_body_def nth_append)
qed

section \<open>Detection of corruption\<close>

lemma crc8_inj: "crc8 s bs = crc8 s cs \<longleftrightarrow> foldl crc8_byte s bs = foldl crc8_byte s cs"
  by (simp add: crc8_def xor_right_cancel)

lemma crc32_inj: "crc32 s bs = crc32 s cs \<longleftrightarrow> foldl crc32_byte s bs = foldl crc32_byte s cs"
  by (simp add: crc32_def xor_right_cancel)

lemma crc8_update: "i < length bs \<Longrightarrow> v \<noteq> bs ! i \<Longrightarrow> crc8 s (bs[i := v]) \<noteq> crc8 s bs"
  unfolding crc8_inj by (rule crc8_engine.fold_update)

lemma crc32_update: "i < length bs \<Longrightarrow> v \<noteq> bs ! i \<Longrightarrow> crc32 s (bs[i := v]) \<noteq> crc32 s bs"
  unfolding crc32_inj by (rule crc32_engine.fold_update)

lemma p01_corrupt:
  assumes "i < 2 + length pl" and "v \<noteq> p01_frame p pl c ! i"
  shows "P01_Check p ((p01_frame p pl c)[i := v]) d = Some (Inl (Errorf ''received, computed'' ErrCRCMismatch))"
proof (cases i)
  case 0
  with assms show ?thesis by (simp add: P01_Check_eq p01_frame_def)
next
  case (Suc j)
  let ?in = "P01_crc_input p (p01_hdr1 p c) pl"
  have "?in[Suc (Suc j) := v] = P01_crc_input p ((p01_hdr1 p c # pl)[j := v] ! 0) (drop 1 ((p01_hdr1 p c # pl)[j := v]))"
    by (cases j) (simp_all add: P01_crc_input_def)
  moreover have "crc8 0xFF (?in[Suc (Suc j) := v]) \<noteq> crc8 0xFF ?in"
    using assms Suc by (intro crc8_update) (auto simp: P01_crc_input_def p01_frame_def)
  ultimately show ?thesis
    using Suc by (cases j) (simp_all add: P01_Check_eq p01_frame_def)
qed

lemma p05_corrupt:
  assumes "i < 8 + length pl" and "v \<noteq> p05_frame p pl c ! i"
  shows "P05_Check p ((p05_frame p pl c)[i := v]) d = Some (Inl (Errorf ''received, computed'' ErrCRCMismatch))"
proof -
  let ?body = "p05_body pl c"
  let ?crc = "rev (bytes32 (crc32 0xFFFFFFFF (P05_DataID p # ?body)))"
  have f: "p05_frame p pl c = ?crc @ ?body" by (simp add: p05_frame_def)
  show ?thesis
  proof (cases "i < 4")
    case True
    then have "?crc[i := v] \<noteq> ?crc"
      using assms(2) by (metis f length_bytes32 length_rev nth_append nth_list_update_eq)
    with True show ?thesis
      by (simp add: P05_Check_eq f list_update_append p05_body_def)
  next
    case False
    let ?j = "i - 4"
    have "crc32 0xFFFFFFFF ((P05_DataID p # ?body)[Suc ?j := v]) \<noteq> crc32 0xFFFFFFFF (P05_DataID p # ?body)"
      using assms False by (intro crc32_update) (auto simp: f nth_append p05_body_def)
    with False show ?thesis
      by (simp add: P05_Check_eq f list_update_append bytes32_inj)
  qed
qed

section \<open>Properties\<close>

text \<open>C31: The table-driven checksums compute the bit-serial CRC-8/SAE-J1850 (polynomial 0x1D, most
  significant bit first) and the reflected CRC-32 (polynomial 0xEDB88320, least significant bit
  first) of the byte sequence, from any initial value, and give the published check values of
  \<open>"123456789"\<close>.\<close>

theorem crc_tables_bit_serial:
  "crc8 s8 data = foldl crc8_bit s8 (concat (map msb_first data)) XOR 0xFF
   \<and> crc32 s32 data = foldl crc32_bit s32 (concat (map lsb_first data)) XOR 0xFFFFFFFF
   \<and> crc8 0xFF [49, 50, 51, 52, 53, 54, 55, 56, 57] = 0x4B
   \<and> crc32 0xFFFFFFFF [49, 50, 51, 52, 53, 54, 55, 56, 57] = 0xCBF43926"
proof (intro conjI)
  show "crc8 s8 data = foldl crc8_bit s8 (concat (map msb_first data)) XOR 0xFF"
    by (simp add: crc8_def crc8_byte_serial [abs_def] foldl_concat_map)
  show "crc32 s32 data = foldl crc32_bit s32 (concat (map lsb_first data)) XOR 0xFFFFFFFF"
    by (simp add: crc32_def crc32_byte_serial [abs_def] foldl_concat_map)
  show "crc8 0xFF [49, 50, 51, 52, 53, 54, 55, 56, 57] = 0x4B"
    by (simp add: crc8_def crc8_byte_shifts funpow_8 crc8_shift_def)
  show "crc32 0xFFFFFFFF [49, 50, 51, 52, 53, 54, 55, 56, 57] = 0xCBF43926"
    by (simp add: crc32_def crc32_byte_shifts funpow_8 crc32_shift_def)
qed

text \<open>Profile 01 end to end. \<open>Protect\<close> refuses exactly the counters above 14; otherwise it frames the
  payload with two header bytes, and \<open>Check\<close> accepts that frame at exactly the expected counters that
  agree in the low nibble, returning the payload that was protected, and reports a counter mismatch
  at every other.\<close>

theorem p01_protect_check:
  "\<exists>r. P01_Protect p payload c = Some r \<and>
     (case r of
        Inl e \<Rightarrow> c > 14 \<and> errors_is e ErrInvalidCounter
      | Inr f \<Rightarrow> c \<le> 14 \<and> length f = 2 + length payload \<and>
          (\<forall>d. if d AND 0x0F = c then P01_Check p f d = Some (Inr payload)
               else \<exists>e. P01_Check p f d = Some (Inl e) \<and> errors_is e ErrCounterMismatch))"
proof (cases "c > 14")
  case False
  then have c: "c \<le> 14" by simp
  have "uint (take_bit 4 c) = uint c"
    using c by (simp add: unsigned_take_bit_eq take_bit_int_eq_self word_le_def)
  then have "take_bit 4 c = c" by (simp only: word_uint_eq_iff)
  then have "c AND 0x0F = c"
    by (simp add: take_bit_eq_mask mask_eq_exp_minus_1)
  with c p01.check_protect [OF c, of _ p payload] p01.check_stale [OF c, of _ p payload] show ?thesis
    by (auto simp: P01_Protect_eq)
qed (simp add: P01_Protect_eq)

text \<open>Profile 05 end to end. \<open>Protect\<close> always succeeds with eight header bytes, and \<open>Check\<close> accepts the
  frame at exactly the counter it was protected with, returning the payload.\<close>

theorem p05_protect_check:
  "\<exists>f. P05_Protect p payload c = Some (Inr f) \<and> length f = 8 + length payload \<and>
     (\<forall>d. if d = c then P05_Check p f d = Some (Inr payload)
          else \<exists>e. P05_Check p f d = Some (Inl e) \<and> errors_is e ErrCounterMismatch)"
  using p05.check_protect [of c _ p payload] p05.check_stale [of c _ p payload]
  by (auto simp: P05_Protect_eq)

text \<open>Profile 01 detects every corruption of a single byte of a protected frame, header or payload,
  whatever counter the receiver expects.\<close>

theorem p01_detects_single_byte:
  assumes "P01_Protect p payload c = Some (Inr f)" and "i < length f" and "v \<noteq> f ! i"
  shows "\<exists>e. P01_Check p (f[i := v]) d = Some (Inl e) \<and> errors_is e ErrCRCMismatch"
  using assms p01_corrupt [of i payload v p c d] by (auto simp: P01_Protect_eq split: if_splits)

theorem p01_detects_single_byte_witness:
  "\<exists>f e. P01_Protect \<lparr>P01_DataID = 0x1234\<rparr> [1, 2, 3] 5 = Some (Inr f) \<and>
     P01_Check \<lparr>P01_DataID = 0x1234\<rparr> (f[4 := 9]) 5 = Some (Inl e) \<and> errors_is e ErrCRCMismatch"
proof -
  let ?p = "\<lparr>P01_DataID = 0x1234\<rparr>"
  have f: "P01_Protect ?p [1, 2, 3] 5 = Some (Inr (p01_frame ?p [1, 2, 3] 5))"
    by (simp add: P01_Protect_eq)
  show ?thesis
    using f p01_detects_single_byte [OF f, of 4 9 5] by (simp add: p01_frame_def)
qed

text \<open>C12: Profile 05 detects every corruption of a single byte of a protected frame, checksum, counter,
  reserved bytes and payload included.\<close>

theorem p05_detects_single_byte:
  assumes "P05_Protect p payload c = Some (Inr f)" and "i < length f" and "v \<noteq> f ! i"
  shows "\<exists>e. P05_Check p (f[i := v]) d = Some (Inl e) \<and> errors_is e ErrCRCMismatch"
  using assms p05_corrupt [of i payload v p c d] by (auto simp: P05_Protect_eq)

theorem p05_detects_single_byte_witness:
  "\<exists>f e. P05_Protect \<lparr>P05_DataID = 7\<rparr> [1, 2, 3] 5 = Some (Inr f) \<and>
     P05_Check \<lparr>P05_DataID = 7\<rparr> (f[6 := 9]) 5 = Some (Inl e) \<and> errors_is e ErrCRCMismatch"
proof -
  let ?p = "\<lparr>P05_DataID = 7\<rparr>"
  have f: "P05_Protect ?p [1, 2, 3] 5 = Some (Inr (p05_frame ?p [1, 2, 3] 5))"
    by (rule P05_Protect_eq)
  show ?thesis
    using f p05_detects_single_byte [OF f, of 6 9 5]
    by (simp add: p05_frame_def p05_body_def nth_append)
qed

text \<open>Message substitution between DataIDs. A Profile 05 receiver rejects every frame protected for
  another DataID; a Profile 01 receiver rejects every frame protected for a DataID that differs from
  its own in one of its two bytes only.\<close>

theorem e2e_masquerade_detected:
  "(P05_DataID q5 \<noteq> P05_DataID p5 \<longrightarrow> P05_Protect p5 payload c = Some (Inr f5) \<longrightarrow>
      (\<exists>e. P05_Check q5 f5 d = Some (Inl e) \<and> errors_is e ErrCRCMismatch))
   \<and> (P01_DataID q1 \<noteq> P01_DataID p1 \<longrightarrow>
      (ucast (P01_DataID q1) = (ucast (P01_DataID p1) :: byte) \<or>
       drop_bit 8 (P01_DataID q1) = drop_bit 8 (P01_DataID p1)) \<longrightarrow>
      P01_Protect p1 payload c = Some (Inr f1) \<longrightarrow>
      (\<exists>e. P01_Check q1 f1 d = Some (Inl e) \<and> errors_is e ErrCRCMismatch))"
proof (intro conjI impI)
  assume ne: "P05_DataID q5 \<noteq> P05_DataID p5" and f: "P05_Protect p5 payload c = Some (Inr f5)"
  have "crc32 0xFFFFFFFF (P05_DataID q5 # p05_body payload c) \<noteq> crc32 0xFFFFFFFF (P05_DataID p5 # p05_body payload c)"
    using crc32_update [of 0 "P05_DataID p5 # p05_body payload c" "P05_DataID q5"] ne by simp
  with f show "\<exists>e. P05_Check q5 f5 d = Some (Inl e) \<and> errors_is e ErrCRCMismatch"
    by (auto simp: P05_Protect_eq P05_Check_eq p05_frame_def bytes32_inj)
next
  let ?lo = "\<lambda>p. ucast (P01_DataID p) :: byte" and ?hi = "\<lambda>p. ucast (drop_bit 8 (P01_DataID p)) :: byte"
  assume ne: "P01_DataID q1 \<noteq> P01_DataID p1"
    and one: "?lo q1 = ?lo p1 \<or> drop_bit 8 (P01_DataID q1) = drop_bit 8 (P01_DataID p1)"
    and f: "P01_Protect p1 payload c = Some (Inr f1)"
  have "?lo q1 \<noteq> ?lo p1 \<or> ?hi q1 \<noteq> ?hi p1"
    using ne join16_split [of "P01_DataID q1"] join16_split [of "P01_DataID p1"] by metis
  then have "crc8 0xFF (P01_crc_input p1 h payload) \<noteq> crc8 0xFF (P01_crc_input q1 h payload)" for h
    using one crc8_update [of 0 "P01_crc_input p1 h payload" "?lo q1" "0xFF", THEN not_sym]
      crc8_update [of 1 "P01_crc_input p1 h payload" "?hi q1" "0xFF", THEN not_sym]
    by (auto simp: P01_crc_input_def)
  with f show "\<exists>e. P01_Check q1 f1 d = Some (Inl e) \<and> errors_is e ErrCRCMismatch"
    by (auto simp: P01_Protect_eq P01_Check_eq p01_frame_def split: if_splits)
qed

theorem e2e_masquerade_detected_witness:
  "\<exists>e. P05_Check \<lparr>P05_DataID = 8\<rparr> (p05_frame \<lparr>P05_DataID = 7\<rparr> [1] 3) 3 = Some (Inl e)
     \<and> errors_is e ErrCRCMismatch"
  using e2e_masquerade_detected [of "\<lparr>P05_DataID = 8\<rparr>" "\<lparr>P05_DataID = 7\<rparr>" "[1]" 3
      "p05_frame \<lparr>P05_DataID = 7\<rparr> [1] 3"]
  by (simp add: P05_Protect_eq)

text \<open>The limit of Profile 01: DataID 0xCD10 and DataID 0 are the same to \<open>Check\<close>, on every
  frame, although their header nibbles differ (1 and 0): the nibble of the DataID that \<open>Protect\<close> puts
  in the header is never compared, so a frame of the one element is accepted as the other.\<close>

theorem p01_nibble_not_checked:
  "P01_Check \<lparr>P01_DataID = 0xCD10\<rparr> f d = P01_Check \<lparr>P01_DataID = 0\<rparr> f d
   \<and> p01_hdr1 \<lparr>P01_DataID = 0xCD10\<rparr> c \<noteq> p01_hdr1 \<lparr>P01_DataID = 0\<rparr> c"
proof -
  have "crc8_byte (crc8_byte 0xFF 0xCD10) 0xCD = crc8_byte (crc8_byte 0xFF 0) 0"
    by (simp add: crc8_byte_shifts funpow_8 crc8_shift_def)
  then have "crc8 0xFF (P01_crc_input \<lparr>P01_DataID = 0xCD10\<rparr> h pl) = crc8 0xFF (P01_crc_input \<lparr>P01_DataID = 0\<rparr> h pl)" for h pl
    by (simp add: crc8_inj P01_crc_input_def)
  moreover have "bit (p01_hdr1 \<lparr>P01_DataID = 0xCD10\<rparr> c) 4 \<noteq> bit (p01_hdr1 \<lparr>P01_DataID = 0\<rparr> c) 4"
    by (simp add: p01_hdr1_def bit_simps)
  ultimately show ?thesis
    by (auto simp: P01_Check_eq)
qed

end
