(* ===== verification/Strconv.thy ===== *)
theory Strconv
  imports Prelude
begin

text \<open>
  The part of Go's \<open>strconv\<close> and \<open>strings\<close> the RELAY adapter uses: \<open>FormatUint(n, 10)\<close>,
  \<open>ParseUint(s, 10, bits)\<close> and \<open>SplitN(s, sep, 2)\<close>. The adapter only asks whether \<open>ParseUint\<close>
  failed, so its two errors (syntax, range) are one \<^term>\<open>None\<close>.
\<close>

definition digit_char :: "nat \<Rightarrow> char" where
  "digit_char d = char_of (48 + d)"

definition char_digit :: "char \<Rightarrow> nat option" where
  "char_digit c = (if 48 \<le> (of_char c :: nat) \<and> (of_char c :: nat) \<le> 57 then Some (of_char c - 48) else None)"

fun FormatUint :: "nat \<Rightarrow> string" where
  "FormatUint n = (if n < 10 then [digit_char n] else FormatUint (n div 10) @ [digit_char (n mod 10)])"

declare FormatUint.simps [simp del]

text \<open>The digit loop of \<open>ParseUint\<close>: it stops at the first character that is no digit and as soon
  as the accumulated value exceeds \<open>maxVal\<close>.\<close>

fun parse_loop :: "nat \<Rightarrow> nat \<Rightarrow> string \<Rightarrow> nat option" where
  "parse_loop maxVal n [] = Some n"
| "parse_loop maxVal n (c # cs) =
     (case char_digit c of
        None \<Rightarrow> None
      | Some d \<Rightarrow> if 10 * n + d > maxVal then None else parse_loop maxVal (10 * n + d) cs)"

definition ParseUint :: "string \<Rightarrow> nat \<Rightarrow> nat option" where
  "ParseUint s bits = (if s = [] then None else parse_loop (2 ^ bits - 1) 0 s)"

text \<open>\<open>strings.SplitN(s, sep, 2)\<close> for a one-character separator: one part when it does not occur.\<close>

fun SplitN2 :: "string \<Rightarrow> char \<Rightarrow> string list" where
  "SplitN2 [] sep = [[]]"
| "SplitN2 (c # cs) sep =
     (if c = sep then [[], cs]
      else (case SplitN2 cs sep of p # ps \<Rightarrow> (c # p) # ps | [] \<Rightarrow> []))"

lemma char_digit_digit_char [simp]: "d < 10 \<Longrightarrow> char_digit (digit_char d) = Some d"
  by (simp add: char_digit_def digit_char_def)

lemma digit_char_not_slash: "d < 10 \<Longrightarrow> digit_char d \<noteq> CHR ''/''"
proof
  assume "d < 10" "digit_char d = CHR ''/''"
  then have "char_digit (CHR ''/'') = Some d"
    using char_digit_digit_char by metis
  then show False
    by (simp add: char_digit_def)
qed

lemma FormatUint_nonempty [simp]: "FormatUint n \<noteq> []"
  by (subst FormatUint.simps) simp

lemma FormatUint_no_slash: "CHR ''/'' \<notin> set (FormatUint n)"
proof (induction n rule: FormatUint.induct)
  case (1 n)
  have no: "digit_char d \<noteq> CHR ''/''" if "d < 10" for d
    using that by (rule digit_char_not_slash)
  show ?case
  proof (cases "n < 10")
    case True
    with no [of n] show ?thesis by (subst FormatUint.simps) auto
  next
    case False
    with "1.IH" no [of "n mod 10"] show ?thesis by (subst FormatUint.simps) auto
  qed
qed

lemma parse_loop_append:
  "parse_loop m n (xs @ ys) = Option.bind (parse_loop m n xs) (\<lambda>n'. parse_loop m n' ys)"
  by (induction xs arbitrary: n) (auto split: option.splits)

lemma parse_loop_FormatUint: "v \<le> m \<Longrightarrow> parse_loop m 0 (FormatUint v) = Some v"
proof (induction v rule: FormatUint.induct)
  case (1 n)
  show ?case
  proof (cases "n < 10")
    case True
    with "1.prems" show ?thesis by (subst FormatUint.simps) simp
  next
    case False
    have "n div 10 \<le> m" using "1.prems" by simp
    with False "1.IH" have "parse_loop m 0 (FormatUint (n div 10)) = Some (n div 10)" by simp
    with False "1.prems" show ?thesis
      by (subst FormatUint.simps) (simp add: parse_loop_append)
  qed
qed

lemma ParseUint_FormatUint: "v < 2 ^ bits \<Longrightarrow> ParseUint (FormatUint v) bits = Some v"
  by (simp add: ParseUint_def parse_loop_FormatUint)

lemma parse_loop_bound: "parse_loop m n s = Some v \<Longrightarrow> n \<le> m \<Longrightarrow> v \<le> m"
  by (induction s arbitrary: n) (auto split: option.splits if_splits)

lemma ParseUint_bound: "ParseUint s bits = Some v \<Longrightarrow> v < 2 ^ bits"
proof -
  assume "ParseUint s bits = Some v"
  then have "v \<le> 2 ^ bits - 1"
    by (auto simp: ParseUint_def dest: parse_loop_bound split: if_splits)
  moreover have "(0::nat) < 2 ^ bits" by simp
  ultimately show ?thesis by linarith
qed

lemma SplitN2_append: "sep \<notin> set xs \<Longrightarrow> SplitN2 (xs @ sep # ys) sep = [xs, ys]"
  by (induction xs) auto

lemma SplitN2_none: "sep \<notin> set xs \<Longrightarrow> SplitN2 xs sep = [xs]"
  by (induction xs) auto

lemma FormatUint_inj: "FormatUint a = FormatUint b \<longleftrightarrow> a = b"
  by (metis parse_loop_FormatUint max.cobounded1 max.cobounded2 option.inject)

end
