(* ===== verification/SomeIP.thy ===== *)
theory SomeIP
  imports Strconv
begin

text \<open>
  The root package \<open>someip\<close>: \<open>src/someip.go\<close>. The wire types, the decoded message with its
  \<open>Validate\<close> and \<open>String\<close>, and the error values of the package. An omitted field of a Go
  composite literal is zero: such a literal is an update of \<open>zero_message\<close>. A nil and an empty
  payload are the same list.
\<close>

section \<open>Sentinel errors\<close>

definition ErrClosed :: goerr where
  "ErrClosed = Errorf ''someip: closed'' (Relay RelayErrClosed)"

definition ErrTimeout :: goerr where
  "ErrTimeout = Errorf ''someip: timeout'' (Relay RelayErrTimeout)"

definition ErrNotConnected :: goerr where
  "ErrNotConnected = Errorf ''someip: not connected'' (Relay RelayErrNotConnected)"

definition ErrPayloadTooLarge :: goerr where
  "ErrPayloadTooLarge = Errorf ''someip: payload too large'' (Relay RelayErrPayloadTooLarge)"

definition ErrUnknownMethod :: goerr where
  "ErrUnknownMethod = Errorf ''someip: unknown method'' (Relay RelayErrNotConnected)"

definition ErrUnknownService :: goerr where
  "ErrUnknownService = Errorf ''someip: unknown service'' (Relay RelayErrNotConnected)"

definition ErrMalformedMessage :: goerr where
  "ErrMalformedMessage = Errorf ''someip: malformed message'' (Relay RelayErrPayloadTooLarge)"

definition ErrWrongProtocolVersion :: goerr where
  "ErrWrongProtocolVersion = New ''someip: wrong protocol version''"

lemmas someip_errors =
  ErrClosed_def ErrTimeout_def ErrNotConnected_def ErrPayloadTooLarge_def ErrUnknownMethod_def
  ErrUnknownService_def ErrMalformedMessage_def ErrWrongProtocolVersion_def

section \<open>Message\<close>

definition SOMEIPProtocolVersion :: u8 where "SOMEIPProtocolVersion = 0x01"

definition MsgTypeRequest :: u8 where "MsgTypeRequest = 0x00"
definition MsgTypeRequestNoReturn :: u8 where "MsgTypeRequestNoReturn = 0x01"
definition MsgTypeNotification :: u8 where "MsgTypeNotification = 0x02"
definition MsgTypeResponse :: u8 where "MsgTypeResponse = 0x80"
definition MsgTypeError :: u8 where "MsgTypeError = 0x81"
definition MsgTypeTPRequest :: u8 where "MsgTypeTPRequest = 0x20"
definition MsgTypeTPRequestNoReturn :: u8 where "MsgTypeTPRequestNoReturn = 0x21"
definition MsgTypeTPNotification :: u8 where "MsgTypeTPNotification = 0x22"
definition MsgTypeTPResponse :: u8 where "MsgTypeTPResponse = 0xa0"
definition MsgTypeTPError :: u8 where "MsgTypeTPError = 0xa1"

lemmas msg_types =
  MsgTypeRequest_def MsgTypeRequestNoReturn_def MsgTypeNotification_def MsgTypeResponse_def
  MsgTypeError_def MsgTypeTPRequest_def MsgTypeTPRequestNoReturn_def MsgTypeTPNotification_def
  MsgTypeTPResponse_def MsgTypeTPError_def

definition RetOK :: u8 where "RetOK = 0x00"
definition RetNotOK :: u8 where "RetNotOK = 0x01"
definition RetUnknownService :: u8 where "RetUnknownService = 0x02"
definition RetUnknownMethod :: u8 where "RetUnknownMethod = 0x03"
definition RetNotReady :: u8 where "RetNotReady = 0x04"
definition RetNotReachable :: u8 where "RetNotReachable = 0x05"
definition RetTimeout :: u8 where "RetTimeout = 0x06"
definition RetWrongProtocolVersion :: u8 where "RetWrongProtocolVersion = 0x07"
definition RetWrongInterfaceVersion :: u8 where "RetWrongInterfaceVersion = 0x08"
definition RetMalformedMessage :: u8 where "RetMalformedMessage = 0x09"
definition RetWrongMessageType :: u8 where "RetWrongMessageType = 0x0a"

lemmas ret_codes = RetOK_def RetNotOK_def RetUnknownMethod_def RetWrongInterfaceVersion_def

record message =
  ServiceID :: u16
  MethodID :: u16
  ClientID :: u16
  SessionID :: u16
  ProtocolVersion :: u8
  InterfaceVersion :: u8
  MessageType :: u8
  ReturnCode :: u8
  Payload :: "byte list"

definition zero_message :: message where
  "zero_message = \<lparr>ServiceID = 0, MethodID = 0, ClientID = 0, SessionID = 0, ProtocolVersion = 0,
     InterfaceVersion = 0, MessageType = 0, ReturnCode = 0, Payload = []\<rparr>"

text \<open>\<open>Validate\<close>: \<open>None\<close> is the nil error.\<close>

definition Validate :: "message \<Rightarrow> goerr option" where
  "Validate m =
     (if ProtocolVersion m \<noteq> SOMEIPProtocolVersion
      then Some (Errorf ''got, want'' ErrWrongProtocolVersion) else None)"

definition MessageType_String :: "u8 \<Rightarrow> string" where
  "MessageType_String mt =
     (if mt = MsgTypeRequest then ''request''
      else if mt = MsgTypeRequestNoReturn then ''request_no_return''
      else if mt = MsgTypeNotification then ''notification''
      else if mt = MsgTypeResponse then ''response''
      else if mt = MsgTypeError then ''error''
      else if mt = MsgTypeTPRequest then ''tp_request''
      else if mt = MsgTypeTPRequestNoReturn then ''tp_request_no_return''
      else if mt = MsgTypeTPNotification then ''tp_notification''
      else if mt = MsgTypeTPResponse then ''tp_response''
      else if mt = MsgTypeTPError then ''tp_error''
      else FormatUint (unat mt))"

text \<open>A user's \<open>MethodHandler\<close>: the response payload or an error.\<close>

type_synonym handler = "message \<Rightarrow> goerr + byte list"

lemma Validate_None_iff: "Validate m = None \<longleftrightarrow> ProtocolVersion m = 1"
  by (simp add: Validate_def SOMEIPProtocolVersion_def)

end
