(* ===== verification/TP.thy ===== *)
theory TP
  imports SomeIP
begin

text \<open>
  SOME/IP-TP: \<open>src/tp/tp.go\<close>. \<open>Segment\<close> cuts a message into segments, a \<open>Reassembler\<close> puts them
  together again. Times are nanoseconds; the clock reading of each call is an argument. The segments
  of a window are an association list in order of arrival; the order in which Go visits the map when
  it copies them out is an argument \<open>ord\<close>, of which the theorems assume only that it visits each
  entry once. The mutex makes each call one atomic step, so the state is passed from call to call.
\<close>

definition DefaultSegmentSize :: int where "DefaultSegmentSize = 1392"
definition DefaultReassemblyTimeout :: int where "DefaultReassemblyTimeout = 5 * 1000000000"
definition MaxReassembledSize :: int where "MaxReassembledSize = 64 * 2 ^ 20"
definition tpBit :: u8 where "tpBit = 0x20"
definition tpHeaderSize :: int where "tpHeaderSize = 4"

definition ErrSegmentTooLarge :: goerr where
  "ErrSegmentTooLarge = New ''tp: segment size must be at least 16 bytes''"
definition ErrMalformedSegment :: goerr where
  "ErrMalformedSegment = New ''tp: malformed TP segment''"
definition ErrReassemblyTimeout :: goerr where
  "ErrReassemblyTimeout = New ''tp: reassembly timeout''"

lemmas tp_consts = tpBit_def tpHeaderSize_def MaxReassembledSize_def

definition IsTP :: "message \<Rightarrow> bool" where
  "IsTP msg \<longleftrightarrow> MessageType msg AND tpBit \<noteq> 0"

definition BaseMessageType :: "u8 \<Rightarrow> u8" where
  "BaseMessageType mt = mt AND NOT tpBit"

section \<open>Segmentation\<close>

text \<open>The loop of \<open>Segment\<close>; \<^term>\<open>None\<close> stands for a panic or a loop that does not end.\<close>

partial_function (option) segment_loop :: "message \<Rightarrow> int \<Rightarrow> int \<Rightarrow> message list option" where
  "segment_loop msg segmentSize offset =
     (if offset < int (length (Payload msg)) then do {
        let end0 = offset + segmentSize;
        let has_more = (end0 < int (length (Payload msg)));
        let end1 = (if has_more then end0 else int (length (Payload msg)));
        chunk \<leftarrow> sub (Payload msg) offset end1;
        let offsetUnits = (word_of_int (offset div 16) :: u32);
        tpHdr \<leftarrow> put32 (replicate (nat tpHeaderSize) 0) 0 4 (push_bit 4 offsetUnits);
        tpHdr \<leftarrow> (if has_more then do { x \<leftarrow> idx tpHdr 3; upd tpHdr 3 (x OR 0x01) } else Some tpHdr);
        let segPayload = replicate (nat tpHeaderSize + length chunk) 0;
        segPayload \<leftarrow> copy_into segPayload 0 (int (length segPayload)) tpHdr;
        segPayload \<leftarrow> copy_into segPayload tpHeaderSize (int (length segPayload)) chunk;
        rest \<leftarrow> segment_loop msg segmentSize end1;
        Some (msg\<lparr>MessageType := MessageType msg OR tpBit, Payload := segPayload\<rparr> # rest)
      } else Some [])"

declare segment_loop.simps [code]

definition Segment :: "message \<Rightarrow> int \<Rightarrow> (goerr + message list) option" where
  "Segment msg segmentSize0 =
     (let segmentSize = (if segmentSize0 = 0 then DefaultSegmentSize else segmentSize0)
      in if segmentSize < 16 then Some (Inl ErrSegmentTooLarge)
         else if int (length (Payload msg)) \<le> segmentSize then Some (Inr [msg])
         else (let segmentSize = (if segmentSize mod 16 \<noteq> 0 then (segmentSize div 16) * 16 else segmentSize)
               in map_option Inr (segment_loop msg segmentSize 0)))"

section \<open>Reassembly\<close>

type_synonym assemblyKey = "u16 \<times> u16 \<times> u16"

record assemblyWindow =
  template :: message
  segments :: "(int \<times> byte list) list"
  totalSize :: int
  received :: int
  expires :: int

record Reassembler =
  timeout :: int
  windows :: "assemblyKey \<rightharpoonup> assemblyWindow"
  tombstones :: "assemblyKey \<rightharpoonup> int"
  done_closed :: bool

text \<open>\<open>time.NewTicker\<close> panics on a period that is not positive. Go's division truncates.\<close>

definition NewReassembler :: "int \<Rightarrow> int \<Rightarrow> Reassembler option" where
  "NewReassembler cfgTimeout cfgGCInterval =
     (let tmo = (if cfgTimeout = 0 then DefaultReassemblyTimeout else cfgTimeout);
          gcInterval = (if cfgGCInterval = 0 then sgn tmo * (\<bar>tmo\<bar> div 2) else cfgGCInterval)
      in if gcInterval \<le> 0 then None
         else Some \<lparr>timeout = tmo, windows = Map.empty, tombstones = Map.empty, done_closed = False\<rparr>)"

definition seg_key :: "message \<Rightarrow> assemblyKey" where
  "seg_key seg = (ServiceID seg, MethodID seg, SessionID seg)"

text \<open>Finding or opening the window of a key; an expired one leaves a tombstone.\<close>

definition open_window ::
  "Reassembler \<Rightarrow> int \<Rightarrow> assemblyKey \<Rightarrow> message \<Rightarrow> Reassembler \<times> (goerr + assemblyWindow)" where
  "open_window r now key seg =
     (case windows r key of
        None \<Rightarrow>
          (let fresh = \<lparr>template = seg, segments = [], totalSize = -1, received = 0, expires = now + timeout r\<rparr>
           in case tombstones r key of
                Some ex \<Rightarrow> if now < ex then (r, Inl ErrReassemblyTimeout)
                           else (r\<lparr>windows := (windows r)(key \<mapsto> fresh)\<rparr>, Inr fresh)
              | None \<Rightarrow> (r\<lparr>windows := (windows r)(key \<mapsto> fresh)\<rparr>, Inr fresh))
      | Some win \<Rightarrow>
          if now > expires win
          then (r\<lparr>tombstones := (tombstones r)(key \<mapsto> now + 2 * timeout r),
                  windows := (windows r)(key := None)\<rparr>, Inl ErrReassemblyTimeout)
          else (r, Inr win))"

definition store_chunk :: "assemblyWindow \<Rightarrow> int \<Rightarrow> byte list \<Rightarrow> bool \<Rightarrow> assemblyWindow" where
  "store_chunk win byteOffset chunk has_more =
     (let win = (case map_of (segments win) byteOffset of
                   Some _ \<Rightarrow> win
                 | None \<Rightarrow> win\<lparr>segments := segments win @ [(byteOffset, chunk)],
                               received := received win + int (length chunk)\<rparr>)
      in if \<not> has_more then win\<lparr>totalSize := byteOffset + int (length chunk)\<rparr> else win)"

fun copy_segments :: "(int \<times> byte list) list \<Rightarrow> int \<Rightarrow> byte list \<Rightarrow> byte list option" where
  "copy_segments [] tot payload = Some payload"
| "copy_segments ((off, dat) # rest) tot payload =
     (if off < 0 \<or> off \<ge> tot then copy_segments rest tot payload
      else do {
        let end0 = off + int (length dat);
        let end1 = (if end0 > tot then tot else end0);
        src \<leftarrow> sub dat 0 (end1 - off);
        payload \<leftarrow> copy_into payload off end1 src;
        copy_segments rest tot payload
      })"

definition Add ::
  "((int \<times> byte list) list \<Rightarrow> (int \<times> byte list) list) \<Rightarrow> Reassembler \<Rightarrow> int \<Rightarrow> message \<Rightarrow>
     (Reassembler \<times> (goerr + message option)) option" where
  "Add ord r now seg =
     (if \<not> IsTP seg then Some (r, Inr (Some seg))
      else if int (length (Payload seg)) < tpHeaderSize
      then Some (r, Inl (Errorf ''payload shorter than TP header'' ErrMalformedSegment))
      else do {
        tpWord \<leftarrow> Option.bind (sub (Payload seg) 0 tpHeaderSize) be32;
        let offsetUnits = drop_bit 4 tpWord;
        let has_more = (tpWord AND 0x01 \<noteq> 0);
        let byteOffset = uint offsetUnits * 16;
        chunk \<leftarrow> sub_from (Payload seg) tpHeaderSize;
        if byteOffset < 0 \<or> byteOffset > MaxReassembledSize
            \<or> byteOffset + int (length chunk) > MaxReassembledSize
        then Some (r, Inl (Errorf ''segment offset out of range'' ErrMalformedSegment))
        else (case open_window r now (seg_key seg) seg of
            (r, Inl e) \<Rightarrow> Some (r, Inl e)
          | (r, Inr win) \<Rightarrow>
              let win = store_chunk win byteOffset chunk has_more;
                  r = r\<lparr>windows := (windows r)(seg_key seg \<mapsto> win)\<rparr>
              in if totalSize win < 0 \<or> received win < totalSize win then Some (r, Inr None)
                 else do {
                   payload \<leftarrow> copy_segments (ord (segments win)) (totalSize win)
                     (replicate (nat (totalSize win)) 0);
                   Some (r\<lparr>windows := (windows r)(seg_key seg := None)\<rparr>,
                     Inr (Some ((template win)\<lparr>MessageType := BaseMessageType (MessageType (template win)),
                       Payload := payload\<rparr>)))
                 })
      })"

text \<open>\<open>Close\<close> closes the \<open>done\<close> channel, which panics the second time.\<close>

definition Close :: "Reassembler \<Rightarrow> Reassembler option" where
  "Close r = (if done_closed r then None
     else Some (r\<lparr>done_closed := True, windows := Map.empty, tombstones := Map.empty\<rparr>))"

text \<open>One tick of \<open>gcLoop\<close>: two loops over the maps, whose effect is the same in every order.\<close>

definition gc_windows :: "Reassembler \<Rightarrow> int \<Rightarrow> Reassembler" where
  "gc_windows r now =
     (let stale = (\<lambda>key. case windows r key of None \<Rightarrow> False | Some win \<Rightarrow> now > expires win)
      in r\<lparr>tombstones := (\<lambda>key. if stale key then Some (now + 2 * timeout r) else tombstones r key),
           windows := (\<lambda>key. if stale key then None else windows r key)\<rparr>)"

definition gc_tombstones :: "Reassembler \<Rightarrow> int \<Rightarrow> Reassembler" where
  "gc_tombstones r now =
     r\<lparr>tombstones := (\<lambda>key. case tombstones r key of
         None \<Rightarrow> None | Some ex \<Rightarrow> if now > ex then None else Some ex)\<rparr>"

definition gc_tick :: "Reassembler \<Rightarrow> int \<Rightarrow> Reassembler" where
  "gc_tick r now = gc_tombstones (gc_windows r now) now"

section \<open>The pieces of a payload\<close>

text \<open>The reference: the payload cut every \<open>s\<close> bytes, each piece with its offset.\<close>

function pieces :: "byte list \<Rightarrow> nat \<Rightarrow> nat \<Rightarrow> (nat \<times> byte list) list" where
  "pieces P s off =
     (if 0 < s \<and> off < length P then (off, take s (drop off P)) # pieces P s (off + s) else [])"
  by pat_completeness auto
termination
  by (relation "measure (\<lambda>(P, s, off). length P - off)") auto

declare pieces.simps [simp del]

definition tp_word :: "nat \<Rightarrow> bool \<Rightarrow> u32" where
  "tp_word off has_more = (push_bit 4 (word_of_nat (off div 16))) OR (if has_more then 1 else 0)"

definition segment_of :: "message \<Rightarrow> nat \<Rightarrow> nat \<times> byte list \<Rightarrow> message" where
  "segment_of msg s = (\<lambda>(off, d). msg\<lparr>MessageType := MessageType msg OR tpBit,
     Payload := bytes32 (tp_word off (off + s < length (Payload msg))) @ d\<rparr>)"

lemma pieces_Cons:
  "0 < s \<Longrightarrow> off < length P \<Longrightarrow> pieces P s off = (off, take s (drop off P)) # pieces P s (off + s)"
  by (simp add: pieces.simps)

lemma pieces_Nil: "length P \<le> off \<Longrightarrow> pieces P s off = []"
  by (simp add: pieces.simps)

lemma pieces_stop: "\<not> (0 < s \<and> off < length P) \<Longrightarrow> pieces P s off = []"
  by (subst pieces.simps) (simp only: if_False)

lemma pieces_mem:
  "(o', d) \<in> set (pieces P s off) \<Longrightarrow>
     off \<le> o' \<and> o' < length P \<and> d = take s (drop o' P) \<and> (s dvd off \<longrightarrow> s dvd o')"
proof (induction P s off rule: pieces.induct)
  case (1 P s off)
  show ?case
  proof (cases "0 < s \<and> off < length P")
    case True
    with "1.prems" consider "o' = off" "d = take s (drop off P)" | "(o', d) \<in> set (pieces P s (off + s))"
      by (auto simp: pieces_Cons)
    then show ?thesis
    proof cases
      case 2
      with "1.IH" [OF True] show ?thesis by auto
    qed (use True in simp)
  next
    case False
    from pieces_stop [OF this] "1.prems" show ?thesis by simp
  qed
qed

lemma pieces_distinct: "distinct (map fst (pieces P s off))"
proof (induction P s off rule: pieces.induct)
  case (1 P s off)
  show ?case
  proof (cases "0 < s \<and> off < length P")
    case True
    then have "off \<notin> fst ` set (pieces P s (off + s))"
      using pieces_mem [of _ _ P s "off + s"] by fastforce
    with pieces_Cons [of s off P] True "1.IH" [OF True] show ?thesis by simp
  next
    case False
    from pieces_stop [OF this] show ?thesis by simp
  qed
qed

lemma pieces_length:
  "0 < s \<Longrightarrow> sum_list (map (length \<circ> snd) (pieces P s off)) = length P - off"
proof (induction P s off rule: pieces.induct)
  case (1 P s off)
  show ?case
  proof (cases "off < length P")
    case True
    note eq = pieces_Cons [OF "1.prems" True]
    have "0 < s \<and> off < length P" using "1.prems" True by simp
    note IH = "1.IH" [OF this "1.prems"]
    show ?thesis unfolding eq using True IH by (simp add: min_def)
  qed (simp add: pieces_Nil)
qed

lemma pieces_concat: "0 < s \<Longrightarrow> concat (map snd (pieces P s off)) = drop off P"
proof (induction P s off rule: pieces.induct)
  case (1 P s off)
  show ?case
  proof (cases "off < length P")
    case True
    note eq = pieces_Cons [OF "1.prems" True]
    have "0 < s \<and> off < length P" using "1.prems" True by simp
    note IH = "1.IH" [OF this "1.prems"]
    have "take s (drop off P) @ drop (off + s) P = drop off P"
      by (metis append_take_drop_id drop_drop add.commute)
    then show ?thesis unfolding eq using IH by simp
  qed (simp add: pieces_Nil)
qed

lemma pieces_cover:
  "0 < s \<Longrightarrow> off \<le> j \<Longrightarrow> j < length P \<Longrightarrow> \<exists>(o', d) \<in> set (pieces P s off). o' \<le> j \<and> j < o' + length d"
proof (induction P s off rule: pieces.induct)
  case (1 P s off)
  then have lt: "off < length P" by simp
  note eq = pieces_Cons [OF "1.prems"(1) lt]
  show ?case
  proof (cases "j < off + s")
    case True
    with "1.prems" have "off \<le> j \<and> j < off + length (take s (drop off P))" by auto
    then show ?thesis unfolding eq by auto
  next
    case False
    have "\<exists>(o', d) \<in> set (pieces P s (off + s)). o' \<le> j \<and> j < o' + length d"
      using "1.prems" lt False by (intro "1.IH") simp_all
    then show ?thesis unfolding eq by simp
  qed
qed

lemma pieces_last:
  "0 < s \<Longrightarrow> off < length P \<Longrightarrow> \<exists>o' d. (o', d) \<in> set (pieces P s off) \<and> length P \<le> o' + s"
proof (induction P s off rule: pieces.induct)
  case (1 P s off)
  note eq = pieces_Cons [OF "1.prems"]
  show ?case
  proof (cases "off + s < length P")
    case True
    have "\<exists>o' d. (o', d) \<in> set (pieces P s (off + s)) \<and> length P \<le> o' + s"
      using "1.prems" True by (intro "1.IH") simp_all
    then show ?thesis unfolding eq by auto
  next
    case False
    then show ?thesis unfolding eq by auto
  qed
qed

lemma take_drop_length: "o' < length P \<Longrightarrow> length P \<le> o' + s \<Longrightarrow> o' + length (take s (drop o' P)) = length P"
  by simp

section \<open>Segmentation produces the pieces\<close>

lemma bytes32_or_1:
  "bytes32 (w OR 1) = [ucast (drop_bit 24 w), ucast (drop_bit 16 w), ucast (drop_bit 8 w), ucast w OR 1]"
  unfolding bytes32_def
  by (auto simp: bit_simps intro!: bit_word_eqI)

text \<open>The header of a segment, as the loop builds it.\<close>

lemma tp_header:
  "Option.bind (put32 (replicate (nat tpHeaderSize) 0) 0 4 w)
     (\<lambda>h. if b then Option.bind (idx h 3) (\<lambda>x. upd h 3 (x OR 0x01)) else Some h)
   = Some (bytes32 (w OR (if b then 1 else 0)))"
  by (simp add: put32_def copy_into_def tpHeaderSize_def idx_def upd_def bytes32_or_1)
    (simp add: bytes32_def)

lemma segment_payload:
  "length h = 4 \<Longrightarrow>
   Option.bind (copy_into (replicate (nat tpHeaderSize + length c) 0) 0
       (int (length (replicate (nat tpHeaderSize + length c) (0 :: byte)))) h)
     (\<lambda>p. copy_into p tpHeaderSize (int (length p)) c) = Some (h @ c)"
  by (simp add: copy_into_def tpHeaderSize_def Let_def nat_add_distrib)

lemma segment_loop_eq:
  assumes "0 < s"
  shows "segment_loop msg (int s) (int off) =
     Some (map (segment_of msg s) (pieces (Payload msg) s off))"
proof (induction "length (Payload msg) - off" arbitrary: off rule: less_induct)
  case (less off)
  let ?P = "Payload msg" and ?b = "off + s < length (Payload msg)"
  let ?e = "if ?b then int (off + s) else int (length ?P)"
  let ?c = "take s (drop off ?P)"
  let ?w = "push_bit 4 (word_of_int (int off div 16)) :: u32"
  let ?h = "bytes32 (tp_word off ?b)"
  show ?case
  proof (cases "off < length ?P")
    case False
    then show ?thesis by (simp add: segment_loop.simps pieces_Nil)
  next
    case True
    have chunk: "sub ?P (int off) ?e = Some ?c"
      using True by (auto simp: sub_def nat_diff_distrib nat_add_distrib)
    have w: "?w OR (if ?b then 1 else 0) = tp_word off ?b"
    proof -
      have "int off div 16 = int (off div 16)" by (simp add: zdiv_int)
      then show ?thesis by (simp only: tp_word_def of_int_of_nat_eq)
    qed
    have rest: "segment_loop msg (int s) ?e = Some (map (segment_of msg s) (pieces ?P s (off + s)))"
    proof (cases ?b)
      case True
      then have "segment_loop msg (int s) (int (off + s)) = Some (map (segment_of msg s) (pieces ?P s (off + s)))"
        using assms \<open>off < length ?P\<close> by (intro less) simp
      with True show ?thesis by (simp only: if_True)
    next
      case False
      then show ?thesis by (simp add: segment_loop.simps pieces_Nil)
    qed
    have step: "segment_loop msg (int s) (int off) = do {
        tpHdr \<leftarrow> Option.bind (put32 (replicate (nat tpHeaderSize) 0) 0 4 ?w)
          (\<lambda>h. if ?b then Option.bind (idx h 3) (\<lambda>x. upd h 3 (x OR 0x01)) else Some h);
        p \<leftarrow> Option.bind (copy_into (replicate (nat tpHeaderSize + length ?c) 0) 0
            (int (length (replicate (nat tpHeaderSize + length ?c) (0 :: byte)))) tpHdr)
          (\<lambda>p. copy_into p tpHeaderSize (int (length p)) ?c);
        rest \<leftarrow> segment_loop msg (int s) ?e;
        Some (msg\<lparr>MessageType := MessageType msg OR tpBit, Payload := p\<rparr> # rest) }"
    proof (cases ?b)
      case b: True
      with chunk have "sub ?P (int off) (int off + int s) = Some ?c" by simp
      with b True show ?thesis by (subst segment_loop.simps) (simp add: Let_def)
    next
      case b: False
      with chunk have "sub ?P (int off) (int (length ?P)) = Some ?c" by simp
      with b True show ?thesis by (subst segment_loop.simps) (simp add: Let_def add_diff_eq)
    qed
    show ?thesis
      unfolding step tp_header w rest Option.bind.simps segment_payload [OF length_bytes32]
      using assms True by (simp add: pieces_Cons segment_of_def)
  qed
qed

text \<open>The effective segment size: the default for 0, rounded down to a multiple of 16.\<close>

definition seg_size :: "int \<Rightarrow> nat" where
  "seg_size n = nat ((if n = 0 then DefaultSegmentSize else n) div 16 * 16)"

lemma seg_size_pos: "n = 0 \<or> 16 \<le> n \<Longrightarrow> 16 \<le> seg_size n \<and> 16 dvd seg_size n"
proof -
  assume a: "n = 0 \<or> 16 \<le> n"
  let ?k = "(if n = 0 then DefaultSegmentSize else n) div 16"
  have "1 \<le> ?k" using a by (auto simp: DefaultSegmentSize_def)
  moreover have "seg_size n = 16 * nat ?k"
    using \<open>1 \<le> ?k\<close> by (simp add: seg_size_def nat_mult_distrib)
  ultimately show ?thesis by simp
qed

lemma Segment_eq:
  "Segment msg n = Some
     (if n \<noteq> 0 \<and> n < 16 then Inl ErrSegmentTooLarge
      else if int (length (Payload msg)) \<le> (if n = 0 then DefaultSegmentSize else n) then Inr [msg]
      else Inr (map (segment_of msg (seg_size n)) (pieces (Payload msg) (seg_size n) 0)))"
proof (cases "n \<noteq> 0 \<and> n < 16")
  case False
  then have ok: "n = 0 \<or> 16 \<le> n" by auto
  let ?m = "if n = 0 then DefaultSegmentSize else n"
  have ge: "16 \<le> ?m" using ok by (auto simp: DefaultSegmentSize_def)
  have "(if ?m mod 16 \<noteq> 0 then ?m div 16 * 16 else ?m) = int (seg_size n)"
    using ge by (auto simp: seg_size_def minus_mod_eq_div_mult [symmetric])
  moreover have "segment_loop msg (int (seg_size n)) 0 =
      Some (map (segment_of msg (seg_size n)) (pieces (Payload msg) (seg_size n) 0))"
    using segment_loop_eq [of "seg_size n" msg 0] seg_size_pos [OF ok] by simp
  ultimately show ?thesis
    using False ge unfolding Segment_def Let_def by auto
qed (auto simp: Segment_def)

section \<open>Reading a segment back\<close>

lemma tp_word_offset:
  assumes "off < 2 ^ 32"
  shows "uint (drop_bit 4 (tp_word off b)) * 16 = int (off div 16 * 16)"
proof -
  let ?u = "word_of_nat (off div 16) :: u32"
  have lt: "off div 16 < 2 ^ 28" using assms by simp
  have "drop_bit 4 (tp_word off b) = take_bit 28 ?u"
  proof (rule bit_word_eqI)
    fix n
    show "bit (drop_bit 4 (tp_word off b)) n \<longleftrightarrow> bit (take_bit 28 ?u) n"
      by (cases "n < 28") (auto simp: tp_word_def bit_simps)
  qed
  also have "uint (take_bit 28 ?u) = int (off div 16)"
    using lt by (simp add: unsigned_take_bit_eq unsigned_of_nat take_bit_nat_eq_self take_bit_int_eq_self)
  finally show ?thesis by simp
qed

lemma tp_word_more: "tp_word off b AND 1 \<noteq> 0 \<longleftrightarrow> b"
proof -
  have "bit (tp_word off b) 0 \<longleftrightarrow> b" by (simp add: tp_word_def bit_simps)
  then show ?thesis by (simp add: and_one_eq bit_0 odd_iff_mod_2_eq_one)
qed

lemma IsTP_segment [simp]: "IsTP (segment_of msg s x)"
proof -
  have "bit ((mt OR tpBit) AND tpBit) 5" for mt :: u8
    by (simp add: tpBit_def bit_simps)
  then have "(mt OR tpBit) AND tpBit \<noteq> 0" for mt :: u8
    by (metis bit_0_eq bot_apply bot_bool_def)
  then show ?thesis by (simp add: IsTP_def segment_of_def split: prod.split)
qed

lemma BaseMessageType_or: "\<not> IsTP msg \<Longrightarrow> BaseMessageType (MessageType msg OR tpBit) = MessageType msg"
proof -
  assume "\<not> IsTP msg"
  then have z: "MessageType msg AND tpBit = 0" by (simp add: IsTP_def)
  have "(MessageType msg OR tpBit) AND NOT tpBit = MessageType msg AND NOT tpBit"
    by (rule bit_word_eqI) (auto simp: bit_simps)
  also have "\<dots> = MessageType msg"
    using z by (metis and.right_neutral bit.compl_zero bit.conj_disj_distrib bit.disj_cancel_right or.left_neutral)
  finally show ?thesis by (simp add: BaseMessageType_def)
qed

lemma seg_key_segment [simp]: "seg_key (segment_of msg s x) = seg_key msg"
  by (simp add: seg_key_def segment_of_def split: prod.split)

text \<open>\<open>Add\<close> on the segment of a piece: the header is read back and the piece is stored.\<close>

definition finish :: "((int \<times> byte list) list \<Rightarrow> (int \<times> byte list) list) \<Rightarrow> Reassembler \<Rightarrow>
    assemblyKey \<Rightarrow> assemblyWindow \<Rightarrow> (Reassembler \<times> (goerr + message option)) option" where
  "finish ord r key win =
     (if totalSize win < 0 \<or> received win < totalSize win
      then Some (r\<lparr>windows := (windows r)(key \<mapsto> win)\<rparr>, Inr None)
      else map_option (\<lambda>payload. (r\<lparr>windows := (windows r)(key := None)\<rparr>,
             Inr (Some ((template win)\<lparr>MessageType := BaseMessageType (MessageType (template win)),
               Payload := payload\<rparr>))))
           (copy_segments (ord (segments win)) (totalSize win) (replicate (nat (totalSize win)) 0)))"

definition tp_offset :: "message \<Rightarrow> int" where
  "tp_offset seg = uint (drop_bit 4 (the (be32 (take 4 (Payload seg))))) * 16"

definition tp_more :: "message \<Rightarrow> bool" where
  "tp_more seg \<longleftrightarrow> the (be32 (take 4 (Payload seg))) AND 1 \<noteq> 0"

lemma Add_eq:
  "Add ord r now seg =
     (if \<not> IsTP seg then Some (r, Inr (Some seg))
      else if length (Payload seg) < 4
      then Some (r, Inl (Errorf ''payload shorter than TP header'' ErrMalformedSegment))
      else if tp_offset seg + int (length (Payload seg) - 4) > MaxReassembledSize
      then Some (r, Inl (Errorf ''segment offset out of range'' ErrMalformedSegment))
      else (case open_window r now (seg_key seg) seg of
          (r, Inl e) \<Rightarrow> Some (r, Inl e)
        | (r, Inr win) \<Rightarrow> finish ord r (seg_key seg)
            (store_chunk win (tp_offset seg) (drop 4 (Payload seg)) (tp_more seg))))"
proof (cases "IsTP seg \<and> 4 \<le> length (Payload seg)")
  case True
  then obtain w where w: "be32 (take 4 (Payload seg)) = Some w"
    using be32_Some [of "take 4 (Payload seg)"] by auto
  have nonneg: "0 \<le> uint (drop_bit 4 w) * 16" by simp
  show ?thesis
    using True w nonneg
    by (simp add: Add_def tpHeaderSize_def sub_def sub_from_def tp_offset_def tp_more_def
        finish_def map_option_case Let_def split: prod.split sum.split option.split)
qed (auto simp: Add_def tpHeaderSize_def)

lemma segment_of_read:
  assumes "off < 2 ^ 32" and "16 dvd off"
  shows "tp_offset (segment_of msg s (off, d)) = int off"
    and "tp_more (segment_of msg s (off, d)) \<longleftrightarrow> off + s < length (Payload msg)"
    and "drop 4 (Payload (segment_of msg s (off, d))) = d"
    and "length (Payload (segment_of msg s (off, d))) = 4 + length d"
  using tp_word_offset [OF assms(1)] tp_word_more assms(2)
  by (simp_all add: tp_offset_def tp_more_def segment_of_def)

section \<open>Copying the chunks out\<close>

text \<open>Copying chunks that agree with a payload, in any order and however often, reproduces it
  wherever some chunk covers it.\<close>

definition agrees :: "byte list \<Rightarrow> int \<times> byte list \<Rightarrow> bool" where
  "agrees P = (\<lambda>(off, d). 0 \<le> off \<and> off + int (length d) \<le> int (length P)
     \<and> (\<forall>j < length d. d ! j = P ! (nat off + j)))"

definition covers :: "int \<times> byte list \<Rightarrow> nat \<Rightarrow> bool" where
  "covers = (\<lambda>(off, d) j. off \<le> int j \<and> int j < off + int (length d))"

lemma copy_one:
  assumes "agrees P (off, d)" and "length buf = length P"
  shows "\<exists>buf'. copy_into buf off (off + int (length d)) d = Some buf' \<and> length buf' = length P \<and>
    (\<forall>j < length P. buf' ! j = (if covers (off, d) j then P ! j else buf ! j))"
proof -
  obtain k where k: "off = int k"
    using assms(1) by (auto simp: agrees_def intro: that [of "nat off"])
  have le: "k + length d \<le> length P" using assms(1) by (simp add: agrees_def k)
  define buf' where "buf' = take k buf @ d @ drop (k + length d) buf"
  have "copy_into buf off (off + int (length d)) d = Some buf'"
    using le assms(2) by (simp add: copy_into_def k buf'_def)
  moreover have "length buf' = length P" using le assms(2) by (simp add: buf'_def)
  moreover have "buf' ! j = (if covers (off, d) j then P ! j else buf ! j)" if "j < length P" for j
  proof -
    consider "j < k" | "k \<le> j" "j < k + length d" | "k + length d \<le> j" by linarith
    then show ?thesis
    proof cases
      case 2
      then have "d ! (j - k) = P ! j" using assms(1) by (auto simp: agrees_def k)
      moreover have "j - k < length d" using 2 by linarith
      ultimately show ?thesis using 2 le assms(2) by (simp add: buf'_def covers_def k nth_append)
    qed (use le assms(2) that in \<open>auto simp: buf'_def covers_def k nth_append\<close>)
  qed
  ultimately show ?thesis by blast
qed

lemma copy_agree:
  "\<forall>x \<in> set xs. agrees P x \<Longrightarrow> length buf = length P \<Longrightarrow>
   \<exists>buf'. copy_segments xs (int (length P)) buf = Some buf' \<and> length buf' = length P \<and>
     (\<forall>j < length P. buf' ! j = (if \<exists>x \<in> set xs. covers x j then P ! j else buf ! j))"
proof (induction xs arbitrary: buf)
  case (Cons x xs)
  obtain off d where x: "x = (off, d)" by (cases x)
  from Cons.prems have ag: "agrees P (off, d)" by (simp add: x)
  then have b: "0 \<le> off" "off + int (length d) \<le> int (length P)" by (auto simp: agrees_def)
  show ?case
  proof (cases "off \<ge> int (length P)")
    case True
    with b have "d = []" by (cases d) auto
    then have "\<not> covers x j" for j by (simp add: x covers_def)
    with Cons.IH [of buf] Cons.prems True show ?thesis by (simp add: x)
  next
    case False
    obtain b1 where b1: "copy_into buf off (off + int (length d)) d = Some b1" "length b1 = length P"
      "\<forall>j < length P. b1 ! j = (if covers (off, d) j then P ! j else buf ! j)"
      using copy_one [OF ag Cons.prems(2)] by auto
    obtain b2 where b2: "copy_segments xs (int (length P)) b1 = Some b2" "length b2 = length P"
      "\<forall>j < length P. b2 ! j = (if \<exists>x \<in> set xs. covers x j then P ! j else b1 ! j)"
      using Cons.IH [of b1] Cons.prems(1) b1(2) by auto
    have "copy_segments (x # xs) (int (length P)) buf = Some b2"
      using False b b1(1) b2(1) by (simp add: x sub_def Let_def)
    with b2 b1(3) show ?thesis by (auto simp: x)
  qed
qed auto

text \<open>\<open>copy_segments\<close> never panics: the chunks are clamped to the destination.\<close>

lemma copy_segments_defined:
  "int (length buf) = tot \<Longrightarrow> \<exists>buf'. copy_segments xs tot buf = Some buf' \<and> int (length buf') = tot"
proof (induction xs arbitrary: buf)
  case (Cons x xs)
  obtain off d where x: "x = (off, d)" by (cases x)
  show ?case
  proof (cases "off < 0 \<or> off \<ge> tot")
    case False
    let ?e = "if off + int (length d) > tot then tot else off + int (length d)"
    have "sub d 0 (?e - off) = Some (take (nat (?e - off)) d)"
      using False by (simp add: sub_def)
    moreover obtain b1 where b1: "copy_into buf off ?e (take (nat (?e - off)) d) = Some b1"
      using copy_into_Some [of off ?e buf] False Cons.prems by auto
    moreover have "int (length b1) = tot" using length_copy_into [OF b1] Cons.prems by simp
    ultimately show ?thesis using Cons.IH [of b1] False by (simp add: x Let_def)
  qed (use Cons in \<open>auto simp: x\<close>)
qed simp

lemma Add_defined: "Add ord r now seg \<noteq> None"
proof -
  have "finish ord r' k w \<noteq> None" for r' k w
    using copy_segments_defined [of "replicate (nat (totalSize w)) 0" "totalSize w" "ord (segments w)"]
    by (auto simp: finish_def)
  then show ?thesis
    by (auto simp: Add_eq split: prod.split sum.split)
qed

section \<open>A window that collects the segments of one message\<close>

definition ipiece :: "nat \<times> byte list \<Rightarrow> int \<times> byte list" where
  "ipiece = (\<lambda>(off, d). (int off, d))"

definition collecting :: "message \<Rightarrow> nat \<Rightarrow> (nat \<times> byte list) set \<Rightarrow> assemblyWindow \<Rightarrow> bool" where
  "collecting msg s W win \<longleftrightarrow>
     W \<subseteq> set (pieces (Payload msg) s 0) \<and>
     set (segments win) = ipiece ` W \<and> distinct (map fst (segments win)) \<and>
     received win = (\<Sum>x \<leftarrow> segments win. int (length (snd x))) \<and>
     totalSize win = (if \<exists>(off, d) \<in> W. length (Payload msg) \<le> off + s then int (length (Payload msg)) else -1) \<and>
     (\<exists>x. template win = segment_of msg s x)"

lemma inj_ipiece: "inj ipiece"
  by (auto simp: inj_def ipiece_def)

lemma received_sum:
  assumes "collecting msg s W win"
  shows "received win = int (\<Sum>x \<in> W. length (snd x))"
proof -
  from assms have d: "distinct (segments win)" and st: "set (segments win) = ipiece ` W"
    and rc: "received win = (\<Sum>x \<leftarrow> segments win. int (length (snd x)))"
    by (auto simp: collecting_def distinct_map)
  have "received win = (\<Sum>x \<in> ipiece ` W. int (length (snd x)))"
    using d by (simp add: rc sum_list_distinct_conv_sum_set st)
  also have "\<dots> = (\<Sum>x \<in> W. int (length (snd (ipiece x))))"
    by (subst sum.reindex) (auto intro: inj_on_subset [OF inj_ipiece])
  also have "\<dots> = int (\<Sum>x \<in> W. length (snd x))"
    by (simp add: ipiece_def split_beta)
  finally show ?thesis .
qed

lemma pieces_sum: "0 < s \<Longrightarrow> (\<Sum>x \<in> set (pieces P s 0). length (snd x)) = length P"
proof -
  assume "0 < s"
  have "distinct (pieces P s 0)" using pieces_distinct [of P s 0] by (simp add: distinct_map)
  then have "(\<Sum>x \<leftarrow> pieces P s 0. length (snd x)) = (\<Sum>x \<in> set (pieces P s 0). length (snd x))"
    by (rule sum_list_distinct_conv_sum_set)
  with pieces_length [OF \<open>0 < s\<close>, of P 0] show ?thesis by (simp add: comp_def)
qed

lemma collecting_store:
  assumes win: "collecting msg s W win" and x: "(off, d) \<in> set (pieces (Payload msg) s 0)"
  shows "collecting msg s (insert (off, d) W)
    (store_chunk win (int off) d (off + s < length (Payload msg)))"
proof -
  let ?P = "Payload msg"
  have st: "set (segments win) = ipiece ` W" and ds: "distinct (map fst (segments win))"
    and sub: "W \<subseteq> set (pieces ?P s 0)"
    using win by (auto simp: collecting_def)
  have uniq: "d' = d" if "(off, d') \<in> W" for d'
    using pieces_mem [OF x] pieces_mem [of off d' ?P s 0] that sub by blast
  have len: "int off + int (length d) = int (length ?P)" if "length ?P \<le> off + s"
    using pieces_mem [OF x] that by simp
  have mem: "map_of (segments win) (int off) \<noteq> None \<longleftrightarrow> (off, d) \<in> W"
  proof
    assume "map_of (segments win) (int off) \<noteq> None"
    then obtain d' where "(int off, d') \<in> set (segments win)"
      by (auto dest: map_of_SomeD)
    then have "(off, d') \<in> W" by (auto simp: st ipiece_def)
    with uniq show "(off, d) \<in> W" by blast
  next
    assume "(off, d) \<in> W"
    then have "(int off, d) \<in> set (segments win)" by (auto simp: st ipiece_def)
    then show "map_of (segments win) (int off) \<noteq> None" by (metis weak_map_of_SomeI option.distinct(1))
  qed
  show ?thesis
  proof (cases "(off, d) \<in> W")
    case True
    with mem obtain y where y: "map_of (segments win) (int off) = Some y" by auto
    have tot: "totalSize win = int (length ?P)" if "length ?P \<le> off + s"
      using win True that by (auto simp: collecting_def)
    have "store_chunk win (int off) d (off + s < length ?P) = win"
      using y tot len by (auto simp: store_chunk_def Let_def)
    with True win show ?thesis by (simp add: insert_absorb)
  next
    case False
    with mem have none: "map_of (segments win) (int off) = None" by blast
    then have "int off \<notin> fst ` set (segments win)" by (simp add: map_of_eq_None_iff)
    with none win x len show ?thesis
      by (auto simp: collecting_def store_chunk_def ipiece_def Let_def)
  qed
qed

lemma collecting_complete_iff:
  assumes win: "collecting msg s W win" and s: "0 < s" and P: "Payload msg \<noteq> []"
  shows "(totalSize win < 0 \<or> received win < totalSize win) \<longleftrightarrow> W \<noteq> set (pieces (Payload msg) s 0)"
proof -
  let ?P = "Payload msg" and ?C = "set (pieces (Payload msg) s 0)"
  have sub: "W \<subseteq> ?C" using win by (simp add: collecting_def)
  have pos: "0 < length (snd x)" if "x \<in> ?C" for x
    using that pieces_mem [of "fst x" "snd x" ?P s 0] s by (cases x) auto
  show ?thesis
  proof (cases "W = ?C")
    case True
    obtain off d where "(off, d) \<in> ?C" "length ?P \<le> off + s"
      using pieces_last [OF s, of 0 ?P] P by auto
    then have "totalSize win = int (length ?P)" using win True by (auto simp: collecting_def)
    with True received_sum [OF win] pieces_sum [OF s, of ?P] show ?thesis by simp
  next
    case False
    then obtain y where y: "y \<in> ?C" "y \<notin> W" using sub by blast
    have "(\<Sum>x \<in> W. length (snd x)) < (\<Sum>x \<in> ?C. length (snd x))"
      using sub y pos by (intro sum_strict_mono2 [of _ _ y]) auto
    then have "(\<Sum>x \<in> W. length (snd x)) < length ?P" by (simp only: pieces_sum [OF s])
    then have "received win < int (length ?P)" by (simp only: received_sum [OF win] of_nat_less_iff)
    moreover have "totalSize win = int (length ?P) \<or> totalSize win = -1"
      using win by (auto simp: collecting_def)
    ultimately show ?thesis using False by auto
  qed
qed

lemma collecting_copies:
  assumes win: "collecting msg s (set (pieces (Payload msg) s 0)) win" and s: "0 < s" and P: "Payload msg \<noteq> []"
    and ord: "set (ord (segments win)) = set (segments win)"
  shows "copy_segments (ord (segments win)) (totalSize win) (replicate (nat (totalSize win)) 0) = Some (Payload msg)"
proof -
  let ?P = "Payload msg" and ?C = "set (pieces (Payload msg) s 0)"
  have st: "set (ord (segments win)) = ipiece ` ?C" using win ord by (simp add: collecting_def)
  have "agrees ?P (ipiece (off, d))" if "(off, d) \<in> ?C" for off d
    using pieces_mem [OF that] by (auto simp: agrees_def ipiece_def)
  then have ag: "\<forall>x \<in> set (ord (segments win)). agrees ?P x" by (force simp: st)
  obtain off d where "(off, d) \<in> ?C" "length ?P \<le> off + s"
    using pieces_last [OF s, of 0 ?P] P by auto
  then have tot: "totalSize win = int (length ?P)" using win by (auto simp: collecting_def)
  have cov: "\<exists>x \<in> set (ord (segments win)). covers x j" if "j < length ?P" for j
  proof -
    obtain a b where "(a, b) \<in> ?C" and "a \<le> j" "j < a + length b"
      using pieces_cover [of s 0 j ?P] s \<open>j < length ?P\<close> by fastforce
    then have "ipiece (a, b) \<in> ipiece ` ?C" and "covers (ipiece (a, b)) j"
      by (auto simp: covers_def ipiece_def)
    then show ?thesis unfolding st by blast
  qed
  obtain buf where "copy_segments (ord (segments win)) (int (length ?P)) (replicate (length ?P) 0) = Some buf"
    "length buf = length ?P" "\<forall>j < length ?P. buf ! j = ?P ! j"
    using copy_agree [OF ag, of "replicate (length ?P) 0"] cov by auto
  then show ?thesis by (simp add: tot nth_equalityI)
qed

section \<open>A whole arrival\<close>

text \<open>Feeding a sequence of timed segments to one reassembler.\<close>

fun add_all :: "((int \<times> byte list) list \<Rightarrow> (int \<times> byte list) list) \<Rightarrow> Reassembler \<Rightarrow>
    (int \<times> message) list \<Rightarrow> (Reassembler \<times> (goerr + message option) list) option" where
  "add_all ord r [] = Some (r, [])"
| "add_all ord r ((now, seg) # rest) = do {
     (r, x) \<leftarrow> Add ord r now seg;
     (r, xs) \<leftarrow> add_all ord r rest;
     Some (r, x # xs)
   }"

text \<open>One arrival: what \<open>Add\<close> does to a window that is collecting the message.\<close>

lemma Add_segment:
  assumes x: "x \<in> set (pieces (Payload msg) s 0)"
    and s: "0 < s" "16 dvd s" and small: "int (length (Payload msg)) \<le> MaxReassembledSize"
  shows "Add ord r now (segment_of msg s x) =
    (case open_window r now (seg_key msg) (segment_of msg s x) of
       (r, Inl e) \<Rightarrow> Some (r, Inl e)
     | (r, Inr win) \<Rightarrow> finish ord r (seg_key msg)
         (store_chunk win (int (fst x)) (snd x) (fst x + s < length (Payload msg))))"
proof -
  obtain off d where xd: "x = (off, d)" by (cases x)
  note m = pieces_mem [OF x [unfolded xd]]
  have "off < 2 ^ 32" using m small by (simp add: MaxReassembledSize_def)
  moreover have "16 dvd off" using m s(2) by (meson dvd_0_right dvd_trans)
  ultimately have rd: "tp_offset (segment_of msg s (off, d)) = int off"
    "tp_more (segment_of msg s (off, d)) \<longleftrightarrow> off + s < length (Payload msg)"
    "drop 4 (Payload (segment_of msg s (off, d))) = d"
    "length (Payload (segment_of msg s (off, d))) = 4 + length d"
    by (rule segment_of_read)+
  have "int off + int (length d) \<le> MaxReassembledSize"
    using m small by auto
  then show ?thesis unfolding xd fst_conv snd_conv by (simp add: Add_eq rd)
qed

lemma finish_collecting:
  assumes win: "collecting msg s W win" and s: "0 < s" and P: "Payload msg \<noteq> []"
    and ord: "\<And>xs. mset (ord xs) = mset xs" and plain: "\<not> IsTP msg"
  shows "finish ord r key win =
    (if W = set (pieces (Payload msg) s 0)
     then Some (r\<lparr>windows := (windows r)(key := None)\<rparr>, Inr (Some msg))
     else Some (r\<lparr>windows := (windows r)(key \<mapsto> win)\<rparr>, Inr None))"
proof (cases "W = set (pieces (Payload msg) s 0)")
  case True
  have set_ord: "set (ord (segments win)) = set (segments win)"
    using ord by (metis set_mset_mset)
  obtain x where t: "template win = segment_of msg s x"
    using win by (auto simp: collecting_def)
  have "(template win)\<lparr>MessageType := BaseMessageType (MessageType (template win)), Payload := Payload msg\<rparr> = msg"
    using BaseMessageType_or [OF plain] by (simp add: t segment_of_def split: prod.split)
  with True collecting_copies [where ord = ord, OF win [unfolded True] s P set_ord] collecting_complete_iff [OF win s P]
  show ?thesis by (simp add: finish_def)
next
  case False
  with collecting_complete_iff [OF win s P] show ?thesis by (simp add: finish_def)
qed

lemma collecting_fresh:
  "collecting msg s {} \<lparr>template = segment_of msg s x, segments = [], totalSize = -1, received = 0, expires = e\<rparr>"
  by (cases x) (auto simp: collecting_def)

lemma store_chunk_expires [simp]: "expires (store_chunk win off d b) = expires win"
  by (simp add: store_chunk_def Let_def split: option.split)

text \<open>The parameters every lemma below shares: a plain message, its segment size, the visiting order.\<close>

definition reassemblable :: "message \<Rightarrow> nat \<Rightarrow> bool" where
  "reassemblable msg s \<longleftrightarrow> 0 < s \<and> 16 dvd s \<and> \<not> IsTP msg \<and> Payload msg \<noteq> [] \<and>
     int (length (Payload msg)) \<le> MaxReassembledSize"

lemma Add_open:
  assumes m: "reassemblable msg s" and ord: "\<And>xs. mset (ord xs) = mset xs"
    and x: "x \<in> set (pieces (Payload msg) s 0)"
    and op: "open_window r now (seg_key msg) (segment_of msg s x) = (r', Inr win)"
    and win: "collecting msg s W win"
  shows "Add ord r now (segment_of msg s x) =
    (if insert x W = set (pieces (Payload msg) s 0)
     then Some (r'\<lparr>windows := (windows r')(seg_key msg := None)\<rparr>, Inr (Some msg))
     else Some (r'\<lparr>windows := (windows r')(seg_key msg \<mapsto>
            store_chunk win (int (fst x)) (snd x) (fst x + s < length (Payload msg)))\<rparr>, Inr None))"
proof -
  have "collecting msg s (insert x W)
      (store_chunk win (int (fst x)) (snd x) (fst x + s < length (Payload msg)))"
    using collecting_store [OF win, of "fst x" "snd x"] x by simp
  from finish_collecting [OF this _ _ ord] Add_segment [OF x] m op
  show ?thesis by (simp add: reassemblable_def)
qed

lemma add_all_collecting:
  assumes m: "reassemblable msg s" and ord: "\<And>xs. mset (ord xs) = mset xs"
  shows "windows r (seg_key msg) = Some win \<Longrightarrow> collecting msg s W win \<Longrightarrow>
    \<forall>(t, x) \<in> set arr. t \<le> expires win \<Longrightarrow> arr \<noteq> [] \<Longrightarrow>
    W \<union> snd ` set arr = set (pieces (Payload msg) s 0) \<Longrightarrow>
    W \<union> snd ` set (butlast arr) \<noteq> set (pieces (Payload msg) s 0) \<Longrightarrow>
    add_all ord r (map (\<lambda>(t, x). (t, segment_of msg s x)) arr) =
      Some (r\<lparr>windows := (windows r)(seg_key msg := None)\<rparr>,
        replicate (length arr - 1) (Inr None) @ [Inr (Some msg)])"
proof (induction arr arbitrary: r win W)
  case (Cons a arr)
  obtain t x where a: "a = (t, x)" by (cases a)
  let ?C = "set (pieces (Payload msg) s 0)"
  let ?win = "store_chunk win (int (fst x)) (snd x) (fst x + s < length (Payload msg))"
  have x: "x \<in> ?C" using Cons.prems(5) by (auto simp: a)
  have op: "open_window r t (seg_key msg) (segment_of msg s x) = (r, Inr win)"
    using Cons.prems(1,3) by (simp add: open_window_def a)
  note step = Add_open [where ord = ord, OF m ord x op Cons.prems(2)]
  show ?case
  proof (cases "arr = []")
    case True
    with Cons.prems(5) step show ?thesis by (simp del: fun_upd_apply add: a)
  next
    case False
    have ne: "insert x W \<union> snd ` set (butlast arr) \<noteq> ?C"
      using Cons.prems(6) False by (simp add: a)
    have un: "insert x W \<union> snd ` set arr = ?C" using Cons.prems(5) by (simp add: a)
    have W: "insert x W \<noteq> ?C"
    proof
      assume C: "insert x W = ?C"
      have "snd ` set (butlast arr) \<subseteq> snd ` set arr" by (auto dest: in_set_butlastD)
      with un ne C show False by blast
    qed
    have col: "collecting msg s (insert x W) ?win"
      using collecting_store [OF Cons.prems(2), of "fst x" "snd x"] x by simp
    let ?r = "r\<lparr>windows := (windows r)(seg_key msg \<mapsto> ?win)\<rparr>"
    have "add_all ord ?r (map (\<lambda>(t, x). (t, segment_of msg s x)) arr) =
        Some (?r\<lparr>windows := (windows ?r)(seg_key msg := None)\<rparr>,
          replicate (length arr - 1) (Inr None) @ [Inr (Some msg)])"
      using Cons.prems(3) False un ne by (intro Cons.IH [OF _ col]) (auto simp: a)
    moreover have "replicate (length arr) y = y # replicate (length arr - 1) y" for y :: "goerr + message option"
      using False by (cases arr) simp_all
    moreover have "?r\<lparr>windows := (windows ?r)(seg_key msg := None)\<rparr> = r\<lparr>windows := (windows r)(seg_key msg := None)\<rparr>"
      by (cases r) simp
    ultimately show ?thesis using W step by (simp del: fun_upd_apply add: a)
  qed
qed simp

lemma segment_of_inj:
  assumes "reassemblable msg s" and "x \<in> set (pieces (Payload msg) s 0)" "y \<in> set (pieces (Payload msg) s 0)"
    and "segment_of msg s x = segment_of msg s y"
  shows "x = y"
proof -
  have "tp_offset (segment_of msg s (o', d)) = int o' \<and> drop 4 (Payload (segment_of msg s (o', d))) = d"
    if "(o', d) \<in> set (pieces (Payload msg) s 0)" for o' d
  proof -
    have "o' < 2 ^ 32" "16 dvd o'"
      using pieces_mem [OF that] assms(1)
      by (auto simp: reassemblable_def MaxReassembledSize_def intro: dvd_trans)
    then show ?thesis by (simp add: segment_of_read)
  qed
  from this [of "fst x" "snd x"] this [of "fst y" "snd y"] assms(2-4) show ?thesis
    by (simp add: prod_eq_iff)
qed

lemma reassemble_pieces:
  assumes m: "reassemblable msg s" and ord: "\<And>xs. mset (ord xs) = mset xs"
    and fresh: "windows r (seg_key msg) = None"
      "\<forall>ex. tombstones r (seg_key msg) = Some ex \<longrightarrow> ex \<le> fst (hd arr)"
    and times: "\<forall>(t, x) \<in> set arr. t \<le> fst (hd arr) + timeout r"
    and all: "snd ` set arr = set (pieces (Payload msg) s 0)"
      "snd ` set (butlast arr) \<noteq> set (pieces (Payload msg) s 0)"
  shows "add_all ord r (map (\<lambda>(t, x). (t, segment_of msg s x)) arr) =
    Some (r, replicate (length arr - 1) (Inr None) @ [Inr (Some msg)])"
proof -
  let ?C = "set (pieces (Payload msg) s 0)"
  have "?C \<noteq> {}" using m pieces_Cons [of s 0 "Payload msg"] by (simp add: reassemblable_def)
  with all(1) obtain t x rest where arr: "arr = (t, x) # rest"
    by (cases arr) auto
  have x: "x \<in> ?C" using all(1) by (auto simp: arr)
  let ?fresh = "\<lparr>template = segment_of msg s x, segments = [], totalSize = -1, received = 0, expires = t + timeout r\<rparr>"
  let ?r = "r\<lparr>windows := (windows r)(seg_key msg \<mapsto> ?fresh)\<rparr>"
  let ?win = "store_chunk ?fresh (int (fst x)) (snd x) (fst x + s < length (Payload msg))"
  have op: "open_window r t (seg_key msg) (segment_of msg s x) = (?r, Inr ?fresh)"
    using fresh by (auto simp: open_window_def Let_def arr split: option.split)
  let ?r' = "r\<lparr>windows := (windows r)(seg_key msg \<mapsto> ?win)\<rparr>"
  have upd: "?r\<lparr>windows := (windows ?r)(seg_key msg := None)\<rparr> = r"
      "?r\<lparr>windows := (windows ?r)(seg_key msg \<mapsto> ?win)\<rparr> = ?r'"
      "?r'\<lparr>windows := (windows ?r')(seg_key msg := None)\<rparr> = r"
    using fresh(1) by (cases r, simp add: fun_upd_idem_iff)+
  have step: "Add ord r t (segment_of msg s x) =
      (if insert x {} = ?C then Some (r, Inr (Some msg)) else Some (?r', Inr None))"
    using Add_open [where ord = ord, OF m ord x op collecting_fresh] unfolding upd .
  show ?thesis
  proof (cases "rest = []")
    case True
    with all(1) show ?thesis by (simp add: arr step)
  next
    case False
    have ne: "{x} \<union> snd ` set (butlast rest) \<noteq> ?C" using all(2) False by (simp add: arr)
    have un: "{x} \<union> snd ` set rest = ?C" using all(1) by (simp add: arr)
    have W: "{x} \<noteq> ?C"
    proof
      assume C: "{x} = ?C"
      have "snd ` set (butlast rest) \<subseteq> snd ` set rest" by (auto dest: in_set_butlastD)
      with un ne C show False by blast
    qed
    have col: "collecting msg s {x} ?win"
      using collecting_store [OF collecting_fresh, of "fst x" "snd x" msg s] x by simp
    have later: "\<forall>(t', x) \<in> set rest. t' \<le> expires ?win" using times by (auto simp: arr)
    have here: "windows ?r' (seg_key msg) = Some ?win" by simp
    have "add_all ord ?r' (map (\<lambda>(t, x). (t, segment_of msg s x)) rest) =
        Some (r, replicate (length rest - 1) (Inr None) @ [Inr (Some msg)])"
      using add_all_collecting [where ord = ord, OF m ord here col later False un ne] unfolding upd .
    moreover have "replicate (length rest) y = y # replicate (length rest - 1) y" for y :: "goerr + message option"
      using False by (cases rest) simp_all
    ultimately show ?thesis using W by (simp add: arr step)
  qed
qed

lemma seg_size_small: "n = 0 \<or> 16 \<le> n \<Longrightarrow> int (seg_size n) \<le> (if n = 0 then DefaultSegmentSize else n)"
  by (auto simp: seg_size_def DefaultSegmentSize_def)

text \<open>What \<open>Segment\<close> returns, seen from a caller: the message itself or the image of its pieces.\<close>

lemma Segment_cases:
  assumes "Segment msg n = Some (Inr segs)"
  obtains (single) "segs = [msg]"
  | (split) "Payload msg \<noteq> []" "16 \<le> seg_size n" "16 dvd seg_size n"
      "segs = map (segment_of msg (seg_size n)) (pieces (Payload msg) (seg_size n) 0)"
proof -
  have ok: "n = 0 \<or> 16 \<le> n" using assms by (auto simp: Segment_eq split: if_splits)
  show thesis
  proof (cases "int (length (Payload msg)) \<le> (if n = 0 then DefaultSegmentSize else n)")
    case True
    with assms ok have "segs = [msg]" by (auto simp: Segment_eq split: if_splits)
    then show thesis by (rule single)
  next
    case False
    with assms ok have eq: "segs = map (segment_of msg (seg_size n)) (pieces (Payload msg) (seg_size n) 0)"
      by (auto simp: Segment_eq split: if_splits)
    have "Payload msg \<noteq> []" using False ok by (auto split: if_splits simp: DefaultSegmentSize_def)
    with seg_size_pos [OF ok] eq show thesis by (intro split) auto
  qed
qed

lemma set_single: "set ys = {y} \<Longrightarrow> set (butlast ys) \<noteq> {y} \<Longrightarrow> ys = [y]"
proof (cases ys rule: rev_cases)
  case (snoc zs z)
  assume a: "set ys = {y}" "set (butlast ys) \<noteq> {y}"
  with snoc have "set zs \<subseteq> {y}" "set zs \<noteq> {y}" "z = y" by auto
  with snoc show ?thesis by (cases zs) auto
qed simp

text \<open>Segments of one message arriving in any order, until they are complete.\<close>

lemma reassemble_segments:
  assumes seg: "Segment msg n = Some (Inr segs)" and plain: "\<not> IsTP msg"
    and small: "int (length (Payload msg)) \<le> MaxReassembledSize"
    and ord: "\<And>xs. mset (ord xs) = mset xs"
    and fresh: "windows r (seg_key msg) = None"
      "\<forall>ex. tombstones r (seg_key msg) = Some ex \<longrightarrow> ex \<le> fst (hd arr)"
    and times: "\<forall>(t, x) \<in> set arr. t \<le> fst (hd arr) + timeout r"
    and all: "set (map snd arr) = set segs" "set (map snd (butlast arr)) \<noteq> set segs"
  shows "add_all ord r arr = Some (r, replicate (length arr - 1) (Inr None) @ [Inr (Some msg)])"
  using seg
proof (cases rule: Segment_cases)
  case single
  with all have "map snd arr = [msg]" by (intro set_single) (simp_all add: map_butlast)
  then obtain t where "arr = [(t, msg)]" by (cases arr) auto
  with plain show ?thesis by (simp add: Add_eq)
next
  case split
  let ?s = "seg_size n" and ?C = "set (pieces (Payload msg) (seg_size n) 0)"
  have m: "reassemblable msg ?s" using split plain small by (simp add: reassemblable_def)
  have "\<forall>y \<in> set (map snd arr). \<exists>x \<in> ?C. y = segment_of msg ?s x" using all(1) split by auto
  then obtain f where f: "\<forall>y \<in> set (map snd arr). f y \<in> ?C \<and> y = segment_of msg ?s (f y)"
    by metis
  define arr' where "arr' = map (\<lambda>(t, y). (t, f y)) arr"
  have arr: "arr = map (\<lambda>(t, x). (t, segment_of msg ?s x)) arr'"
    using f by (auto simp: arr'_def o_def map_idI [symmetric] intro!: map_idI [symmetric])
  have ne: "arr \<noteq> []" using all by auto
  have hd: "fst (hd arr') = fst (hd arr)" using ne by (simp add: arr'_def hd_map split: prod.split)
  have img: "set (map snd zs) = segment_of msg ?s ` (snd ` set zs')"
    if "zs = map (\<lambda>(t, x). (t, segment_of msg ?s x)) zs'" for zs zs'
    by (force simp: that image_iff split_beta)
  have sub: "snd ` set arr' \<subseteq> ?C" using f by (auto simp: arr'_def)
  have "segment_of msg ?s ` (snd ` set arr') = segment_of msg ?s ` ?C"
    using all(1) img [OF arr] split by simp
  moreover have "inj_on (segment_of msg ?s) ?C"
    using segment_of_inj [OF m] by (auto simp: inj_on_def)
  ultimately have C: "snd ` set arr' = ?C" using sub by (simp add: inj_on_image_eq_iff)
  have "butlast arr = map (\<lambda>(t, x). (t, segment_of msg ?s x)) (butlast arr')"
    by (subst arr) (simp add: map_butlast)
  from img [OF this] have ne': "snd ` set (butlast arr') \<noteq> ?C"
    using all(2) split by auto
  have times': "\<forall>(t, x) \<in> set arr'. t \<le> fst (hd arr') + timeout r"
    using times unfolding hd by (auto simp: arr'_def)
  have fresh': "\<forall>ex. tombstones r (seg_key msg) = Some ex \<longrightarrow> ex \<le> fst (hd arr')"
    using fresh(2) unfolding hd .
  show ?thesis
    using reassemble_pieces [where ord = ord, OF m ord fresh(1) fresh' times' C ne']
    by (simp only: arr [symmetric]) (simp add: arr'_def)
qed

section \<open>The properties of SOME/IP-TP\<close>

text \<open>C1: reassembly inverts segmentation. The segments of a message, delivered in any order and
  with any duplicates before the reassembly timeout to a reassembler that holds nothing for the
  message's key, give no result until the last missing one arrives, then exactly the original
  message; the reassembler is left as it was. This holds whatever order Go visits its map in.\<close>

theorem segment_reassemble:
  assumes seg: "Segment msg n = Some (Inr segs)" and plain: "\<not> IsTP msg"
    and small: "int (length (Payload msg)) \<le> MaxReassembledSize"
    and ord: "\<And>xs. mset (ord xs) = mset xs"
    and fresh: "windows r (seg_key msg) = None"
      "\<forall>ex. tombstones r (seg_key msg) = Some ex \<longrightarrow> ex \<le> fst (hd arr)"
    and times: "\<forall>(t, x) \<in> set arr. t \<le> fst (hd arr) + timeout r"
    and all: "set (map snd arr) = set segs" "set (map snd (butlast arr)) \<noteq> set segs"
  shows "add_all ord r arr = Some (r, replicate (length arr - 1) (Inr None) @ [Inr (Some msg)])"
  using assms by (rule reassemble_segments)

definition sample_message :: message where
  "sample_message = zero_message\<lparr>ServiceID := 0x1234, MethodID := 0x8001, SessionID := 7, Payload := replicate 20 0xAB\<rparr>"

definition sample_reassembler :: Reassembler where
  "sample_reassembler = \<lparr>timeout = DefaultReassemblyTimeout, windows = Map.empty, tombstones = Map.empty, done_closed = False\<rparr>"

lemma sample_segments:
  "Segment sample_message 16 = Some (Inr [segment_of sample_message 16 (0, replicate 16 0xAB),
     segment_of sample_message 16 (16, replicate 4 0xAB)])"
proof -
  have "pieces (replicate 20 0xAB) 16 0 = [(0, replicate 16 0xAB), (16, replicate 4 (0xAB :: byte))]"
    by (simp add: pieces_Cons pieces_Nil)
  then show ?thesis by (simp add: Segment_eq seg_size_def sample_message_def)
qed

theorem segment_reassemble_witness:
  "\<exists>a b. Segment sample_message 16 = Some (Inr [a, b]) \<and>
     add_all rev sample_reassembler [(0, b), (3, b), (7, a)] =
       Some (sample_reassembler, [Inr None, Inr None, Inr (Some sample_message)])"
proof -
  let ?a = "segment_of sample_message 16 (0, replicate 16 0xAB)"
    and ?b = "segment_of sample_message 16 (16, replicate 4 0xAB)"
  have "length (Payload ?a) \<noteq> length (Payload ?b)" by (simp add: segment_of_def)
  then have "?a \<noteq> ?b" by metis
  then have "add_all rev sample_reassembler [(0, ?b), (3, ?b), (7, ?a)] =
      Some (sample_reassembler, replicate (length [(0 :: int, ?b), (3, ?b), (7, ?a)] - 1) (Inr None) @ [Inr (Some sample_message)])"
    by (intro segment_reassemble [OF sample_segments])
      (auto simp: sample_message_def sample_reassembler_def IsTP_def MaxReassembledSize_def
        DefaultReassemblyTimeout_def tpBit_def zero_message_def)
  then have "add_all rev sample_reassembler [(0, ?b), (3, ?b), (7, ?a)] =
      Some (sample_reassembler, [Inr None, Inr None, Inr (Some sample_message)])"
    by (simp del: add_all.simps add: eval_nat_numeral)
  with sample_segments show ?thesis by blast
qed

text \<open>What \<open>Segment\<close> returns. It always returns: an error exactly for a segment size below
  16 (0 selects the default), the message itself when it fits, and otherwise TP segments of the
  message whose chunks join to the payload, each at most the segment size, each at its own offset,
  a multiple of 16, with the more bit set on all but the last.\<close>

theorem segment_outcome:
  "\<exists>x. Segment msg n = Some x \<and>
     (x = Inl ErrSegmentTooLarge \<and> n \<noteq> 0 \<and> n < 16
      \<or> x = Inr [msg] \<and> int (length (Payload msg)) \<le> (if n = 0 then DefaultSegmentSize else n)
      \<or> (\<exists>segs. x = Inr segs \<and> (n = 0 \<or> 16 \<le> n)
           \<and> int (length (Payload msg)) > (if n = 0 then DefaultSegmentSize else n)
           \<and> concat (map (\<lambda>seg. drop 4 (Payload seg)) segs) = Payload msg
           \<and> (\<forall>seg \<in> set segs. IsTP seg \<and> seg_key seg = seg_key msg
                \<and> int (length (Payload seg)) \<le> 4 + (if n = 0 then DefaultSegmentSize else n)
                \<and> (length (Payload msg) < 2 ^ 32 \<longrightarrow> tp_offset seg mod 16 = 0
                     \<and> (tp_more seg \<longleftrightarrow> tp_offset seg + int (length (Payload seg) - 4) < int (length (Payload msg)))))))"
proof -
  let ?m = "if n = 0 then DefaultSegmentSize else n" and ?s = "seg_size n"
  consider "n \<noteq> 0 \<and> n < 16" | "n = 0 \<or> 16 \<le> n" "int (length (Payload msg)) \<le> ?m"
    | (cut) "n = 0 \<or> 16 \<le> n" "int (length (Payload msg)) > ?m" by linarith
  then show ?thesis
  proof cases
    case cut
    let ?segs = "map (segment_of msg ?s) (pieces (Payload msg) ?s 0)"
    have s: "0 < ?s" "16 dvd ?s" using seg_size_pos [OF cut(1)] by auto
    have join: "concat (map (\<lambda>seg. drop 4 (Payload seg)) ?segs) = Payload msg"
    proof -
      have "map (\<lambda>seg. drop 4 (Payload seg)) ?segs = map snd (pieces (Payload msg) ?s 0)"
        by (simp add: segment_of_def split_beta)
      then show ?thesis using pieces_concat [OF s(1), of "Payload msg" 0] by (simp only: drop_0)
    qed
    have each: "IsTP seg \<and> seg_key seg = seg_key msg \<and> int (length (Payload seg)) \<le> 4 + ?m
        \<and> (length (Payload msg) < 2 ^ 32 \<longrightarrow> tp_offset seg mod 16 = 0
           \<and> (tp_more seg \<longleftrightarrow> tp_offset seg + int (length (Payload seg) - 4) < int (length (Payload msg))))"
      if "seg \<in> set ?segs" for seg
    proof -
      from that obtain off d where od: "(off, d) \<in> set (pieces (Payload msg) ?s 0)"
        and seg: "seg = segment_of msg ?s (off, d)" by auto
      note p = pieces_mem [OF od]
      have dv: "16 dvd off" using p s(2) by (meson dvd_0_right dvd_trans)
      have len: "length d \<le> ?s" using p by simp
      have "length (Payload seg) = 4 + length d" by (simp add: seg segment_of_def)
      with len seg_size_small [OF cut(1)] have size: "int (length (Payload seg)) \<le> 4 + ?m" by linarith
      have "tp_offset seg mod 16 = 0 \<and>
          (tp_more seg \<longleftrightarrow> tp_offset seg + int (length (Payload seg) - 4) < int (length (Payload msg)))"
        if "length (Payload msg) < 2 ^ 32"
      proof -
        have "off < 2 ^ 32" using p that by simp
        from segment_of_read [OF this dv] have "tp_offset seg = int off"
          "tp_more seg \<longleftrightarrow> off + ?s < length (Payload msg)" "length (Payload seg) = 4 + length d"
          by (simp_all add: seg)
        moreover have "int off mod 16 = 0" using dv by (auto simp: dvd_def)
        moreover have "off + length d < length (Payload msg) \<longleftrightarrow> off + ?s < length (Payload msg)"
          using p by auto
        ultimately show ?thesis by auto
      qed
      with size show ?thesis by (simp add: seg)
    qed
    have "Segment msg n = Some (Inr ?segs)"
      using cut by (auto simp: Segment_eq)
    with cut join each show ?thesis by blast
  qed (auto simp: Segment_eq)
qed

theorem segment_outcome_witness:
  "\<exists>segs. Segment sample_message 16 = Some (Inr segs) \<and> length segs = 2
     \<and> concat (map (\<lambda>seg. drop 4 (Payload seg)) segs) = replicate 20 0xAB"
  using segment_outcome [of sample_message 16] sample_segments
  by (auto simp: sample_message_def)

lemma Add_TP:
  "IsTP seg \<Longrightarrow> 4 \<le> length (Payload seg) \<Longrightarrow>
   tp_offset seg + int (length (Payload seg) - 4) \<le> MaxReassembledSize \<Longrightarrow>
   Add ord r now seg = (case open_window r now (seg_key seg) seg of
       (r, Inl e) \<Rightarrow> Some (r, Inl e)
     | (r, Inr win) \<Rightarrow> finish ord r (seg_key seg)
         (store_chunk win (tp_offset seg) (drop 4 (Payload seg)) (tp_more seg)))"
  unfolding Add_eq by simp

text \<open>\<open>Add\<close> never panics, whatever the segment and the state: a frame that is not TP passes
  through, a malformed header is an error that changes nothing, and windows and tombstones of other
  keys are never touched.\<close>

theorem Add_outcome:
  "\<exists>r' x. Add ord r now seg = Some (r', x)
     \<and> (\<forall>key. key = seg_key seg \<or> (windows r' key = windows r key \<and> tombstones r' key = tombstones r key))
     \<and> timeout r' = timeout r \<and> done_closed r' = done_closed r
     \<and> (if \<not> IsTP seg then r' = r \<and> x = Inr (Some seg)
          else if length (Payload seg) < 4
          then r' = r \<and> x = Inl (Errorf ''payload shorter than TP header'' ErrMalformedSegment) else True)"
proof -
  obtain r' x where a: "Add ord r now seg = Some (r', x)"
    using Add_defined [of ord r now seg] by auto
  have "(key = seg_key seg \<or> (windows r' key = windows r key \<and> tombstones r' key = tombstones r key))
      \<and> timeout r' = timeout r \<and> done_closed r' = done_closed r" for key
    using a by (auto simp: Add_eq finish_def open_window_def Let_def
        split: if_splits option.splits sum.splits prod.splits)
  moreover have "if \<not> IsTP seg then r' = r \<and> x = Inr (Some seg)
      else if length (Payload seg) < 4
      then r' = r \<and> x = Inl (Errorf ''payload shorter than TP header'' ErrMalformedSegment) else True"
    using a by (auto simp: Add_eq)
  ultimately show ?thesis using a by auto
qed

section \<open>What a reassembler holds\<close>

text \<open>The states a reassembler can reach, with calls of \<open>Add\<close>, ticks of the collector and \<open>Close\<close> in
  any order and at any times.\<close>

inductive reassembler_step ::
  "((int \<times> byte list) list \<Rightarrow> (int \<times> byte list) list) \<Rightarrow> Reassembler \<Rightarrow> Reassembler \<Rightarrow> bool"
  for ord where
  step_Add: "Add ord r now seg = Some (r', x) \<Longrightarrow> reassembler_step ord r r'"
| step_gc: "reassembler_step ord r (gc_tick r now)"
| step_Close: "Close r = Some r' \<Longrightarrow> reassembler_step ord r r'"

inductive reassembler_reachable ::
  "((int \<times> byte list) list \<Rightarrow> (int \<times> byte list) list) \<Rightarrow> Reassembler \<Rightarrow> bool"
  for ord where
  reach_New: "NewReassembler t g = Some r \<Longrightarrow> reassembler_reachable ord r"
| reach_step: "reassembler_reachable ord r \<Longrightarrow> reassembler_step ord r r' \<Longrightarrow> reassembler_reachable ord r'"

inductive_cases reassembler_stepE: "reassembler_step ord r r'"

definition window_ok :: "assemblyWindow \<Rightarrow> bool" where
  "window_ok win \<longleftrightarrow> distinct (map fst (segments win))
     \<and> (\<forall>(off, d) \<in> set (segments win). 0 \<le> off \<and> off mod 16 = 0 \<and> off + int (length d) \<le> MaxReassembledSize)
     \<and> received win = (\<Sum>x \<leftarrow> segments win. int (length (snd x)))
     \<and> -1 \<le> totalSize win \<and> totalSize win \<le> MaxReassembledSize"

definition windows_ok :: "Reassembler \<Rightarrow> bool" where
  "windows_ok r \<longleftrightarrow> (\<forall>key win. windows r key = Some win \<longrightarrow> window_ok win)"

lemma window_ok_fresh:
  "window_ok \<lparr>template = m, segments = [], totalSize = -1, received = 0, expires = e\<rparr>"
  by (simp add: window_ok_def MaxReassembledSize_def)

lemma window_ok_store:
  assumes "window_ok win" and "0 \<le> off" "off mod 16 = 0" "off + int (length d) \<le> MaxReassembledSize"
  shows "window_ok (store_chunk win off d b)"
  using assms
  by (auto simp: window_ok_def store_chunk_def Let_def map_of_eq_None_iff split: option.split)

lemma windows_ok_open:
  "windows_ok r \<Longrightarrow> open_window r now key seg = (r', Inr win) \<Longrightarrow> windows_ok r' \<and> window_ok win"
  unfolding windows_ok_def
  by (auto simp: open_window_def Let_def window_ok_fresh simp del: split_paired_All
      split: option.splits if_splits)

lemma windows_ok_open_error:
  "windows_ok r \<Longrightarrow> open_window r now key seg = (r', Inl e) \<Longrightarrow> windows_ok r'"
  unfolding windows_ok_def
  by (force simp: open_window_def Let_def simp del: split_paired_All split: option.splits if_splits)

lemma tp_offset_nonneg: "0 \<le> tp_offset seg \<and> tp_offset seg mod 16 = 0"
  by (simp add: tp_offset_def)

lemma windows_ok_Add:
  assumes ok: "windows_ok r" and a: "Add ord r now seg = Some (r', x)"
  shows "windows_ok r'"
proof (cases "IsTP seg \<and> 4 \<le> length (Payload seg)
    \<and> tp_offset seg + int (length (Payload seg) - 4) \<le> MaxReassembledSize")
  case False
  then have "r' = r" using a by (auto simp: Add_eq split: if_splits)
  with ok show ?thesis by simp
next
  case True
  then have add: "Add ord r now seg = (case open_window r now (seg_key seg) seg of
       (r, Inl e) \<Rightarrow> Some (r, Inl e)
     | (r, Inr win) \<Rightarrow> finish ord r (seg_key seg)
         (store_chunk win (tp_offset seg) (drop 4 (Payload seg)) (tp_more seg)))"
    by (intro Add_TP) auto
  obtain r1 y where op: "open_window r now (seg_key seg) seg = (r1, y)"
    by (cases "open_window r now (seg_key seg) seg")
  show ?thesis
  proof (cases y)
    case (Inl e)
    with op ok have "windows_ok r1" using windows_ok_open_error by blast
    moreover have "r' = r1" using a op Inl by (simp add: add)
    ultimately show ?thesis by simp
  next
    case (Inr win)
    with op ok have "windows_ok r1" "window_ok win" using windows_ok_open by blast+
    moreover from this have "window_ok (store_chunk win (tp_offset seg) (drop 4 (Payload seg)) (tp_more seg))"
      using True tp_offset_nonneg [of seg] by (intro window_ok_store) auto
    moreover have "finish ord r1 (seg_key seg)
        (store_chunk win (tp_offset seg) (drop 4 (Payload seg)) (tp_more seg)) = Some (r', x)"
      using a op Inr by (simp add: add)
    ultimately show ?thesis
      by (auto simp: finish_def windows_ok_def split: if_splits)
  qed
qed

lemma windows_ok_gc: "windows_ok r \<Longrightarrow> windows_ok (gc_tick r now)"
  by (auto simp: gc_tick_def gc_windows_def gc_tombstones_def windows_ok_def Let_def
      simp del: split_paired_All split: if_splits)

lemma windows_ok_Close: "Close r = Some r' \<Longrightarrow> windows_ok r'"
  by (auto simp: Close_def windows_ok_def split: if_splits)

lemma windows_ok_reachable: "reassembler_reachable ord r \<Longrightarrow> windows_ok r"
proof (induction rule: reassembler_reachable.induct)
  case (reach_New t g r)
  then show ?case by (auto simp: NewReassembler_def windows_ok_def Let_def split: if_splits)
next
  case (reach_step r r')
  then show ?case
    by (blast elim: reassembler_stepE intro: windows_ok_Add windows_ok_gc windows_ok_Close)
qed

lemma Add_complete:
  assumes ok: "windows_ok r" and a: "Add ord r now seg = Some (r', Inr (Some m))" "IsTP seg"
  shows "int (length (Payload m)) \<le> MaxReassembledSize \<and> \<not> IsTP m \<and> windows r' (seg_key seg) = None"
proof -
  obtain r1 win where op: "open_window r now (seg_key seg) seg = (r1, Inr win)"
    and len: "tp_offset seg + int (length (Payload seg) - 4) \<le> MaxReassembledSize"
    and fin: "finish ord r1 (seg_key seg)
        (store_chunk win (tp_offset seg) (drop 4 (Payload seg)) (tp_more seg)) = Some (r', Inr (Some m))"
    and "4 \<le> length (Payload seg)"
    using a by (auto simp: Add_eq split: if_splits prod.splits sum.splits)
  let ?w = "store_chunk win (tp_offset seg) (drop 4 (Payload seg)) (tp_more seg)"
  have "window_ok win" using windows_ok_open [OF ok op] by simp
  then have w: "window_ok ?w"
    using len \<open>4 \<le> length (Payload seg)\<close> tp_offset_nonneg [of seg] by (intro window_ok_store) auto
  from fin obtain p where p: "copy_segments (ord (segments ?w)) (totalSize ?w) (replicate (nat (totalSize ?w)) 0) = Some p"
    and m: "m = (template ?w)\<lparr>MessageType := BaseMessageType (MessageType (template ?w)), Payload := p\<rparr>"
    and r': "r' = r1\<lparr>windows := (windows r1)(seg_key seg := None)\<rparr>" and "0 \<le> totalSize ?w"
    by (auto simp: finish_def split: if_splits)
  then have "int (length p) = totalSize ?w"
    using copy_segments_defined [of "replicate (nat (totalSize ?w)) 0" "totalSize ?w" "ord (segments ?w)"] by auto
  moreover have "\<not> IsTP m" by (simp add: m IsTP_def BaseMessageType_def and.assoc)
  ultimately show ?thesis using w by (simp add: m r' window_ok_def)
qed

text \<open>C29: the bound on what untrusted segments can make a reassembler do. In every state it can
  reach, each window holds chunks at distinct offsets that are multiples of 16 and end within
  MaxReassembledSize, \<open>received\<close> counts exactly the bytes held, and a message that \<open>Add\<close> completes is at
  most MaxReassembledSize bytes long.\<close>

theorem reassembler_bounded:
  assumes "reassembler_reachable ord r"
  shows "(\<forall>key win. windows r key = Some win \<longrightarrow> window_ok win)
    \<and> (\<forall>now seg r' m. Add ord r now seg = Some (r', Inr (Some m)) \<and> IsTP seg \<longrightarrow>
         int (length (Payload m)) \<le> MaxReassembledSize \<and> \<not> IsTP m \<and> windows r' (seg_key seg) = None)"
  using windows_ok_reachable [OF assms] Add_complete by (auto simp: windows_ok_def)

theorem reassembler_bounded_witness:
  "\<exists>r r' x. NewReassembler 0 0 = Some r
     \<and> Add id r 0 (segment_of sample_message 16 (16, replicate 4 0xAB)) = Some (r', x)
     \<and> (\<forall>key win. windows r' key = Some win \<longrightarrow> window_ok win)"
proof -
  obtain r where r: "NewReassembler 0 0 = Some r" by (auto simp: NewReassembler_def DefaultReassemblyTimeout_def)
  obtain r' x where a: "Add id r 0 (segment_of sample_message 16 (16, replicate 4 0xAB)) = Some (r', x)"
    using Add_defined [of id r 0 "segment_of sample_message 16 (16, replicate 4 0xAB)"] by auto
  have "reassembler_reachable id r'"
    using reach_step [OF reach_New [OF r] step_Add [OF a]] .
  with reassembler_bounded [of id r'] r a show ?thesis by blast
qed

text \<open>A segment whose header \<open>Add\<close> accepts.\<close>

definition valid_segment :: "message \<Rightarrow> bool" where
  "valid_segment seg \<longleftrightarrow> IsTP seg \<and> 4 \<le> length (Payload seg) \<and>
     tp_offset seg + int (length (Payload seg) - 4) \<le> MaxReassembledSize"

lemma Add_valid:
  "valid_segment seg \<Longrightarrow> Add ord r now seg = (case open_window r now (seg_key seg) seg of
       (r, Inl e) \<Rightarrow> Some (r, Inl e)
     | (r, Inr win) \<Rightarrow> finish ord r (seg_key seg)
         (store_chunk win (tp_offset seg) (drop 4 (Payload seg)) (tp_more seg)))"
  unfolding valid_segment_def by (elim conjE) (rule Add_TP)

lemma Add_tombstone:
  "valid_segment seg \<Longrightarrow> windows r (seg_key seg) = None \<Longrightarrow> tombstones r (seg_key seg) = Some ex \<Longrightarrow>
   t < ex \<Longrightarrow> Add ord r t seg = Some (r, Inl ErrReassemblyTimeout)"
  by (simp add: Add_valid open_window_def Let_def)

lemma Add_after_tombstone:
  assumes "valid_segment seg" "windows r (seg_key seg) = None" "tombstones r (seg_key seg) = Some ex" "ex \<le> t"
  shows "\<exists>r' x. Add ord r t seg = Some (r', Inr x)"
proof -
  have "\<exists>r1 win. open_window r t (seg_key seg) seg = (r1, Inr win)"
    using assms by (simp add: open_window_def Let_def)
  then obtain r1 win where "open_window r t (seg_key seg) seg = (r1, Inr win)" by blast
  with assms(1) have "Add ord r t seg = finish ord r1 (seg_key seg)
      (store_chunk win (tp_offset seg) (drop 4 (Payload seg)) (tp_more seg))"
    by (simp add: Add_valid)
  moreover have "Add ord r t seg \<noteq> None" by (rule Add_defined)
  ultimately show ?thesis by (auto simp: finish_def split: if_splits)
qed

lemma Add_expired:
  "valid_segment seg \<Longrightarrow> windows r (seg_key seg) = Some win \<Longrightarrow> now > expires win \<Longrightarrow>
   Add ord r now seg = Some (r\<lparr>tombstones := (tombstones r)(seg_key seg \<mapsto> now + 2 * timeout r),
     windows := (windows r)(seg_key seg := None)\<rparr>, Inl ErrReassemblyTimeout)"
  by (simp add: Add_valid open_window_def)

text \<open>The timeout of a window, whether a late segment or the collector finds it. The segment that
  finds it is rejected with ErrReassemblyTimeout; either way the window is gone, every further segment
  of the key is rejected with the same error, changing nothing, until two timeouts have passed, and
  accepted from then on.\<close>

theorem expired_window_rejected:
  assumes "windows r (seg_key seg) = Some win" "now > expires win" "valid_segment seg" "0 \<le> timeout r"
  shows "\<exists>r1. Add ord r now seg = Some (r1, Inl ErrReassemblyTimeout) \<and>
    (\<forall>r' \<in> {r1, gc_tick r now}. windows r' (seg_key seg) = None \<and>
       (\<forall>t < now + 2 * timeout r. Add ord r' t seg = Some (r', Inl ErrReassemblyTimeout)) \<and>
       (\<forall>t \<ge> now + 2 * timeout r. \<exists>r'' x. Add ord r' t seg = Some (r'', Inr x)))"
proof -
  let ?k = "seg_key seg"
  let ?r1 = "r\<lparr>tombstones := (tombstones r)(?k \<mapsto> now + 2 * timeout r), windows := (windows r)(?k := None)\<rparr>"
  have a: "Add ord r now seg = Some (?r1, Inl ErrReassemblyTimeout)"
    using assms by (simp add: Add_expired)
  have gone: "windows r' ?k = None \<and> tombstones r' ?k = Some (now + 2 * timeout r)"
    if "r' \<in> {?r1, gc_tick r now}" for r'
    using that assms by (auto simp: gc_tick_def gc_windows_def gc_tombstones_def Let_def)
  have "\<forall>t < now + 2 * timeout r. Add ord r' t seg = Some (r', Inl ErrReassemblyTimeout)"
    "\<forall>t \<ge> now + 2 * timeout r. \<exists>r'' x. Add ord r' t seg = Some (r'', Inr x)"
    if "r' \<in> {?r1, gc_tick r now}" for r'
    using gone [OF that] assms(3) Add_tombstone Add_after_tombstone by simp_all
  with a gone show ?thesis by (intro exI [of _ ?r1]) simp
qed

definition sample_window :: assemblyWindow where
  "sample_window = \<lparr>template = sample_message, segments = [], totalSize = -1, received = 0, expires = 5\<rparr>"

theorem expired_window_rejected_witness:
  "Add id (sample_reassembler\<lparr>windows := [(0x1234, 0x8001, 7) \<mapsto> sample_window]\<rparr>) 6
     (segment_of sample_message 16 (0, replicate 16 0xAB)) =
   Some (sample_reassembler\<lparr>tombstones := [(0x1234, 0x8001, 7) \<mapsto> 6 + 2 * DefaultReassemblyTimeout]\<rparr>,
     Inl ErrReassemblyTimeout)"
proof -
  let ?r = "sample_reassembler\<lparr>windows := [(0x1234, 0x8001, 7) \<mapsto> sample_window]\<rparr>"
  let ?seg = "segment_of sample_message 16 (0, replicate 16 0xAB)"
  have key': "seg_key sample_message = (0x1234, 0x8001, 7)" by (simp add: seg_key_def sample_message_def)
  then have key: "seg_key ?seg = (0x1234, 0x8001, 7)" by simp
  have ok: "valid_segment ?seg"
    using segment_of_read [of 0 sample_message 16 "replicate 16 0xAB"]
    by (simp add: valid_segment_def MaxReassembledSize_def)
  have win: "windows ?r (seg_key ?seg) = Some sample_window" by (simp add: key')
  have "\<exists>r1. Add id ?r 6 ?seg = Some (r1, Inl ErrReassemblyTimeout)"
    using expired_window_rejected [OF win _ ok, of 6 id]
    by (auto simp: sample_window_def sample_reassembler_def DefaultReassemblyTimeout_def)
  moreover have "Add id ?r 6 ?seg = Some (?r\<lparr>tombstones := (tombstones ?r)(seg_key ?seg \<mapsto> 6 + 2 * timeout ?r),
     windows := (windows ?r)(seg_key ?seg := None)\<rparr>, Inl ErrReassemblyTimeout)"
    using win by (intro Add_expired [OF ok]) (auto simp: sample_window_def)
  ultimately show ?thesis unfolding key by (simp add: sample_reassembler_def)
qed

text \<open>Completeness is judged by a byte count alone. Segments beyond the end announced by the last
  segment count as received bytes, so \<open>Add\<close> hands out a message as complete although no segment ever
  covered bytes 16 to 47 of it: they are zero.\<close>

definition tp_segment :: "nat \<Rightarrow> bool \<Rightarrow> byte list \<Rightarrow> message" where
  "tp_segment off has_more d = sample_message\<lparr>MessageType := tpBit, Payload := bytes32 (tp_word off has_more) @ d\<rparr>"

theorem reassembly_completes_with_holes:
  "map_option snd (add_all id sample_reassembler
     [(0, tp_segment 0 True (replicate 16 1)), (0, tp_segment 64 True (replicate 48 2)),
      (0, tp_segment 48 False (replicate 16 3))]) =
   Some [Inr None, Inr None,
     Inr (Some (sample_message\<lparr>Payload := replicate 16 1 @ replicate 32 0 @ replicate 16 3\<rparr>))]"
  by code_simp

end
