(* ===== verification/TP_Traffic.thy ===== *)
theory TP_Traffic
  imports TP
begin

text \<open>
  SOME/IP-TP with several messages under way at once (\<open>src/tp/tp.go\<close>). The reassembler keeps one window per
  key of service, method and session. What happens to one key does not depend on what arrives for the others, so
  that a message comes out of any traffic; two senders that use one key are not told apart.
\<close>

section \<open>The part of a reassembler one key sees\<close>

definition on_key :: "assemblyKey \<Rightarrow> Reassembler \<Rightarrow> Reassembler" where
  "on_key k r = r\<lparr>windows := windows r |` {k}, tombstones := tombstones r |` {k}\<rparr>"

text \<open>A frame that concerns a key: only segments do, other messages pass through.\<close>

definition for_key :: "assemblyKey \<Rightarrow> message \<Rightarrow> bool" where
  "for_key k seg \<longleftrightarrow> IsTP seg \<and> seg_key seg = k"

lemma on_key_simps [simp]:
  "windows (on_key k r) k = windows r k" "tombstones (on_key k r) k = tombstones r k"
  "timeout (on_key k r) = timeout r" "done_closed (on_key k r) = done_closed r"
  by (simp_all add: on_key_def)

lemma on_key_update [simp]:
  "on_key k (r\<lparr>windows := (windows r)(k := w)\<rparr>) = (on_key k r)\<lparr>windows := (windows (on_key k r))(k := w)\<rparr>"
  "on_key k (r\<lparr>tombstones := (tombstones r)(k := t), windows := (windows r)(k := w)\<rparr>)
     = (on_key k r)\<lparr>tombstones := (tombstones (on_key k r))(k := t), windows := (windows (on_key k r))(k := w)\<rparr>"
  by (auto simp: on_key_def fun_eq_iff restrict_map_def)

lemma on_key_other:
  "k' \<noteq> k \<Longrightarrow> on_key k (r\<lparr>windows := (windows r)(k' := w)\<rparr>) = on_key k r"
  "k' \<noteq> k \<Longrightarrow> on_key k (r\<lparr>tombstones := (tombstones r)(k' := t), windows := (windows r)(k' := w)\<rparr>) = on_key k r"
  by (auto simp: on_key_def fun_eq_iff restrict_map_def)

lemma open_window_on_key:
  "open_window (on_key k r) now k seg = map_prod (on_key k) id (open_window r now k seg)"
  by (simp add: open_window_def Let_def split: option.split)

lemma finish_on_key:
  "finish ord (on_key k r) k win = map_option (map_prod (on_key k) id) (finish ord r k win)"
  by (simp add: finish_def option.map_comp comp_def)

lemma Add_on_key:
  assumes "for_key k seg"
  shows "Add ord (on_key k r) now seg = map_option (map_prod (on_key k) id) (Add ord r now seg)"
  using assms
  by (auto simp: Add_eq for_key_def open_window_on_key finish_on_key split: prod.split sum.split)

lemma Add_other_key:
  assumes "\<not> for_key k seg" "Add ord r now seg = Some (r', x)"
  shows "on_key k r' = on_key k r"
  using assms
  by (auto simp: Add_eq for_key_def finish_def open_window_def Let_def on_key_other
      split: if_splits option.splits sum.splits prod.splits)

text \<open>Any sequence of arrivals, seen from one key: the state and the results are those of its own arrivals.\<close>

lemma add_all_on_key:
  "add_all ord r arr = Some (r', xs) \<Longrightarrow> length xs = length arr \<and>
   add_all ord (on_key k r) (filter (\<lambda>a. for_key k (snd a)) arr)
     = Some (on_key k r', map snd (filter (\<lambda>(a, x). for_key k (snd a)) (zip arr xs)))"
proof (induction arr arbitrary: r xs)
  case (Cons a arr)
  obtain now seg where a: "a = (now, seg)" by (cases a)
  obtain r1 x ys where s: "Add ord r now seg = Some (r1, x)" "add_all ord r1 arr = Some (r', ys)" "xs = x # ys"
    using Cons.prems by (auto simp: a split: bind_splits)
  note IH = Cons.IH [OF s(2)]
  show ?case
  proof (cases "for_key k seg")
    case True
    then show ?thesis using IH s Add_on_key [OF True, of ord r now] by (simp add: a)
  next
    case False
    then show ?thesis using IH s Add_other_key [OF False s(1)] by (simp add: a)
  qed
qed simp

lemma add_all_defined: "\<exists>r' xs. add_all ord r arr = Some (r', xs)"
proof (induction arr arbitrary: r)
  case (Cons a arr)
  obtain now seg where a: "a = (now, seg)" by (cases a)
  obtain r1 x where "Add ord r now seg = Some (r1, x)" using Add_defined [of ord r now seg] by auto
  then show ?case using Cons.IH [of r1] by (auto simp: a)
qed simp

text \<open>The results that the arrivals of one key got.\<close>

definition results_for :: "assemblyKey \<Rightarrow> (int \<times> message) list \<Rightarrow> (goerr + message option) list \<Rightarrow> (goerr + message option) list" where
  "results_for k arr xs = map snd (filter (\<lambda>(a, x). for_key k (snd a)) (zip arr xs))"

section \<open>Properties\<close>

text \<open>C2: reassembly in traffic. A message cut into segments comes out of a reassembler that at the same time receives
  any other traffic: segments of other messages under other keys, malformed segments of those keys, messages that
  are no segments, in any interleaving. Its own segments, in any order and with repetitions before the timeout, give nothing until
  the last missing one and then exactly the message; and nothing of them stays behind.\<close>

theorem reassembly_in_traffic:
  assumes seg: "Segment msg n = Some (Inr segs)" "1 < length segs" and plain: "\<not> IsTP msg"
    and small: "int (length (Payload msg)) \<le> MaxReassembledSize"
    and ord: "\<And>xs. mset (ord xs) = mset xs"
    and fresh: "windows r (seg_key msg) = None" "tombstones r (seg_key msg) = None"
    and own: "own = filter (\<lambda>a. IsTP (snd a) \<and> seg_key (snd a) = seg_key msg) arr"
    and times: "\<forall>(t, x) \<in> set own. t \<le> fst (hd own) + timeout r"
    and all: "set (map snd own) = set segs" "set (map snd (butlast own)) \<noteq> set segs"
  shows "\<exists>r' xs. add_all ord r arr = Some (r', xs) \<and> length xs = length arr
    \<and> results_for (seg_key msg) arr xs = replicate (length own - 1) (Inr None) @ [Inr (Some msg)]
    \<and> windows r' (seg_key msg) = None \<and> tombstones r' (seg_key msg) = None"
proof -
  let ?k = "seg_key msg"
  obtain r' xs where r': "add_all ord r arr = Some (r', xs)" using add_all_defined by blast
  have own': "own = filter (\<lambda>a. for_key ?k (snd a)) arr" by (simp add: own for_key_def)
  note p = add_all_on_key [OF r', of ?k, folded own' results_for_def]
  have "add_all ord (on_key ?k r) own = Some (on_key ?k r, replicate (length own - 1) (Inr None) @ [Inr (Some msg)])"
    by (rule reassemble_segments [where ord = ord, OF seg(1) plain small ord])
      (use fresh times all in \<open>simp_all\<close>)
  then have eq: "on_key ?k r' = on_key ?k r" "results_for ?k arr xs = replicate (length own - 1) (Inr None) @ [Inr (Some msg)]"
    using p by simp_all
  have "windows r' ?k = None" "tombstones r' ?k = None"
    using fresh arg_cong [OF eq(1), of "\<lambda>r. windows r ?k"] arg_cong [OF eq(1), of "\<lambda>r. tombstones r ?k"] by simp_all
  then show ?thesis using r' p eq(2) by blast
qed

theorem reassembly_in_traffic_witness:
  "\<exists>a b r' xs. Segment sample_message 16 = Some (Inr [a, b]) \<and>
     (let other = b\<lparr>SessionID := SessionID sample_message + 1\<rparr> in
      add_all rev sample_reassembler [(0, b), (1, other), (2, sample_message), (3, b), (4, other), (7, a)] = Some (r', xs) \<and>
      [xs ! 0, xs ! 3, xs ! 5] = [Inr None, Inr None, Inr (Some sample_message)])"
proof -
  let ?a = "segment_of sample_message 16 (0, replicate 16 0xAB)"
    and ?b = "segment_of sample_message 16 (16, replicate 4 0xAB)"
  let ?o = "?b\<lparr>SessionID := SessionID sample_message + 1\<rparr>"
  let ?arr = "[(0, ?b), (1, ?o), (2, sample_message), (3, ?b), (4, ?o), (7, ?a)] :: (int \<times> message) list"
  have k: "for_key (seg_key sample_message) ?a" "for_key (seg_key sample_message) ?b" by (simp_all add: for_key_def)
  have o: "\<not> for_key (seg_key sample_message) ?o" "\<not> for_key (seg_key sample_message) sample_message" "\<not> IsTP sample_message"
    by (simp_all add: for_key_def seg_key_def sample_message_def IsTP_def tpBit_def zero_message_def)
  have "length (Payload ?a) \<noteq> length (Payload ?b)" by (simp add: segment_of_def)
  then have ne: "?a \<noteq> ?b" by metis
  have own: "[(0, ?b), (3, ?b), (7, ?a)] = filter (\<lambda>a. IsTP (snd a) \<and> seg_key (snd a) = seg_key sample_message) ?arr"
    using k o by (simp add: for_key_def)
  have r: "windows sample_reassembler k = None" "tombstones sample_reassembler k = None" "timeout sample_reassembler = DefaultReassemblyTimeout" for k
    by (simp_all add: sample_reassembler_def)
  have "\<exists>r' xs. add_all rev sample_reassembler ?arr = Some (r', xs) \<and> length xs = length ?arr
    \<and> results_for (seg_key sample_message) ?arr xs = replicate (length [(0 :: int, ?b), (3, ?b), (7, ?a)] - 1) (Inr None) @ [Inr (Some sample_message)]
    \<and> windows r' (seg_key sample_message) = None \<and> tombstones r' (seg_key sample_message) = None"
    using ne by (intro reassembly_in_traffic [OF sample_segments _ o(3) _ _ r(1,2) own])
      (auto simp: r(3) sample_message_def MaxReassembledSize_def DefaultReassemblyTimeout_def zero_message_def)
  then obtain r' xs where xs: "add_all rev sample_reassembler ?arr = Some (r', xs)" "length xs = 6"
    "results_for (seg_key sample_message) ?arr xs = [Inr None, Inr None, Inr (Some sample_message)]"
    by (auto simp: eval_nat_numeral)
  obtain x0 x1 x2 x3 x4 x5 where "xs = [x0, x1, x2, x3, x4, x5]"
    using xs(2) by (auto simp: eval_nat_numeral length_Suc_conv)
  then have "[xs ! 0, xs ! 3, xs ! 5] = [Inr None, Inr None, Inr (Some sample_message)]"
    using xs(3) k o by (simp add: results_for_def eval_nat_numeral)
  then show ?thesis using sample_segments xs(1) by (auto simp: Let_def)
qed

section \<open>Two senders under one key\<close>

text \<open>A window that exists takes from a segment its key and its payload, nothing else of its header.\<close>

lemma Add_header_ignored:
  assumes "windows r (seg_key x) = Some win" "seg_key x = seg_key y" "Payload x = Payload y" "IsTP x" "IsTP y"
  shows "Add ord r now x = Add ord r now y"
  using assms by (simp add: Add_eq open_window_def tp_offset_def tp_more_def)

lemma two_pieces:
  assumes "pieces P s 0 = [x, y]"
  shows "0 < s" "s < length P" "length P \<le> s + s" "x = (0, take s P)" "y = (s, drop s P)"
proof -
  have s: "0 < s" "0 < length P" using assms pieces_stop [of s 0 P] by fastforce+
  then have "pieces P s 0 = (0, take s P) # pieces P s s" by (simp add: pieces_Cons)
  then have x: "x = (0, take s P)" "pieces P s s = [y]" using assms by simp_all
  then have l: "s < length P" using pieces_Nil [of P s s] by fastforce
  then have "pieces P s s = (s, take s (drop s P)) # pieces P s (s + s)" using s by (simp add: pieces_Cons)
  then have y: "y = (s, take s (drop s P))" "pieces P s (s + s) = []" using x(2) by simp_all
  then have "length P \<le> s + s" using s pieces_Cons [of s "s + s" P] by (cases "s + s < length P") auto
  then show "0 < s" "s < length P" "length P \<le> s + s" "x = (0, take s P)" "y = (s, drop s P)" using s l x y by simp_all
qed

text \<open>The key of a window leaves out who sent the segments. When two clients send messages of the same service, method
  and session, of equal length and in two segments each, the first segment of the one and the second of the other
  complete a message: it has the header of the first and a payload of half of each, and no error is reported.\<close>

theorem reassembly_mixes_senders:
  assumes key: "ServiceID a = ServiceID b" "MethodID a = MethodID b" "SessionID a = SessionID b"
    and plain: "\<not> IsTP a" and len: "length (Payload a) = length (Payload b)"
    and small: "int (length (Payload a)) \<le> MaxReassembledSize"
    and segs: "Segment a n = Some (Inr [a1, a2])" "Segment b n = Some (Inr [b1, b2])"
    and ord: "\<And>xs. mset (ord xs) = mset xs"
    and fresh: "windows r (seg_key a) = None" "tombstones r (seg_key a) = None" and time: "0 \<le> timeout r" "t' \<le> t + timeout r"
  shows "add_all ord r [(t, a1), (t', b2)] = Some (r, [Inr None, Inr (Some (a\<lparr>Payload := take (seg_size n) (Payload a) @ drop (seg_size n) (Payload b)\<rparr>))])"
proof -
  let ?s = "seg_size n"
  let ?c = "a\<lparr>Payload := take ?s (Payload a) @ drop ?s (Payload b)\<rparr>"
  have cut: "\<exists>x y. pieces (Payload m) ?s 0 = [x, y] \<and> m1 = segment_of m ?s x \<and> m2 = segment_of m ?s y"
    if "Segment m n = Some (Inr [m1, m2])" for m m1 m2
    using that by (cases rule: Segment_cases) auto
  obtain xa ya where pa: "pieces (Payload a) ?s 0 = [xa, ya]" "a1 = segment_of a ?s xa" using cut [OF segs(1)] by blast
  obtain xb yb where pb: "pieces (Payload b) ?s 0 = [xb, yb]" "b2 = segment_of b ?s yb" using cut [OF segs(2)] by blast
  note da = two_pieces [OF pa(1)] and db = two_pieces [OF pb(1)]
  have lc: "length (Payload ?c) = length (Payload a)" using da len by simp
  have pc: "pieces (Payload ?c) ?s 0 = [(0, take ?s (Payload a)), (?s, drop ?s (Payload b))]"
  proof -
    let ?P = "take ?s (Payload a) @ drop ?s (Payload b)"
    have l: "length ?P = length (Payload a)" "take ?s ?P = take ?s (Payload a)" "drop ?s ?P = drop ?s (Payload b)"
      "take ?s (drop ?s (Payload b)) = drop ?s (Payload b)" using da db len by simp_all
    have p: "pieces ?P ?s 0 = (0, take ?s ?P) # pieces ?P ?s ?s"
      using pieces_Cons [of ?s 0 ?P] da(1,2) l(1) unfolding drop_0 add_0_left by fastforce
    have q: "pieces ?P ?s ?s = [(?s, take ?s (drop ?s ?P))]"
      using pieces_Cons [of ?s ?s ?P] pieces_Nil [of ?P "?s + ?s"] da(1-3) l(1) by metis
    have "Payload ?c = ?P" by simp
    then show ?thesis unfolding p q l(2-4) by (simp only: p q l(2-4))
  qed
  let ?c1 = "segment_of ?c ?s (0, take ?s (Payload a))" and ?c2 = "segment_of ?c ?s (?s, drop ?s (Payload b))"
  have c1: "?c1 = a1" using lc by (simp add: pa(2) da(4) segment_of_def)
  have k: "seg_key b2 = seg_key a" "seg_key ?c2 = seg_key a" "seg_key ?c = seg_key a" "Payload b2 = Payload ?c2"
    using key lc len by (simp_all add: pb(2) db(5) seg_key_def segment_of_def)
  have tp: "IsTP b2" by (simp add: pb(2))
  have n: "n = 0 \<or> 16 \<le> n" "\<not> int (length (Payload a)) \<le> (if n = 0 then DefaultSegmentSize else n)"
    using segs(1) by (auto simp: Segment_eq split: if_splits)
  then have sc: "Segment ?c n = Some (Inr [?c1, ?c2])" using n lc pc by (auto simp: Segment_eq)
  have "Payload a \<noteq> []" using da(2) by auto
  then have "reassemblable ?c ?s"
    using seg_size_pos [OF n(1)] plain small lc da(1) by (auto simp: reassemblable_def IsTP_def)
  from segment_of_inj [OF this] have ne: "?c1 \<noteq> ?c2" unfolding pc using da(1) by fastforce
  have "add_all ord r [(t, ?c1), (t', ?c2)] = Some (r, replicate (length [(t, ?c1), (t', ?c2)] - 1) (Inr None) @ [Inr (Some ?c)])"
    by (rule reassemble_segments [where ord = ord, OF sc _ _ ord])
      (use plain small fresh time ne lc in \<open>auto simp: k IsTP_def\<close>)
  then have whole: "add_all ord r [(t, a1), (t', ?c2)] = Some (r, [Inr None, Inr (Some ?c)])" by (simp add: c1 eval_nat_numeral)
  then obtain r1 where r1: "Add ord r t a1 = Some (r1, Inr None)" "Add ord r1 t' ?c2 = Some (r, Inr (Some ?c))"
    by (auto split: bind_splits)
  have "\<exists>win. windows r1 (seg_key a) = Some win"
  proof -
    have a1: "IsTP a1" "seg_key a1 = seg_key a" by (simp_all add: pa(2))
    show ?thesis using r1(1) a1 by (auto simp: Add_eq finish_def split: if_splits prod.splits sum.splits)
  qed
  then obtain win where "windows r1 (seg_key b2) = Some win" by (auto simp: k)
  then have "Add ord r1 t' b2 = Add ord r1 t' ?c2" by (rule Add_header_ignored) (use k tp in simp_all)
  then show ?thesis using r1 by simp
qed

theorem reassembly_mixes_senders_witness:
  "\<exists>a1 a2 b1 b2. Segment sample_message 16 = Some (Inr [a1, a2])
    \<and> Segment (sample_message\<lparr>ClientID := 9, Payload := replicate 20 0xCD\<rparr>) 16 = Some (Inr [b1, b2])
    \<and> add_all rev sample_reassembler [(0, a1), (5, b2)]
      = Some (sample_reassembler, [Inr None, Inr (Some (sample_message\<lparr>Payload := replicate 16 0xAB @ replicate 4 0xCD\<rparr>))])"
proof -
  let ?b = "sample_message\<lparr>ClientID := 9, Payload := replicate 20 0xCD\<rparr>"
  have "pieces (replicate 20 0xCD) 16 0 = [(0, replicate 16 0xCD), (16, replicate 4 (0xCD :: byte))]"
    by (simp add: pieces_Cons pieces_Nil)
  then have b: "Segment ?b 16 = Some (Inr [segment_of ?b 16 (0, replicate 16 0xCD), segment_of ?b 16 (16, replicate 4 0xCD)])"
    by (simp add: Segment_eq seg_size_def)
  have len: "Payload sample_message = replicate 20 0xAB" "\<not> IsTP sample_message"
    by (simp_all add: sample_message_def IsTP_def tpBit_def zero_message_def)
  have "add_all rev sample_reassembler [(0, segment_of sample_message 16 (0, replicate 16 0xAB)), (5, segment_of ?b 16 (16, replicate 4 0xCD))]
      = Some (sample_reassembler, [Inr None, Inr (Some (sample_message\<lparr>Payload := take (seg_size 16) (Payload sample_message)
          @ drop (seg_size 16) (Payload ?b)\<rparr>))])"
    by (rule reassembly_mixes_senders [OF _ _ _ len(2) _ _ sample_segments b])
      (simp_all add: len MaxReassembledSize_def sample_reassembler_def DefaultReassemblyTimeout_def)
  then show ?thesis using sample_segments b by (auto simp: len seg_size_def)
qed

end
