(* ===== verification/Codec.thy ===== *)
theory Codec
  imports SomeIP Interfaces
begin

text \<open>
  The wire codec: \<open>src/codec/codec.go\<close>. \<open>Encode\<close> appends a frame to a destination slice, in the
  spare capacity when there is enough of it; \<open>Decode\<close> parses one frame. \<open>wire\<close> is the layout of
  the SOME/IP header as a list, the reference both are compared with.
\<close>

definition HeaderSize :: int where "HeaderSize = 16"
definition minLength :: int where "minLength = 8"

definition ErrShortFrame :: goerr where
  "ErrShortFrame = Errorf ''codec: frame too short for SOME/IP header'' ErrMalformedMessage"

definition ErrLengthMismatch :: goerr where
  "ErrLengthMismatch = Errorf ''codec: length field does not match frame size'' ErrMalformedMessage"

definition codec_ProtocolVersion :: u8 where "codec_ProtocolVersion = 0x01"

lemmas codec_consts = HeaderSize_def minLength_def codec_ProtocolVersion_def SOMEIPProtocolVersion_def

text \<open>A Go slice: its elements and the bytes of its backing array between length and capacity.\<close>

record slice =
  elems :: "byte list"
  spare :: "byte list"

definition nil_slice :: slice where
  "nil_slice = \<lparr>elems = [], spare = []\<rparr>"

definition Encode :: "slice \<Rightarrow> message \<Rightarrow> slice option" where
  "Encode dst0 msg =
     (let payloadLen = int (length (Payload msg));
          frameLen = HeaderSize + payloadLen;
          dst = (if int (length (spare dst0)) < frameLen
                 then dst0\<lparr>spare := replicate (nat frameLen) 0\<rparr> else dst0);
          b = take (nat frameLen) (spare dst)
      in do {
        b \<leftarrow> put16 b 0 2 (ServiceID msg);
        b \<leftarrow> put16 b 2 4 (MethodID msg);
        b \<leftarrow> put32 b 4 8 (word_of_int (minLength + payloadLen));
        b \<leftarrow> put16 b 8 10 (ClientID msg);
        b \<leftarrow> put16 b 10 12 (SessionID msg);
        b \<leftarrow> upd b 12 codec_ProtocolVersion;
        b \<leftarrow> upd b 13 (InterfaceVersion msg);
        b \<leftarrow> upd b 14 (MessageType msg);
        b \<leftarrow> upd b 15 (ReturnCode msg);
        b \<leftarrow> copy_into b 16 (int (length b)) (Payload msg);
        Some \<lparr>elems = elems dst @ b, spare = drop (nat frameLen) (spare dst)\<rparr>
      })"

text \<open>\<open>codec.Encode(nil, msg)\<close>, the frame the transports send.\<close>

definition encode_frame :: "message \<Rightarrow> byte list option" where
  "encode_frame msg = map_option elems (Encode nil_slice msg)"

definition Decode :: "byte list \<Rightarrow> (goerr + message) option" where
  "Decode b =
     (if int (length b) < HeaderSize then Some (Inl (Errorf ''got, need'' ErrShortFrame))
      else do {
        lenBytes \<leftarrow> sub b 4 8;
        len32 \<leftarrow> be32 lenBytes;
        if uint len32 < minLength then Some (Inl (Errorf ''length field below minimum'' ErrLengthMismatch))
        else if int (length b) \<noteq> 8 + uint len32 then Some (Inl (Errorf ''frame size'' ErrLengthMismatch))
        else do {
          let payloadLen = uint len32 - minLength;
          payload \<leftarrow> (if payloadLen > 0
             then do { tl \<leftarrow> sub_from b HeaderSize;
                       copy_into (replicate (nat payloadLen) 0) 0 payloadLen tl }
             else Some []);
          ver \<leftarrow> idx b 12;
          if ver \<noteq> SOMEIPProtocolVersion
          then Some (Inl (Errorf ''protocol version'' ErrWrongProtocolVersion))
          else do {
            sid \<leftarrow> Option.bind (sub b 0 2) be16;
            mid \<leftarrow> Option.bind (sub b 2 4) be16;
            cid \<leftarrow> Option.bind (sub b 8 10) be16;
            ses \<leftarrow> Option.bind (sub b 10 12) be16;
            iv \<leftarrow> idx b 13;
            mt \<leftarrow> idx b 14;
            rc \<leftarrow> idx b 15;
            Some (Inr \<lparr>ServiceID = sid, MethodID = mid, ClientID = cid, SessionID = ses,
              ProtocolVersion = ver, InterfaceVersion = iv, MessageType = mt, ReturnCode = rc,
              Payload = payload\<rparr>)
          }
        }
      })"

section \<open>The reference layout\<close>

definition wire :: "message \<Rightarrow> byte list" where
  "wire m = bytes16 (ServiceID m) @ bytes16 (MethodID m)
     @ bytes32 (word_of_int (8 + int (length (Payload m))))
     @ bytes16 (ClientID m) @ bytes16 (SessionID m)
     @ [1, InterfaceVersion m, MessageType m, ReturnCode m] @ Payload m"

lemma length_wire [simp]: "length (wire m) = 16 + length (Payload m)"
  by (simp add: wire_def)

text \<open>Writing the fields into a buffer of the right size gives the layout, whatever it held.\<close>

lemma Encode_writes:
  assumes "length b = 16 + length (Payload msg)"
  shows "do {
        b \<leftarrow> put16 b 0 2 (ServiceID msg);
        b \<leftarrow> put16 b 2 4 (MethodID msg);
        b \<leftarrow> put32 b 4 8 (word_of_int (minLength + int (length (Payload msg))));
        b \<leftarrow> put16 b 8 10 (ClientID msg);
        b \<leftarrow> put16 b 10 12 (SessionID msg);
        b \<leftarrow> upd b 12 codec_ProtocolVersion;
        b \<leftarrow> upd b 13 (InterfaceVersion msg);
        b \<leftarrow> upd b 14 (MessageType msg);
        b \<leftarrow> upd b 15 (ReturnCode msg);
        b \<leftarrow> copy_into b 16 (int (length b)) (Payload msg);
        Some (f b)
      } = Some (f (wire msg))"
proof -
  from assms obtain b0 b1 b2 b3 b4 b5 b6 b7 b8 b9 b10 b11 b12 b13 b14 b15 r where
    b: "b = b0 # b1 # b2 # b3 # b4 # b5 # b6 # b7 # b8 # b9 # b10 # b11 # b12 # b13 # b14 # b15 # r"
    using length_ge_16 [of b] by auto
  with assms have r: "length r = length (Payload msg)" by simp
  show ?thesis
    unfolding b
    by (simp add: put16_def put32_def copy_into_def upd_def bytes16_def bytes32_def wire_def
        codec_consts r Let_def)
qed

lemma Encode_eq:
  "Encode dst msg = Some \<lparr>elems = elems dst @ wire msg,
     spare = drop (16 + length (Payload msg)) (spare dst)\<rparr>"
proof -
  let ?n = "16 + length (Payload msg)"
  let ?sp = "if length (spare dst) < ?n then replicate ?n 0 else spare dst"
  have "length (take ?n ?sp) = ?n" by auto
  note w = Encode_writes [OF this, where f = "\<lambda>b. \<lparr>elems = elems dst @ b, spare = drop ?n ?sp\<rparr>"]
  have n: "nat (HeaderSize + int (length (Payload msg))) = ?n"
    by (simp add: HeaderSize_def nat_add_distrib)
  have lt: "int (length (spare dst)) < HeaderSize + int (length (Payload msg)) \<longleftrightarrow> length (spare dst) < ?n"
    by (simp add: HeaderSize_def) linarith
  show ?thesis
    using w unfolding Encode_def Let_def n lt by (cases "length (spare dst) < ?n") simp_all
qed

lemma encode_frame_eq [simp]: "encode_frame msg = Some (wire msg)"
  by (simp add: encode_frame_def Encode_eq nil_slice_def)

section \<open>Decoding\<close>

definition length_field :: "byte list \<Rightarrow> u32" where
  "length_field b = join32 (b ! 4) (b ! 5) (b ! 6) (b ! 7)"

text \<open>\<open>Decode\<close> on every branch, in the order of the code. It never panics.\<close>

lemma Decode_eq:
  "Decode b = Some
     (if length b < 16 then Inl (Errorf ''got, need'' ErrShortFrame)
      else if uint (length_field b) < 8 then Inl (Errorf ''length field below minimum'' ErrLengthMismatch)
      else if int (length b) \<noteq> 8 + uint (length_field b) then Inl (Errorf ''frame size'' ErrLengthMismatch)
      else if b ! 12 \<noteq> 1 then Inl (Errorf ''protocol version'' ErrWrongProtocolVersion)
      else Inr \<lparr>ServiceID = join16 (b ! 0) (b ! 1), MethodID = join16 (b ! 2) (b ! 3),
             ClientID = join16 (b ! 8) (b ! 9), SessionID = join16 (b ! 10) (b ! 11),
             ProtocolVersion = b ! 12, InterfaceVersion = b ! 13, MessageType = b ! 14,
             ReturnCode = b ! 15, Payload = drop 16 b\<rparr>)"
proof (cases "length b < 16")
  case True
  then show ?thesis by (simp add: Decode_def HeaderSize_def)
next
  case False
  then obtain b0 b1 b2 b3 b4 b5 b6 b7 b8 b9 b10 b11 b12 b13 b14 b15 r where
    b: "b = b0 # b1 # b2 # b3 # b4 # b5 # b6 # b7 # b8 # b9 # b10 # b11 # b12 # b13 # b14 # b15 # r"
    using length_ge_16 [of b] by auto
  have lf: "length_field b = join32 b4 b5 b6 b7"
    by (simp add: b length_field_def)
  show ?thesis
  proof (cases "int (length b) = 8 + uint (join32 b4 b5 b6 b7)")
    case True
    then have "uint (join32 b4 b5 b6 b7) = 8 + int (length r)" by (simp add: b)
    then show ?thesis
      unfolding lf unfolding b
      by (simp add: Decode_def codec_consts sub_def sub_from_def idx_def copy_into_def Let_def)
  next
    case False
    then show ?thesis
      unfolding lf unfolding b
      by (simp add: Decode_def codec_consts sub_def)
  qed
qed

lemma length_field_wire:
  "length_field (wire m) = word_of_int (8 + int (length (Payload m)))"
  by (simp add: length_field_def wire_def bytes16_def bytes32_def)

lemma wire_nth:
  "join16 (wire m ! 0) (wire m ! 1) = ServiceID m"
  "join16 (wire m ! 2) (wire m ! 3) = MethodID m"
  "join16 (wire m ! 8) (wire m ! 9) = ClientID m"
  "join16 (wire m ! 10) (wire m ! 11) = SessionID m"
  "wire m ! 12 = 1" "wire m ! 13 = InterfaceVersion m" "wire m ! 14 = MessageType m"
  "wire m ! 15 = ReturnCode m" "drop 16 (wire m) = Payload m"
  by (simp_all add: wire_def bytes16_def bytes32_def)

text \<open>What the 32-bit Length field can carry.\<close>

definition fits :: "message \<Rightarrow> bool" where
  "fits m \<longleftrightarrow> length (Payload m) + 8 < 2 ^ 32"

lemma uint_length_field: "fits m \<Longrightarrow> uint (length_field (wire m)) = 8 + int (length (Payload m))"
  unfolding length_field_wire uint_word_of_int by (simp add: fits_def)

lemma Decode_wire: "fits m \<Longrightarrow> Decode (wire m) = Some (Inr (m\<lparr>ProtocolVersion := 1\<rparr>))"
  by (simp add: Decode_eq uint_length_field wire_nth del: One_nat_def)

lemma wire_ProtocolVersion [simp]: "wire (m\<lparr>ProtocolVersion := v\<rparr>) = wire m"
  by (simp add: wire_def)

lemma wire_Decode: "Decode b = Some (Inr m) \<Longrightarrow> wire m = b \<and> fits m \<and> ProtocolVersion m = 1"
proof -
  assume d: "Decode b = Some (Inr m)"
  then have len: "16 \<le> length b" and lf: "int (length b) = 8 + uint (length_field b)"
    and pv: "b ! 12 = 1"
    by (auto simp: Decode_eq split: if_splits)
  from d have m: "m = \<lparr>ServiceID = join16 (b ! 0) (b ! 1), MethodID = join16 (b ! 2) (b ! 3),
             ClientID = join16 (b ! 8) (b ! 9), SessionID = join16 (b ! 10) (b ! 11),
             ProtocolVersion = b ! 12, InterfaceVersion = b ! 13, MessageType = b ! 14,
             ReturnCode = b ! 15, Payload = drop 16 b\<rparr>"
    by (auto simp: Decode_eq split: if_splits)
  obtain b0 b1 b2 b3 b4 b5 b6 b7 b8 b9 b10 b11 b12 b13 b14 b15 r where
    b: "b = b0 # b1 # b2 # b3 # b4 # b5 # b6 # b7 # b8 # b9 # b10 # b11 # b12 # b13 # b14 # b15 # r"
    using length_ge_16 [OF len] by auto
  have u: "8 + int (length (Payload m)) = uint (length_field b)"
    using lf by (simp add: m b)
  have "fits m"
    using u uint_lt2p [of "length_field b"] by (simp add: fits_def)
  moreover have "wire m = b"
    unfolding wire_def u using pv by (simp add: m b length_field_def)
  ultimately show ?thesis using pv by (simp add: m)
qed

interpretation message_format: canonical_format wire Decode "\<lambda>m. fits m \<and> ProtocolVersion m = 1"
proof unfold_locales
  fix x assume "fits x \<and> ProtocolVersion x = 1"
  then show "Decode (wire x) = Some (Inr x)"
    by (simp add: Decode_wire)
next
  fix b x assume "Decode b = Some (Inr x)"
  then show "wire x = b \<and> fits x \<and> ProtocolVersion x = 1"
    by (rule wire_Decode)
qed

section \<open>Properties\<close>

text \<open>\<open>Encode\<close> never panics and appends exactly the big-endian SOME/IP header and the payload to
  the destination: what the destination already held stays in front, whatever the spare capacity
  held does not show, the protocol version on the wire is 1 whatever the message says, and the spare
  capacity shrinks by the size of the frame.\<close>

theorem encode_layout:
  "Encode dst m = Some \<lparr>
     elems = elems dst @ bytes16 (ServiceID m) @ bytes16 (MethodID m)
       @ bytes32 (word_of_int (8 + int (length (Payload m))))
       @ bytes16 (ClientID m) @ bytes16 (SessionID m)
       @ [1, InterfaceVersion m, MessageType m, ReturnCode m] @ Payload m,
     spare = drop (16 + length (Payload m)) (spare dst)\<rparr>"
  by (simp add: Encode_eq wire_def)

text \<open>C3: Decoding the frame \<open>Encode\<close> appended, at any destination, gives the message back with its
  protocol version set to 1, whenever the payload fits the 32-bit Length field.\<close>

theorem encode_decode_roundtrip:
  assumes "length (Payload m) + 8 < 2 ^ 32"
  shows "Option.bind (Encode dst m) (\<lambda>s. Decode (drop (length (elems dst)) (elems s)))
    = Some (Inr (m\<lparr>ProtocolVersion := 1\<rparr>))"
  using assms by (simp add: Encode_eq Decode_wire fits_def)

definition sample_request :: message where
  "sample_request = \<lparr>ServiceID = 0x1234, MethodID = 1, ClientID = 5, SessionID = 1, ProtocolVersion = 0,
     InterfaceVersion = 1, MessageType = MsgTypeRequest, ReturnCode = RetOK, Payload = [112, 105, 110, 103]\<rparr>"

theorem encode_decode_roundtrip_witness:
  "Option.bind (Encode \<lparr>elems = [7], spare = replicate 40 9\<rparr> sample_request)
     (\<lambda>s. Decode (drop 1 (elems s))) = Some (Inr (sample_request\<lparr>ProtocolVersion := 1\<rparr>))"
  using encode_decode_roundtrip [of sample_request "\<lparr>elems = [7], spare = replicate 40 9\<rparr>"]
  by (simp add: sample_request_def)

text \<open>C11: The wire format is canonical: every byte string \<open>Decode\<close> accepts is exactly what \<open>Encode\<close>
  produces for the decoded message, so no two frames decode to the same message.\<close>

theorem decode_canonical:
  assumes "Decode b = Some (Inr m)"
  shows "encode_frame m = Some b \<and> (\<forall>c. Decode c = Some (Inr m) \<longrightarrow> c = b)"
  using message_format.enc_dec [OF assms] message_format.dec_unique [OF _ assms] by auto

definition sample_frame :: "byte list" where
  "sample_frame = [0x12, 0x34, 0, 1, 0, 0, 0, 12, 0, 5, 0, 1, 1, 1, 0, 0, 112, 105, 110, 103]"

lemma Decode_sample_frame: "Decode sample_frame = Some (Inr (sample_request\<lparr>ProtocolVersion := 1\<rparr>))"
  by (simp add: Decode_eq sample_frame_def sample_request_def length_field_def join32_def join16_def
      msg_types ret_codes)

theorem decode_canonical_witness:
  "encode_frame (sample_request\<lparr>ProtocolVersion := 1\<rparr>) = Some sample_frame"
  using decode_canonical [OF Decode_sample_frame] by blast

text \<open>C28: \<open>Decode\<close> never panics on any input, and its outcome is decided by three facts of the input:
  at least 16 bytes, a total size of the Length field plus 8, a protocol version byte of 1. Each
  failure is the documented sentinel; the first two are also \<open>ErrMalformedMessage\<close>, a wrong protocol
  version is not.\<close>

theorem decode_outcome:
  "case Decode b of
     None \<Rightarrow> False
   | Some (Inl e) \<Rightarrow>
       if length b < 16 then errors_is e ErrShortFrame \<and> errors_is e ErrMalformedMessage
       else if int (length b) \<noteq> 8 + uint (length_field b)
       then errors_is e ErrLengthMismatch \<and> errors_is e ErrMalformedMessage
       else b ! 12 \<noteq> 1 \<and> errors_is e ErrWrongProtocolVersion \<and> \<not> errors_is e ErrMalformedMessage
   | Some (Inr m) \<Rightarrow>
       16 \<le> length b \<and> int (length b) = 8 + uint (length_field b) \<and> b ! 12 = 1"
  by (auto simp: Decode_eq ErrShortFrame_def ErrLengthMismatch_def someip_errors)

text \<open>A payload too large for the 32-bit Length field is encoded all the same, with the length
  wrapped around, into a frame that \<open>Decode\<close> rejects: the output of \<open>Encode\<close> is not always decodable.\<close>

theorem encode_oversize_not_decodable:
  assumes "2 ^ 32 \<le> length (Payload m) + 8"
  shows "\<exists>f e. encode_frame m = Some f \<and> Decode f = Some (Inl e) \<and> errors_is e ErrLengthMismatch"
proof -
  let ?n = "length (Payload m)"
  have "uint (length_field (wire m)) < 2 ^ 32"
    using uint_lt2p [of "length_field (wire m)"] by simp
  moreover have "(2::int) ^ 32 \<le> int ?n + 8" using assms by simp
  ultimately have "int (length (wire m)) \<noteq> 8 + uint (length_field (wire m))" by simp
  then show ?thesis by (simp add: Decode_eq)
qed

theorem encode_oversize_not_decodable_witness:
  "\<exists>f e. encode_frame (zero_message\<lparr>Payload := replicate (2 ^ 32) 0\<rparr>) = Some f
     \<and> Decode f = Some (Inl e) \<and> errors_is e ErrLengthMismatch"
  by (rule encode_oversize_not_decodable) simp

end
