(* ===== verification/SD.thy ===== *)
theory SD
  imports SomeIP Interfaces
begin

text \<open>
  SOME/IP service discovery, the wire part and the in-process registry: \<open>src/sd/sd.go\<close>. An
  \<open>Entry\<close> is 16 bytes on the wire; the options array is a chain of length-prefixed options. A
  \<open>net.IP\<close> is its byte slice, the empty list for nil; \<open>To4\<close> is Go's \<open>net.IP.To4\<close>.
\<close>

definition SDServiceID :: u16 where "SDServiceID = 0xFFFF"
definition SDMethodID :: u16 where "SDMethodID = 0x8100"
definition FlagReboot :: u8 where "FlagReboot = 0x80"
definition FlagUnicast :: u8 where "FlagUnicast = 0x40"
definition EntryTypeFind :: u8 where "EntryTypeFind = 0x00"
definition EntryTypeOffer :: u8 where "EntryTypeOffer = 0x01"
definition EntryTypeSubscribe :: u8 where "EntryTypeSubscribe = 0x06"
definition EntryTypeSubscribeAck :: u8 where "EntryTypeSubscribeAck = 0x07"
definition OptionTypeIPv4Endpoint :: u8 where "OptionTypeIPv4Endpoint = 0x04"
definition EntrySize :: int where "EntrySize = 16"
definition ipv4OptionLength :: u16 where "ipv4OptionLength = 9"

definition ErrShortEntry :: goerr where
  "ErrShortEntry = New ''sd: byte slice too short for entry''"
definition ErrShortOption :: goerr where
  "ErrShortOption = New ''sd: byte slice too short for option''"
definition ErrUnknownEntryType :: goerr where
  "ErrUnknownEntryType = New ''sd: unknown entry type''"

lemmas entry_types = EntryTypeFind_def EntryTypeOffer_def EntryTypeSubscribe_def EntryTypeSubscribeAck_def
lemmas sd_consts = EntrySize_def ipv4OptionLength_def OptionTypeIPv4Endpoint_def
lemmas sd_errors = ErrShortEntry_def ErrShortOption_def ErrUnknownEntryType_def

section \<open>Entries\<close>

record Entry =
  e_Type :: u8
  e_Index1 :: u8
  e_Index2 :: u8
  e_NumOpts1 :: u8
  e_NumOpts2 :: u8
  e_ServiceID :: u16
  e_InstanceID :: u16
  e_MajorVersion :: u8
  e_TTL :: u32
  e_MinorVersion :: u32
  e_EventgroupID :: u16

definition zero_entry :: Entry where
  "zero_entry = \<lparr>e_Type = 0, e_Index1 = 0, e_Index2 = 0, e_NumOpts1 = 0, e_NumOpts2 = 0, e_ServiceID = 0,
     e_InstanceID = 0, e_MajorVersion = 0, e_TTL = 0, e_MinorVersion = 0, e_EventgroupID = 0\<rparr>"

definition EncodeEntry :: "byte list \<Rightarrow> Entry \<Rightarrow> byte list option" where
  "EncodeEntry dst e = do {
     let b = replicate (nat EntrySize) 0;
     b \<leftarrow> upd b 0 (e_Type e);
     b \<leftarrow> upd b 1 (e_Index1 e);
     b \<leftarrow> upd b 2 (e_Index2 e);
     let numOpts1 = (if e_NumOpts1 e > 0x0F then 0x0F else e_NumOpts1 e);
     let numOpts2 = (if e_NumOpts2 e > 0x0F then 0x0F else e_NumOpts2 e);
     b \<leftarrow> upd b 3 (push_bit 4 numOpts1 OR numOpts2);
     b \<leftarrow> put16 b 4 6 (e_ServiceID e);
     b \<leftarrow> put16 b 6 8 (e_InstanceID e);
     b \<leftarrow> upd b 8 (e_MajorVersion e);
     b \<leftarrow> upd b 9 (ucast (drop_bit 16 (e_TTL e)));
     b \<leftarrow> upd b 10 (ucast (drop_bit 8 (e_TTL e)));
     b \<leftarrow> upd b 11 (ucast (e_TTL e));
     b \<leftarrow> (if e_Type e = EntryTypeSubscribe \<or> e_Type e = EntryTypeSubscribeAck
           then put16 b 14 16 (e_EventgroupID e) else put32 b 12 16 (e_MinorVersion e));
     Some (dst @ b)
   }"

definition DecodeEntry :: "byte list \<Rightarrow> (goerr + Entry) option" where
  "DecodeEntry b =
     (if int (length b) < EntrySize then Some (Inl (Errorf ''got, need'' ErrShortEntry))
      else do {
        b0 \<leftarrow> idx b 0; b1 \<leftarrow> idx b 1; b2 \<leftarrow> idx b 2; b3 \<leftarrow> idx b 3;
        sid \<leftarrow> Option.bind (sub b 4 6) be16;
        iid \<leftarrow> Option.bind (sub b 6 8) be16;
        b8 \<leftarrow> idx b 8; b9 \<leftarrow> idx b 9; b10 \<leftarrow> idx b 10; b11 \<leftarrow> idx b 11;
        let e = \<lparr>e_Type = b0, e_Index1 = b1, e_Index2 = b2, e_NumOpts1 = drop_bit 4 b3, e_NumOpts2 = b3 AND 0x0F,
                 e_ServiceID = sid, e_InstanceID = iid, e_MajorVersion = b8,
                 e_TTL = push_bit 16 (ucast b9) OR push_bit 8 (ucast b10) OR ucast b11,
                 e_MinorVersion = 0, e_EventgroupID = 0\<rparr>;
        if e_Type e = EntryTypeFind \<or> e_Type e = EntryTypeOffer
        then do { mv \<leftarrow> Option.bind (sub b 12 16) be32; Some (Inr (e\<lparr>e_MinorVersion := mv\<rparr>)) }
        else if e_Type e = EntryTypeSubscribe \<or> e_Type e = EntryTypeSubscribeAck
        then do { eg \<leftarrow> Option.bind (sub b 14 16) be16; Some (Inr (e\<lparr>e_EventgroupID := eg\<rparr>)) }
        else Some (Inl (Errorf ''type'' ErrUnknownEntryType))
      })"

section \<open>IPv4 endpoint options\<close>

record IPv4EndpointOption =
  ep_IP :: "byte list"
  ep_Protocol :: u8
  ep_Port :: u16

definition zero_endpoint :: IPv4EndpointOption where
  "zero_endpoint = \<lparr>ep_IP = [], ep_Protocol = 0, ep_Port = 0\<rparr>"

definition To4 :: "byte list \<Rightarrow> byte list option" where
  "To4 ip =
     (if length ip = 4 then Some ip
      else if length ip = 16 \<and> take 10 ip = replicate 10 0 \<and> ip ! 10 = 0xff \<and> ip ! 11 = 0xff
      then Some (drop 12 ip) else None)"

definition EncodeIPv4Option :: "byte list \<Rightarrow> u8 \<Rightarrow> IPv4EndpointOption \<Rightarrow> byte list option" where
  "EncodeIPv4Option dst optType opt = do {
     let b = replicate 12 0;
     b \<leftarrow> put16 b 0 2 ipv4OptionLength;
     b \<leftarrow> upd b 2 optType;
     b \<leftarrow> upd b 3 0x00;
     b \<leftarrow> (case To4 (ep_IP opt) of Some ip \<Rightarrow> copy_into b 4 8 ip | None \<Rightarrow> Some b);
     b \<leftarrow> upd b 8 0x00;
     b \<leftarrow> upd b 9 (ep_Protocol opt);
     b \<leftarrow> put16 b 10 12 (ep_Port opt);
     Some (dst @ b)
   }"

definition DecodeIPv4Option :: "byte list \<Rightarrow> (goerr + IPv4EndpointOption) option" where
  "DecodeIPv4Option b =
     (if int (length b) < 12 then Some (Inl (Errorf ''got, need 12'' ErrShortOption))
      else do {
        s \<leftarrow> sub b 4 8;
        ip \<leftarrow> copy_into (replicate 4 0) 0 4 s;
        pr \<leftarrow> idx b 9;
        port \<leftarrow> Option.bind (sub b 10 12) be16;
        Some (Inr \<lparr>ep_IP = ip, ep_Protocol = pr, ep_Port = port\<rparr>)
      })"

section \<open>The options array\<close>

record Option =
  opt_Type :: u8
  opt_Raw :: "byte list"

text \<open>The loop of \<open>DecodeOptions\<close>; \<^term>\<open>None\<close> stands for a panic or a loop that does not end.\<close>

partial_function (option) options_loop ::
    "byte list \<Rightarrow> int \<Rightarrow> Option list \<Rightarrow> (goerr + Option list) option" where
  "options_loop b offset opts =
     (if offset < int (length b)
      then (if offset + 3 > int (length b)
            then Some (Inl (Errorf ''truncated option header'' ErrShortOption))
            else do {
              len16 \<leftarrow> Option.bind (sub b offset (offset + 2)) be16;
              optType \<leftarrow> idx b (offset + 2);
              let size = 2 + 1 + uint len16;
              if uint len16 < 1 \<or> offset + size > int (length b)
              then Some (Inl (Errorf ''option length exceeds remaining options bytes'' ErrShortOption))
              else do {
                raw \<leftarrow> sub b offset (offset + size);
                options_loop b (offset + size) (opts @ [\<lparr>opt_Type = optType, opt_Raw = raw\<rparr>])
              }
            })
      else Some (Inr opts))"

declare options_loop.simps [code]

definition DecodeOptions :: "byte list \<Rightarrow> (goerr + Option list) option" where
  "DecodeOptions b = options_loop b 0 []"

text \<open>\<open>ResolveIPv4Endpoint\<close>: its inner loop over one run, and the two runs in order.\<close>

fun resolve_run :: "Option list \<Rightarrow> IPv4EndpointOption option option" where
  "resolve_run [] = Some None"
| "resolve_run (opt # rest) =
     (if opt_Type opt \<noteq> OptionTypeIPv4Endpoint then resolve_run rest
      else do {
        x \<leftarrow> DecodeIPv4Option (opt_Raw opt);
        case x of Inr ep \<Rightarrow> Some (Some ep) | Inl _ \<Rightarrow> resolve_run rest
      })"

fun resolve_runs :: "(u8 \<times> u8) list \<Rightarrow> Option list \<Rightarrow> IPv4EndpointOption option option" where
  "resolve_runs [] opts = Some None"
| "resolve_runs ((i, n) # rest) opts =
     (let index = uint i; num = uint n
      in if num = 0 then resolve_runs rest opts
         else if index < 0 \<or> num < 0 \<or> index + num > int (length opts) then resolve_runs rest opts
         else do {
           run \<leftarrow> sub opts index (index + num);
           x \<leftarrow> resolve_run run;
           case x of Some ep \<Rightarrow> Some (Some ep) | None \<Rightarrow> resolve_runs rest opts
         })"

definition ResolveIPv4Endpoint :: "Entry \<Rightarrow> Option list \<Rightarrow> IPv4EndpointOption option option" where
  "ResolveIPv4Endpoint entry opts =
     resolve_runs [(e_Index1 entry, e_NumOpts1 entry), (e_Index2 entry, e_NumOpts2 entry)] opts"

section \<open>The in-process registry\<close>

record ServiceRecord =
  sr_Entry :: Entry
  sr_Endpoint :: IPv4EndpointOption
  sr_Expires :: int

type_synonym registryKey = "u16 \<times> u16"
type_synonym Registry = "(registryKey \<times> ServiceRecord) list"

definition NewRegistry :: Registry where "NewRegistry = []"

text \<open>The services map is an association list with one entry a key. Times are nanoseconds.\<close>

definition Offer :: "Registry \<Rightarrow> int \<Rightarrow> Entry \<Rightarrow> IPv4EndpointOption \<Rightarrow> Registry" where
  "Offer services now entry endpoint =
     (let key = (e_ServiceID entry, e_InstanceID entry)
      in if e_TTL entry = 0 then AList.delete key services
         else AList.update key \<lparr>sr_Entry = entry, sr_Endpoint = endpoint,
                sr_Expires = now + uint (e_TTL entry) * 1000000000\<rparr> services)"

text \<open>The loop of \<open>Find\<close> visits the map in an order of Go's choosing: \<open>ord\<close>.\<close>

fun find_loop :: "(registryKey \<times> ServiceRecord) list \<Rightarrow> int \<Rightarrow> u16 \<Rightarrow> ServiceRecord list" where
  "find_loop [] now serviceID = []"
| "find_loop ((_, rec) # rest) now serviceID =
     (if sr_Expires rec < now then find_loop rest now serviceID
      else if serviceID \<noteq> 0xFFFF \<and> e_ServiceID (sr_Entry rec) \<noteq> serviceID then find_loop rest now serviceID
      else rec # find_loop rest now serviceID)"

definition Find :: "(Registry \<Rightarrow> Registry) \<Rightarrow> Registry \<Rightarrow> int \<Rightarrow> u16 \<Rightarrow> ServiceRecord list" where
  "Find ord services now serviceID = find_loop (ord services) now serviceID"

section \<open>The layout of an entry\<close>

text \<open>The 16 bytes as a list, and what of an entry they carry.\<close>

definition nibble :: "u8 \<Rightarrow> u8" where
  "nibble n = (if n > 0x0F then 0x0F else n)"

definition is_subscribe :: "u8 \<Rightarrow> bool" where
  "is_subscribe t \<longleftrightarrow> t = EntryTypeSubscribe \<or> t = EntryTypeSubscribeAck"

definition known_entry_type :: "u8 \<Rightarrow> bool" where
  "known_entry_type t \<longleftrightarrow> t = EntryTypeFind \<or> t = EntryTypeOffer \<or> is_subscribe t"

definition entry_wire :: "Entry \<Rightarrow> byte list" where
  "entry_wire e =
     [e_Type e, e_Index1 e, e_Index2 e, push_bit 4 (nibble (e_NumOpts1 e)) OR nibble (e_NumOpts2 e)]
     @ bytes16 (e_ServiceID e) @ bytes16 (e_InstanceID e)
     @ [e_MajorVersion e, ucast (drop_bit 16 (e_TTL e)), ucast (drop_bit 8 (e_TTL e)), ucast (e_TTL e)]
     @ (if is_subscribe (e_Type e) then [0, 0] @ bytes16 (e_EventgroupID e) else bytes32 (e_MinorVersion e))"

definition entry_carried :: "Entry \<Rightarrow> Entry" where
  "entry_carried e = e\<lparr>e_NumOpts1 := nibble (e_NumOpts1 e), e_NumOpts2 := nibble (e_NumOpts2 e),
     e_TTL := take_bit 24 (e_TTL e),
     e_MinorVersion := (if is_subscribe (e_Type e) then 0 else e_MinorVersion e),
     e_EventgroupID := (if is_subscribe (e_Type e) then e_EventgroupID e else 0)\<rparr>"

lemma length_entry_wire [simp]: "length (entry_wire e) = 16"
  by (simp add: entry_wire_def)

lemma EncodeEntry_eq: "EncodeEntry dst e = Some (dst @ entry_wire e)"
  by (simp add: EncodeEntry_def entry_wire_def EntrySize_def upd_def put16_def put32_def copy_into_def
      bytes16_def bytes32_def nibble_def is_subscribe_def eval_nat_numeral Let_def)

lemma word_less_16: "(n :: u8) < 0x10 \<longleftrightarrow> drop_bit 4 n = 0"
  by (simp add: drop_bit_eq_div word_eq_iff_unsigned word_less_nat_alt unat_div div_eq_0_iff flip: unat_eq_0)

lemma nibble_high_bit: "4 \<le> k \<Longrightarrow> \<not> bit (nibble n) k"
proof -
  assume k: "4 \<le> k"
  have "nibble n < 0x10"
    by (cases "n > 0x0F") (simp_all add: nibble_def word_less_nat_alt word_le_nat_alt not_less)
  then have "drop_bit 4 (nibble n) = 0" by (simp add: word_less_16)
  then have "\<not> bit (drop_bit 4 (nibble n)) (k - 4)" by simp
  then show ?thesis using k by (simp add: bit_drop_bit_eq)
qed

lemma nibble_bit: "bit (nibble n) k \<Longrightarrow> k < 4"
  using nibble_high_bit [of k n] by force

lemma nibbles_split:
  "drop_bit 4 (push_bit 4 (nibble a) OR nibble b) = nibble a"
  "(push_bit 4 (nibble a) OR nibble b) AND 0x0F = nibble b"
proof -
  show "drop_bit 4 (push_bit 4 (nibble a) OR nibble b) = nibble a"
    by (rule bit_word_eqI) (auto simp: bit_simps nibble_high_bit dest: nibble_bit)
  have m: "(0x0F :: u8) = mask 4" by (simp add: mask_numeral)
  show "(push_bit 4 (nibble a) OR nibble b) AND 0x0F = nibble b"
    unfolding m by (rule bit_word_eqI) (auto simp: bit_simps dest: nibble_bit)
qed

lemma ttl_split:
  "push_bit 16 (ucast (ucast (drop_bit 16 (v :: u32)) :: u8)) OR push_bit 8 (ucast (ucast (drop_bit 8 v) :: u8))
     OR ucast (ucast v :: u8) = (take_bit 24 v :: u32)"
proof (rule bit_word_eqI)
  fix n
  assume "n < LENGTH(32)"
  then consider "n < 8" | "8 \<le> n" "n < 16" | "16 \<le> n" "n < 24" | "24 \<le> n" "n < 32" by fastforce
  then show "bit (push_bit 16 (ucast (ucast (drop_bit 16 v) :: u8)) OR push_bit 8 (ucast (ucast (drop_bit 8 v) :: u8))
     OR ucast (ucast v :: u8) :: u32) n \<longleftrightarrow> bit (take_bit 24 v) n"
    by cases (auto simp: bit_simps)
qed

text \<open>\<open>DecodeEntry\<close> on every branch.\<close>

definition read_entry :: "byte list \<Rightarrow> Entry" where
  "read_entry b = \<lparr>e_Type = b ! 0, e_Index1 = b ! 1, e_Index2 = b ! 2,
     e_NumOpts1 = drop_bit 4 (b ! 3), e_NumOpts2 = b ! 3 AND 0x0F,
     e_ServiceID = join16 (b ! 4) (b ! 5), e_InstanceID = join16 (b ! 6) (b ! 7), e_MajorVersion = b ! 8,
     e_TTL = push_bit 16 (ucast (b ! 9)) OR push_bit 8 (ucast (b ! 10)) OR ucast (b ! 11),
     e_MinorVersion = (if is_subscribe (b ! 0) then 0 else join32 (b ! 12) (b ! 13) (b ! 14) (b ! 15)),
     e_EventgroupID = (if is_subscribe (b ! 0) then join16 (b ! 14) (b ! 15) else 0)\<rparr>"

lemma DecodeEntry_eq:
  "DecodeEntry b = Some
     (if length b < 16 then Inl (Errorf ''got, need'' ErrShortEntry)
      else if known_entry_type (b ! 0) then Inr (read_entry b)
      else Inl (Errorf ''type'' ErrUnknownEntryType))"
proof (cases "length b < 16")
  case False
  then obtain b0 b1 b2 b3 b4 b5 b6 b7 b8 b9 b10 b11 b12 b13 b14 b15 r where
    b: "b = b0 # b1 # b2 # b3 # b4 # b5 # b6 # b7 # b8 # b9 # b10 # b11 # b12 # b13 # b14 # b15 # r"
    using length_ge_16 [of b] by auto
  show ?thesis
    unfolding b
    by (simp add: DecodeEntry_def EntrySize_def idx_def sub_def read_entry_def known_entry_type_def
        is_subscribe_def entry_types Let_def)
qed (simp add: DecodeEntry_def EntrySize_def)

lemma read_entry_wire: "read_entry (entry_wire e @ rest) = entry_carried e"
  by (cases e) (simp add: read_entry_def entry_wire_def entry_carried_def bytes16_def bytes32_def
      nibbles_split [unfolded drop_bit_or] ttl_split)

lemma entry_wire_Type: "(entry_wire e @ rest) ! 0 = e_Type e"
  by (simp add: entry_wire_def)

lemma DecodeEntry_wire:
  "known_entry_type (e_Type e) \<Longrightarrow> DecodeEntry (entry_wire e @ rest) = Some (Inr (entry_carried e))"
  by (simp add: DecodeEntry_eq read_entry_wire entry_wire_Type)

interpretation entry_format: wire_format entry_wire DecodeEntry
  "\<lambda>e. known_entry_type (e_Type e) \<and> entry_carried e = e"
  using DecodeEntry_wire [where rest = "[]"] by unfold_locales auto

section \<open>Options\<close>

lemma length_To4: "To4 ip = Some a \<Longrightarrow> length a = 4"
  by (auto simp: To4_def split: if_splits)

definition ipv4_wire :: "u8 \<Rightarrow> IPv4EndpointOption \<Rightarrow> byte list" where
  "ipv4_wire t ep = [0, 9, t, 0] @ (case To4 (ep_IP ep) of Some ip \<Rightarrow> ip | None \<Rightarrow> [0, 0, 0, 0])
     @ [0, ep_Protocol ep] @ bytes16 (ep_Port ep)"

lemma length_ipv4_wire [simp]: "length (ipv4_wire t ep) = 12"
  by (simp add: ipv4_wire_def length_To4 split: option.split)

lemma bytes16_option_length: "bytes16 ipv4OptionLength = [0, 9]"
  by (simp add: bytes16_def ipv4OptionLength_def)

lemma EncodeIPv4Option_eq: "EncodeIPv4Option dst t ep = Some (dst @ ipv4_wire t ep)"
proof (cases "To4 (ep_IP ep)")
  case (Some ip)
  then obtain a b c d where "ip = [a, b, c, d]"
    using length_To4 length_ge_4 [of ip] by fastforce
  with Some show ?thesis
    by (simp add: EncodeIPv4Option_def ipv4_wire_def put16_def copy_into_def upd_def bytes16_def [of "ep_Port ep"]
        bytes16_option_length eval_nat_numeral)
qed (simp add: EncodeIPv4Option_def ipv4_wire_def put16_def copy_into_def upd_def bytes16_def [of "ep_Port ep"]
      bytes16_option_length eval_nat_numeral)

lemma DecodeIPv4Option_eq:
  "DecodeIPv4Option b = Some
     (if length b < 12 then Inl (Errorf ''got, need 12'' ErrShortOption)
      else Inr \<lparr>ep_IP = take 4 (drop 4 b), ep_Protocol = b ! 9, ep_Port = join16 (b ! 10) (b ! 11)\<rparr>)"
proof (cases "length b < 12")
  case False
  then obtain b0 b1 b2 b3 b4 b5 b6 b7 b8 b9 b10 b11 r where
    b: "b = b0 # b1 # b2 # b3 # b4 # b5 # b6 # b7 # b8 # b9 # b10 # b11 # r"
    using length_ge_12 [of b] by auto
  show ?thesis unfolding b by (simp add: DecodeIPv4Option_def sub_def idx_def copy_into_def)
qed (simp add: DecodeIPv4Option_def)

lemma DecodeIPv4Option_wire:
  "length (ep_IP ep) = 4 \<Longrightarrow> DecodeIPv4Option (ipv4_wire t ep @ rest) = Some (Inr ep)"
proof -
  assume l: "length (ep_IP ep) = 4"
  then obtain a b c d where "ep_IP ep = [a, b, c, d]"
    using length_ge_4 [of "ep_IP ep"] by fastforce
  then show ?thesis
    by (cases ep) (simp add: DecodeIPv4Option_eq ipv4_wire_def To4_def bytes16_def)
qed

interpretation ipv4_format: wire_format "ipv4_wire OptionTypeIPv4Endpoint" DecodeIPv4Option
  "\<lambda>ep. length (ep_IP ep) = 4"
  using DecodeIPv4Option_wire [where rest = "[]"] by unfold_locales auto

text \<open>An option as it stands on the wire: a two-byte length that counts the bytes after the type,
  the type, and at least one byte.\<close>

definition option_ok :: "Option \<Rightarrow> bool" where
  "option_ok opt \<longleftrightarrow> 4 \<le> length (opt_Raw opt) \<and> opt_Raw opt ! 2 = opt_Type opt
     \<and> int (length (opt_Raw opt)) = 3 + uint (join16 (opt_Raw opt ! 0) (opt_Raw opt ! 1))"

text \<open>The reference: the chain of options, one at a time.\<close>

function parse_options :: "byte list \<Rightarrow> goerr + Option list" where
  "parse_options b =
     (if b = [] then Inr []
      else if length b < 3 then Inl (Errorf ''truncated option header'' ErrShortOption)
      else let n = unat (join16 (b ! 0) (b ! 1))
           in if n = 0 \<or> length b < 3 + n
              then Inl (Errorf ''option length exceeds remaining options bytes'' ErrShortOption)
              else map_sum id (\<lambda>os. \<lparr>opt_Type = b ! 2, opt_Raw = take (3 + n) b\<rparr> # os)
                     (parse_options (drop (3 + n) b)))"
  by pat_completeness auto
termination
  by (relation "measure length") auto

declare parse_options.simps [simp del]

lemma options_loop_eq:
  "off \<le> length b \<Longrightarrow>
   options_loop b (int off) opts = Some (map_sum id (\<lambda>os. opts @ os) (parse_options (drop off b)))"
proof (induction "length b - off" arbitrary: off opts rule: less_induct)
  case less
  let ?d = "drop off b"
  show ?case
  proof (cases "3 \<le> length ?d")
    case False
    show ?thesis
    proof (cases "off < length b")
      case True
      with False have "int off + 3 > int (length b)" by simp
      with True False show ?thesis by (simp add: options_loop.simps parse_options.simps)
    next
      case False
      with less.prems show ?thesis by (simp add: options_loop.simps parse_options.simps)
    qed
  next
    case True
    then obtain b0 b1 b2 r where d: "?d = b0 # b1 # b2 # r"
      using length_ge_3 by blast
    have "length b - off = 3 + length r" using d by (simp flip: length_drop)
    then have len: "length b = off + 3 + length r" using less.prems by linarith
    have sub: "sub b (int off) (int off + int k) = Some (take k ?d)" if "off + k \<le> length b" for k
      using that by (simp add: sub_def)
    have hdr: "Option.bind (sub b (int off) (int off + 2)) be16 = Some (join16 b0 b1)"
      using sub [of 2] len by (simp add: d)
    have ty: "idx b (int off + 2) = Some b2"
    proof -
      have "b ! (off + 2) = ?d ! 2" using less.prems by (simp add: nth_drop)
      then have "b ! (off + 2) = b2" by (simp add: d)
      moreover have "nat (int off + 2) = off + 2" by simp
      ultimately show ?thesis using len by (simp add: idx_def)
    qed
    define n where "n = unat (join16 b0 b1)"
    have u: "uint (join16 b0 b1) = int n" by (simp add: n_def)
    have step: "options_loop b (int off) opts =
       (if n = 0 \<or> length r < n
        then Some (Inl (Errorf ''option length exceeds remaining options bytes'' ErrShortOption))
        else options_loop b (int (off + 3 + n)) (opts @ [\<lparr>opt_Type = b2, opt_Raw = take (3 + n) ?d\<rparr>]))"
    proof -
      have a: "(uint (join16 b0 b1) < 1 \<or> int off + (2 + 1 + uint (join16 b0 b1)) > int (length b))
          \<longleftrightarrow> n = 0 \<or> length r < n"
        unfolding u len by auto
      have b: "sub b (int off) (int off + (2 + 1 + uint (join16 b0 b1))) = Some (take (3 + n) ?d)"
        if "\<not> (n = 0 \<or> length r < n)"
      proof -
        have e: "int off + (2 + 1 + uint (join16 b0 b1)) = int off + int (3 + n)" unfolding u by simp
        show ?thesis unfolding e using that len by (intro sub) simp
      qed
      have c: "int off + (2 + 1 + uint (join16 b0 b1)) = int (off + 3 + n)" unfolding u by simp
      have le: "int off < int (length b)" "\<not> int off + 3 > int (length b)" using len by auto
      show ?thesis
        using a b le unfolding c
        by (subst options_loop.simps) (simp only: if_True if_False hdr ty Option.bind.simps Let_def c split: if_split, auto)
    qed
    have ref: "parse_options ?d =
       (if n = 0 \<or> length r < n
        then Inl (Errorf ''option length exceeds remaining options bytes'' ErrShortOption)
        else map_sum id (\<lambda>os. \<lparr>opt_Type = b2, opt_Raw = take (3 + n) ?d\<rparr> # os)
               (parse_options (drop (off + 3 + n) b)))"
    proof -
      have "drop (3 + n) ?d = drop (off + 3 + n) b" by (simp add: ac_simps)
      then show ?thesis by (subst parse_options.simps) (simp add: d Let_def n_def)
    qed
    show ?thesis
    proof (cases "n = 0 \<or> length r < n")
      case False
      then have "options_loop b (int (off + 3 + n)) (opts @ [\<lparr>opt_Type = b2, opt_Raw = take (3 + n) ?d\<rparr>])
          = Some (map_sum id (\<lambda>os. (opts @ [\<lparr>opt_Type = b2, opt_Raw = take (3 + n) ?d\<rparr>]) @ os)
                   (parse_options (drop (off + 3 + n) b)))"
        using len by (intro less.hyps) auto
      with False show ?thesis
        unfolding step ref by (cases "parse_options (drop (off + 3 + n) b)") simp_all
    qed (simp add: step ref)
  qed
qed

lemma DecodeOptions_eq: "DecodeOptions b = Some (parse_options b)"
proof -
  have "map_sum id (\<lambda>os. os) x = x" for x :: "goerr + Option list" by (cases x) simp_all
  then show ?thesis using options_loop_eq [of 0 b "[]"] by (simp add: DecodeOptions_def)
qed

lemma option_ok_shape:
  assumes "option_ok opt"
  obtains b0 b1 b2 r where "opt_Raw opt = b0 # b1 # b2 # r" "opt_Type opt = b2"
    "length r = unat (join16 b0 b1)" "unat (join16 b0 b1) \<noteq> 0"
proof -
  obtain b0 b1 b2 r where raw: "opt_Raw opt = b0 # b1 # b2 # r"
    using assms length_ge_3 [of "opt_Raw opt"] by (auto simp: option_ok_def)
  have "int (length r) = uint (join16 b0 b1)" using assms by (simp add: option_ok_def raw)
  then have "length r = unat (join16 b0 b1)" by (metis nat_int unat_eq_nat_uint)
  with assms raw that show thesis by (auto simp: option_ok_def)
qed

lemma parse_options_encode: "list_all option_ok os \<Longrightarrow> parse_options (concat (map opt_Raw os)) = Inr os"
proof (induction os)
  case (Cons opt os)
  from Cons.prems have "option_ok opt" by simp
  then obtain b0 b1 b2 r where r: "opt_Raw opt = b0 # b1 # b2 # r" "opt_Type opt = b2"
    "length r = unat (join16 b0 b1)" "unat (join16 b0 b1) \<noteq> 0" by (rule option_ok_shape)
  define n where "n = unat (join16 b0 b1)"
  have "opt = \<lparr>opt_Type = b2, opt_Raw = b0 # b1 # b2 # r\<rparr>" using r(1,2) by (cases opt) simp
  then show ?case
    using Cons r(3,4) unfolding n_def [symmetric]
    by (subst parse_options.simps) (simp add: r(1) Let_def n_def [symmetric] eval_nat_numeral)
qed (simp add: parse_options.simps)

lemma parse_options_canonical:
  "parse_options b = Inr os \<Longrightarrow> concat (map opt_Raw os) = b \<and> list_all option_ok os"
proof (induction b arbitrary: os rule: parse_options.induct)
  case (1 b)
  define n where "n = unat (join16 (b ! 0) (b ! 1))"
  consider "b = []" | "b \<noteq> []" "length b < 3" | "\<not> length b < 3" "n = 0 \<or> length b < 3 + n"
    | (step) "b \<noteq> []" "\<not> length b < 3" "\<not> (n = 0 \<or> length b < 3 + n)" by fastforce
  then show ?case
  proof cases
    case step
    then have eq: "parse_options b = map_sum id (\<lambda>os. \<lparr>opt_Type = b ! 2, opt_Raw = take (3 + n) b\<rparr> # os)
        (parse_options (drop (3 + n) b))"
      by (subst parse_options.simps) (simp add: n_def Let_def)
    then obtain rest where rest: "parse_options (drop (3 + n) b) = Inr rest"
      and os: "os = \<lparr>opt_Type = b ! 2, opt_Raw = take (3 + n) b\<rparr> # rest"
      using "1.prems" by (cases "parse_options (drop (3 + n) b)") auto
    have "concat (map opt_Raw rest) = drop (3 + n) b \<and> list_all option_ok rest"
      using "1.IH" [OF step(1,2) n_def _ rest] step(3) by simp
    moreover have "option_ok \<lparr>opt_Type = b ! 2, opt_Raw = take (3 + n) b\<rparr>"
      using step(3) by (auto simp: option_ok_def n_def min_def)
    ultimately show ?thesis by (simp add: os)
  next
    case 3
    with "1.prems" show ?thesis by (subst (asm) parse_options.simps) (auto simp: n_def Let_def split: if_splits)
  qed (use "1.prems" in \<open>simp_all add: parse_options.simps\<close>)
qed

lemma parse_options_error: "parse_options b = Inl e \<Longrightarrow> errors_is e ErrShortOption"
proof (induction b arbitrary: e rule: parse_options.induct)
  case (1 b)
  show ?case
  proof (cases "parse_options (drop (3 + unat (join16 (b ! 0) (b ! 1))) b)")
    case (Inl a)
    with 1 show ?thesis by (subst (asm) (2) parse_options.simps) (auto simp: Let_def split: if_splits)
  next
    case (Inr a)
    with 1 show ?thesis by (subst (asm) (2) parse_options.simps) (auto simp: Let_def split: if_splits)
  qed
qed

text \<open>The byte strings that are a chain of options.\<close>

function option_chain :: "byte list \<Rightarrow> bool" where
  "option_chain b =
     (if b = [] then True
      else if length b < 3 then False
      else let n = unat (join16 (b ! 0) (b ! 1)) in if n = 0 \<or> length b < 3 + n then False else option_chain (drop (3 + n) b))"
  by pat_completeness auto
termination
  by (relation "measure length") auto

declare option_chain.simps [simp del]

lemma parse_options_chain: "option_chain b \<longleftrightarrow> (\<exists>os. parse_options b = Inr os)"
proof (induction b rule: option_chain.induct)
  case (1 b)
  define n where "n = unat (join16 (b ! 0) (b ! 1))"
  show ?case
  proof (cases "b = [] \<or> length b < 3 \<or> n = 0 \<or> length b < 3 + n")
    case False
    then have "option_chain (drop (3 + n) b) \<longleftrightarrow> (\<exists>os. parse_options (drop (3 + n) b) = Inr os)" using "1.IH" [OF _ _ n_def] by blast
    moreover have "option_chain b \<longleftrightarrow> option_chain (drop (3 + n) b)" using False by (subst option_chain.simps) (simp add: n_def Let_def)
    moreover have "parse_options b = map_sum id (\<lambda>os. \<lparr>opt_Type = b ! 2, opt_Raw = take (3 + n) b\<rparr> # os) (parse_options (drop (3 + n) b))"
      using False by (subst parse_options.simps) (simp add: n_def Let_def)
    ultimately show ?thesis by (cases "parse_options (drop (3 + n) b)") simp_all
  qed (subst parse_options.simps, subst option_chain.simps, auto simp: n_def Let_def)
qed

interpretation options_format: canonical_format "\<lambda>os. concat (map opt_Raw os)" DecodeOptions "list_all option_ok"
proof unfold_locales
  fix os assume "list_all option_ok os"
  then show "DecodeOptions (concat (map opt_Raw os)) = Some (Inr os)"
    by (simp add: DecodeOptions_eq parse_options_encode)
next
  fix b os assume "DecodeOptions b = Some (Inr os)"
  then show "concat (map opt_Raw os) = b \<and> list_all option_ok os"
    by (auto simp: DecodeOptions_eq dest: parse_options_canonical)
qed

lemma option_ok_ipv4: "option_ok \<lparr>opt_Type = t, opt_Raw = ipv4_wire t ep\<rparr>"
  by (simp add: option_ok_def) (simp add: ipv4_wire_def join16_def)

section \<open>Resolving the endpoint of an offer\<close>

definition endpoint_of :: "Option \<Rightarrow> IPv4EndpointOption option" where
  "endpoint_of opt =
     (if opt_Type opt = OptionTypeIPv4Endpoint \<and> 12 \<le> length (opt_Raw opt)
      then Some \<lparr>ep_IP = take 4 (drop 4 (opt_Raw opt)), ep_Protocol = opt_Raw opt ! 9,
             ep_Port = join16 (opt_Raw opt ! 10) (opt_Raw opt ! 11)\<rparr>
      else None)"

text \<open>The options an entry refers to: its two runs, a run that leaves the array counting as empty.\<close>

definition entry_run :: "Option list \<Rightarrow> u8 \<Rightarrow> u8 \<Rightarrow> Option list" where
  "entry_run opts i n = (if unat i + unat n \<le> length opts then take (unat n) (drop (unat i) opts) else [])"

definition referenced_options :: "Entry \<Rightarrow> Option list \<Rightarrow> Option list" where
  "referenced_options e opts =
     entry_run opts (e_Index1 e) (e_NumOpts1 e) @ entry_run opts (e_Index2 e) (e_NumOpts2 e)"

fun first_some :: "'a option list \<Rightarrow> 'a option" where
  "first_some [] = None"
| "first_some (Some x # xs) = Some x"
| "first_some (None # xs) = first_some xs"

lemma first_some_append: "first_some (xs @ ys) = (case first_some xs of None \<Rightarrow> first_some ys | Some x \<Rightarrow> Some x)"
  by (induction xs rule: first_some.induct) auto

lemma resolve_run_eq: "resolve_run opts = Some (first_some (map endpoint_of opts))"
  by (induction opts) (auto simp: endpoint_of_def DecodeIPv4Option_eq)

lemma resolve_runs_eq:
  "resolve_runs runs opts = Some (first_some (map endpoint_of (concat (map (\<lambda>(i, n). entry_run opts i n) runs))))"
proof (induction runs)
  case (Cons r runs)
  obtain i n where r: "r = (i, n)" by (cases r)
  have u: "uint i = int (unat i)" "uint n = int (unat n)" by simp_all
  have z: "uint n = 0 \<longleftrightarrow> unat n = 0" by (simp add: uint_0_iff unat_eq_zero)
  consider "unat n = 0" | "unat n \<noteq> 0" "\<not> unat i + unat n \<le> length opts"
    | (run) "unat n \<noteq> 0" "unat i + unat n \<le> length opts" by blast
  then show ?case
  proof cases
    case 1
    then have "entry_run opts i n = []" by (simp add: entry_run_def)
    with 1 Cons show ?thesis by (simp add: r z Let_def)
  next
    case 2
    then have "uint i + uint n > int (length opts)" using u by linarith
    with 2 Cons show ?thesis by (simp add: r z Let_def entry_run_def)
  next
    case run
    then have "\<not> uint i + uint n > int (length opts)" using u by linarith
    moreover have "sub opts (uint i) (uint i + uint n) = Some (entry_run opts i n)"
      using run sub_int [of "unat i" "unat n" opts] by (simp add: entry_run_def)
    ultimately show ?thesis
      using run Cons by (simp add: r z Let_def resolve_run_eq first_some_append split: option.split)
  qed
qed simp

lemma ResolveIPv4Endpoint_eq:
  "ResolveIPv4Endpoint e opts = Some (first_some (map endpoint_of (referenced_options e opts)))"
  by (simp add: ResolveIPv4Endpoint_def resolve_runs_eq referenced_options_def)

lemma endpoint_of_ipv4:
  "length (ep_IP ep) = 4 \<Longrightarrow>
   endpoint_of \<lparr>opt_Type = OptionTypeIPv4Endpoint, opt_Raw = ipv4_wire OptionTypeIPv4Endpoint ep\<rparr> = Some ep"
  using DecodeIPv4Option_wire [of ep OptionTypeIPv4Endpoint "[]"]
  by (simp add: endpoint_of_def DecodeIPv4Option_eq)

section \<open>The registry and its abstract content\<close>

text \<open>An offer as the registry sees it: the time, the entry, the endpoint.\<close>

type_synonym offer = "int \<times> Entry \<times> IPv4EndpointOption"

definition offer_key :: "offer \<Rightarrow> registryKey" where
  "offer_key = (\<lambda>(t, e, ep). (e_ServiceID e, e_InstanceID e))"

definition offer_record :: "offer \<Rightarrow> ServiceRecord option" where
  "offer_record = (\<lambda>(t, e, ep). if e_TTL e = 0 then None
     else Some \<lparr>sr_Entry = e, sr_Endpoint = ep, sr_Expires = t + uint (e_TTL e) * 1000000000\<rparr>)"

definition apply_offer :: "Registry \<Rightarrow> offer \<Rightarrow> Registry" where
  "apply_offer r = (\<lambda>(t, e, ep). Offer r t e ep)"

definition registry_ok :: "Registry \<Rightarrow> bool" where
  "registry_ok r \<longleftrightarrow> distinct (map fst r) \<and>
     (\<forall>(k, rec) \<in> set r. k = (e_ServiceID (sr_Entry rec), e_InstanceID (sr_Entry rec)))"

lemma registry_ok_delete: "registry_ok r \<Longrightarrow> registry_ok (AList.delete k r)"
  by (auto simp: registry_ok_def AList.delete_eq distinct_map_filter)

interpretation sd_registry: announcement_registry apply_offer map_of offer_key offer_record registry_ok
proof unfold_locales
  fix r :: Registry and a :: offer and k :: registryKey
  obtain t e ep where a: "a = (t, e, ep)" by (cases a)
  assume ok: "registry_ok r"
  show "registry_ok (apply_offer r a)"
  proof (cases "e_TTL e = 0")
    case True
    then show ?thesis using registry_ok_delete [OF ok] by (simp add: a apply_offer_def Offer_def)
  next
    case False
    let ?rec = "\<lparr>sr_Entry = e, sr_Endpoint = ep, sr_Expires = t + uint (e_TTL e) * 1000000000\<rparr>"
    let ?k = "(e_ServiceID e, e_InstanceID e)"
    have "set (AList.update ?k ?rec r) \<subseteq> insert (?k, ?rec) (set r)"
      by (induction r) auto
    then show ?thesis
      using ok False by (auto simp: a apply_offer_def Offer_def registry_ok_def AList.distinct_update)
  qed
  show "map_of (apply_offer r a) k = (if k = offer_key a then offer_record a else map_of r k)"
    by (auto simp: a apply_offer_def Offer_def offer_key_def offer_record_def AList.delete_conv' AList.update_conv' Let_def)
qed

lemma find_loop_eq:
  "find_loop r now sid = filter (\<lambda>rec. now \<le> sr_Expires rec \<and> (sid = 0xFFFF \<or> e_ServiceID (sr_Entry rec) = sid))
     (map snd r)"
proof (induction r)
  case (Cons x r)
  then show ?case by (cases x; cases "sid = 0xFFFF") auto
qed simp

lemma registry_ok_snd_distinct: "registry_ok r \<Longrightarrow> distinct (map snd r)"
proof -
  assume ok: "registry_ok r"
  have "map (\<lambda>rec. (e_ServiceID (sr_Entry rec), e_InstanceID (sr_Entry rec))) (map snd r) = map fst r"
    using ok by (auto simp: registry_ok_def split_beta)
  with ok have "distinct (map (\<lambda>rec. (e_ServiceID (sr_Entry rec), e_InstanceID (sr_Entry rec))) (map snd r))"
    by (simp only: registry_ok_def)
  then show ?thesis by (simp only: distinct_map)
qed

section \<open>Properties\<close>

text \<open>An SD entry survives the wire, at any place of a frame, up to what its 16 bytes can carry:
  option counts saturate at 15, the TTL keeps its low 24 bits, and only one of MinorVersion and
  EventgroupID is transmitted, by the entry's type.\<close>

theorem entry_roundtrip:
  assumes "e_Type e \<in> {EntryTypeFind, EntryTypeOffer, EntryTypeSubscribe, EntryTypeSubscribeAck}"
  shows "\<exists>b. EncodeEntry dst e = Some (dst @ b) \<and> length b = 16 \<and>
    DecodeEntry (b @ rest) = Some (Inr (e\<lparr>
      e_NumOpts1 := (if e_NumOpts1 e > 15 then 15 else e_NumOpts1 e),
      e_NumOpts2 := (if e_NumOpts2 e > 15 then 15 else e_NumOpts2 e),
      e_TTL := take_bit 24 (e_TTL e),
      e_MinorVersion := (if e_Type e = EntryTypeSubscribe \<or> e_Type e = EntryTypeSubscribeAck then 0 else e_MinorVersion e),
      e_EventgroupID := (if e_Type e = EntryTypeSubscribe \<or> e_Type e = EntryTypeSubscribeAck then e_EventgroupID e else 0)\<rparr>))"
proof -
  have "known_entry_type (e_Type e)" using assms by (auto simp: known_entry_type_def is_subscribe_def)
  then show ?thesis
    using DecodeEntry_wire [of e rest]
    by (intro exI [of _ "entry_wire e"]) (simp add: EncodeEntry_eq entry_carried_def nibble_def is_subscribe_def)
qed

definition sample_offer :: Entry where
  "sample_offer = zero_entry\<lparr>e_Type := EntryTypeOffer, e_ServiceID := 0x1234, e_InstanceID := 1,
     e_NumOpts1 := 17, e_TTL := 3, e_MinorVersion := 7\<rparr>"

theorem entry_roundtrip_witness:
  "\<exists>b. EncodeEntry [] sample_offer = Some b \<and> DecodeEntry b = Some (Inr (sample_offer\<lparr>e_NumOpts1 := 15\<rparr>))"
  using entry_roundtrip [of sample_offer "[]" "[]"]
  by (auto simp: sample_offer_def zero_entry_def entry_types)

text \<open>A service offered with a TTL that is a multiple of 2^24 seconds goes out as the opposite of
  what was asked: the TTL on the wire is 0, and a registry that applies the decoded entry removes the
  service instead of adding it.\<close>

theorem offer_ttl_wraps_to_stop:
  assumes "e_Type e = EntryTypeOffer" and "0x1000000 dvd unat (e_TTL e)"
  shows "\<exists>b d. EncodeEntry [] e = Some b \<and> DecodeEntry b = Some (Inr d) \<and> e_TTL d = 0
    \<and> map_of (Offer r now d ep) (e_ServiceID e, e_InstanceID e) = None"
proof -
  have z: "take_bit 24 (e_TTL e) = 0"
    using assms(2) by (simp add: word_eq_iff_unsigned unsigned_take_bit_eq take_bit_nat_def dvd_eq_mod_eq_0 flip: unat_eq_0)
  have k: "known_entry_type (e_Type e)" using assms(1) by (simp add: known_entry_type_def)
  have "map_of (Offer r now (entry_carried e) ep) (e_ServiceID e, e_InstanceID e) = None"
    by (simp add: Offer_def entry_carried_def z AList.delete_conv')
  moreover have "e_TTL (entry_carried e) = 0" by (simp add: entry_carried_def z)
  ultimately show ?thesis
    using DecodeEntry_wire [OF k, of "[]"] by (auto simp: EncodeEntry_eq)
qed

theorem offer_ttl_wraps_to_stop_witness:
  "\<exists>b d. EncodeEntry [] (sample_offer\<lparr>e_TTL := 0x1000000\<rparr>) = Some b \<and> DecodeEntry b = Some (Inr d)
    \<and> e_TTL d = 0 \<and> map_of (Offer [] 0 d zero_endpoint) (0x1234, 1) = None"
  using offer_ttl_wraps_to_stop [of "sample_offer\<lparr>e_TTL := 0x1000000\<rparr>" "[]" 0 zero_endpoint]
  by (auto simp: sample_offer_def)

text \<open>The decoders of discovery data never panic, whatever the bytes: a short entry and an unknown
  entry type, a truncated or overlong option, a short endpoint option are the documented errors, and
  resolving an endpoint against attacker-chosen indices always returns.\<close>

theorem sd_decoders_total:
  "(\<exists>x. DecodeEntry b = Some x \<and>
      (length b < 16 \<and> x = Inl (Errorf ''got, need'' ErrShortEntry)
       \<or> 16 \<le> length b \<and> b ! 0 \<notin> {EntryTypeFind, EntryTypeOffer, EntryTypeSubscribe, EntryTypeSubscribeAck}
           \<and> x = Inl (Errorf ''type'' ErrUnknownEntryType)
       \<or> 16 \<le> length b \<and> (\<exists>e. x = Inr e \<and> e_Type e = b ! 0 \<and> e_NumOpts1 e \<le> 15 \<and> e_NumOpts2 e \<le> 15)))
   \<and> (\<exists>x. DecodeIPv4Option b = Some x \<and>
      (length b < 12 \<and> x = Inl (Errorf ''got, need 12'' ErrShortOption)
       \<or> 12 \<le> length b \<and> (\<exists>ep. x = Inr ep \<and> length (ep_IP ep) = 4)))
   \<and> (\<exists>x. DecodeOptions b = Some x \<and> ((\<exists>e. x = Inl e \<and> errors_is e ErrShortOption) \<or> (\<exists>os. x = Inr os)))
   \<and> (\<exists>x. ResolveIPv4Endpoint entry opts = Some x)"
proof (intro conjI)
  have n15: "drop_bit 4 x \<le> 15 \<and> x AND 15 \<le> (15 :: u8)" for x :: u8
  proof -
    have "unat x < 256" using unsigned_less [of x, where ?'a = nat] by simp
    then have "unat (drop_bit 4 x) < 16" by (simp add: unat_drop_bit_eq drop_bit_nat_def)
    then show ?thesis using word_and_le1 [of x 15] by (simp add: word_le_nat_alt)
  qed
  show "\<exists>x. DecodeEntry b = Some x \<and>
      (length b < 16 \<and> x = Inl (Errorf ''got, need'' ErrShortEntry)
       \<or> 16 \<le> length b \<and> b ! 0 \<notin> {EntryTypeFind, EntryTypeOffer, EntryTypeSubscribe, EntryTypeSubscribeAck}
           \<and> x = Inl (Errorf ''type'' ErrUnknownEntryType)
       \<or> 16 \<le> length b \<and> (\<exists>e. x = Inr e \<and> e_Type e = b ! 0 \<and> e_NumOpts1 e \<le> 15 \<and> e_NumOpts2 e \<le> 15))"
    using n15 by (auto simp: DecodeEntry_eq known_entry_type_def is_subscribe_def read_entry_def)
  show "\<exists>x. DecodeIPv4Option b = Some x \<and>
      (length b < 12 \<and> x = Inl (Errorf ''got, need 12'' ErrShortOption)
       \<or> 12 \<le> length b \<and> (\<exists>ep. x = Inr ep \<and> length (ep_IP ep) = 4))"
    by (auto simp: DecodeIPv4Option_eq)
  show "\<exists>x. DecodeOptions b = Some x \<and> ((\<exists>e. x = Inl e \<and> errors_is e ErrShortOption) \<or> (\<exists>os. x = Inr os))"
    by (cases "parse_options b") (auto simp: DecodeOptions_eq dest: parse_options_error)
  show "\<exists>x. ResolveIPv4Endpoint entry opts = Some x"
    by (simp add: ResolveIPv4Endpoint_eq)
qed

text \<open>The options array is a canonical format: \<open>DecodeOptions\<close> returns a list of options exactly
  when the bytes are those options one after the other, each with a length field that counts the bytes
  after its type byte (at least one). So the index an entry carries is the option's position.\<close>

theorem decode_options_iff:
  "DecodeOptions b = Some (Inr os) \<longleftrightarrow> b = concat (map opt_Raw os) \<and>
     list_all (\<lambda>opt. 4 \<le> length (opt_Raw opt) \<and> opt_Raw opt ! 2 = opt_Type opt
       \<and> int (length (opt_Raw opt)) = 3 + uint (join16 (opt_Raw opt ! 0) (opt_Raw opt ! 1))) os"
  using options_format.dec_iff [of b os] unfolding option_ok_def [abs_def] by blast

text \<open>Which endpoint an offer resolves to. Of the options in the entry's two runs, in order, the
  first one of the IPv4 endpoint type that is long enough; a run that is empty or leaves the array is
  skipped, and options outside both runs are never used.\<close>

theorem resolve_first_endpoint:
  "ResolveIPv4Endpoint e opts = Some (first_some (map endpoint_of
     (entry_run opts (e_Index1 e) (e_NumOpts1 e) @ entry_run opts (e_Index2 e) (e_NumOpts2 e))))"
  by (simp add: ResolveIPv4Endpoint_eq referenced_options_def)

text \<open>C36: what \<open>Find\<close> returns after any history of offers, whatever order Go visits the map in: one record
  for each key whose last offer did not withdraw it and has not expired, and that matches the queried
  service or the query for all services, 0xFFFF.\<close>

theorem find_after_history:
  assumes "\<And>xs. mset (ord xs) = mset xs"
  shows "distinct (Find ord (foldl apply_offer NewRegistry hist) now sid) \<and>
    set (Find ord (foldl apply_offer NewRegistry hist) now sid) =
      {rec. \<exists>key t e ep. find (\<lambda>a. offer_key a = key) (rev hist) = Some (t, e, ep) \<and> e_TTL e \<noteq> 0
         \<and> rec = \<lparr>sr_Entry = e, sr_Endpoint = ep, sr_Expires = t + uint (e_TTL e) * 1000000000\<rparr>
         \<and> now \<le> sr_Expires rec \<and> (sid = 0xFFFF \<or> e_ServiceID e = sid)}"
proof -
  let ?r = "foldl apply_offer NewRegistry hist"
  let ?P = "\<lambda>rec. now \<le> sr_Expires rec \<and> (sid = 0xFFFF \<or> e_ServiceID (sr_Entry rec) = sid)"
  have ok0: "registry_ok NewRegistry" by (simp add: registry_ok_def NewRegistry_def)
  then have ok: "registry_ok ?r" by (rule sd_registry.inv_history)
  have ms: "mset (map snd (ord ?r)) = mset (map snd ?r)" using assms by (metis mset_map)
  have "distinct (map snd ?r)" using ok by (rule registry_ok_snd_distinct)
  then have dist: "distinct (map snd (ord ?r))" using ms by (metis mset_eq_imp_distinct_iff)
  have "set (map snd (ord ?r)) = set (map snd ?r)" using ms by (metis set_mset_mset)
  moreover have "set (map snd ?r) = {rec. \<exists>k. map_of ?r k = Some rec}"
    using ok by (force simp: registry_ok_def)
  moreover have "map_of ?r k = Some rec \<longleftrightarrow> (\<exists>t e ep. find (\<lambda>a. offer_key a = k) (rev hist) = Some (t, e, ep)
      \<and> e_TTL e \<noteq> 0 \<and> rec = \<lparr>sr_Entry = e, sr_Endpoint = ep, sr_Expires = t + uint (e_TTL e) * 1000000000\<rparr>)" for k rec
    unfolding sd_registry.entry_history [OF ok0]
    by (auto simp: NewRegistry_def offer_record_def split: option.split)
  moreover have "set (Find ord ?r now sid) = {rec \<in> set (map snd (ord ?r)). ?P rec}"
    by (auto simp: Find_def find_loop_eq)
  ultimately have "set (Find ord ?r now sid) = {rec. (\<exists>k t e ep. find (\<lambda>a. offer_key a = k) (rev hist) = Some (t, e, ep)
      \<and> e_TTL e \<noteq> 0 \<and> rec = \<lparr>sr_Entry = e, sr_Endpoint = ep, sr_Expires = t + uint (e_TTL e) * 1000000000\<rparr>) \<and> ?P rec}"
    by (simp only: mem_Collect_eq)
  moreover have "distinct (Find ord ?r now sid)" using dist by (simp add: Find_def find_loop_eq)
  ultimately show ?thesis by (force simp del: split_paired_Ex)
qed

theorem find_after_history_witness:
  "set (Find rev (foldl apply_offer NewRegistry [(0, sample_offer, zero_endpoint), (5, sample_offer, zero_endpoint)]) 9 0xFFFF)
     = {\<lparr>sr_Entry = sample_offer, sr_Endpoint = zero_endpoint, sr_Expires = 3000000005\<rparr>}"
proof -
  have "set (Find rev (foldl apply_offer NewRegistry [(0, sample_offer, zero_endpoint), (5, sample_offer, zero_endpoint)]) 9 0xFFFF) =
    {rec. \<exists>key t e ep. find (\<lambda>a. offer_key a = key) (rev [(0, sample_offer, zero_endpoint), (5, sample_offer, zero_endpoint)]) = Some (t, e, ep)
       \<and> e_TTL e \<noteq> 0 \<and> rec = \<lparr>sr_Entry = e, sr_Endpoint = ep, sr_Expires = t + uint (e_TTL e) * 1000000000\<rparr>
       \<and> 9 \<le> sr_Expires rec \<and> ((0xFFFF :: u16) = 0xFFFF \<or> e_ServiceID e = 0xFFFF)}"
    using find_after_history [of rev "[(0, sample_offer, zero_endpoint), (5, sample_offer, zero_endpoint)]" 9 "0xFFFF"]
    by (simp only: mset_rev simp_thms)
  also have "\<dots> = {\<lparr>sr_Entry = sample_offer, sr_Endpoint = zero_endpoint, sr_Expires = 3000000005\<rparr>}"
    by (auto simp: offer_key_def sample_offer_def)
  finally show ?thesis .
qed

end
