(* ===== verification/Net.thy ===== *)
theory Net
  imports SD
begin

text \<open>
  What the transports share of Go's run time: UDP addresses, and buffered channels. A channel is its
  queue, its capacity and whether it is closed; \<open>try_send\<close> is \<open>select { case ch <- x: default: }\<close>, \<open>recv\<close>
  takes the oldest element if there is one. Sending on a closed channel and closing one again panic.
\<close>

section \<open>Addresses\<close>

record udp_addr =
  a_IP :: "byte list"
  a_Port :: int

text \<open>Two addresses print alike (\<open>UDPAddr.String\<close>): an IPv4 address has two forms.\<close>

definition addr_text :: "udp_addr \<Rightarrow> byte list \<times> int" where
  "addr_text a = (case To4 (a_IP a) of Some ip \<Rightarrow> ip | None \<Rightarrow> a_IP a, a_Port a)"

section \<open>Channels\<close>

record 'a chan =
  ch_queue :: "'a list"
  ch_cap :: int
  ch_closed :: bool

text \<open>\<open>make(chan T, n)\<close> panics for a negative capacity.\<close>

definition make_chan :: "int \<Rightarrow> 'a chan option" where
  "make_chan n = (if n < 0 then None else Some \<lparr>ch_queue = [], ch_cap = n, ch_closed = False\<rparr>)"

definition try_send :: "'a chan \<Rightarrow> 'a \<Rightarrow> 'a chan option" where
  "try_send c x =
     (if ch_closed c then None
      else if int (length (ch_queue c)) < ch_cap c then Some (c\<lparr>ch_queue := ch_queue c @ [x]\<rparr>) else Some c)"

definition recv :: "'a chan \<Rightarrow> ('a \<times> 'a chan) option" where
  "recv c = (case ch_queue c of [] \<Rightarrow> None | x # xs \<Rightarrow> Some (x, c\<lparr>ch_queue := xs\<rparr>))"

definition close_chan :: "'a chan \<Rightarrow> 'a chan option" where
  "close_chan c = (if ch_closed c then None else Some (c\<lparr>ch_closed := True\<rparr>))"

definition chan_ok :: "'a chan \<Rightarrow> bool" where
  "chan_ok c \<longleftrightarrow> int (length (ch_queue c)) \<le> ch_cap c"

text \<open>A queue that is fed from a sequence: what it has delivered and still holds is, in order, part of what
  was offered to it, and it refuses an element only when it is full.\<close>

interpretation go_chan: bounded_queue "\<lambda>c x. the (try_send c x)" ch_queue "nat \<circ> ch_cap"
  "\<lambda>c. \<not> ch_closed c \<and> chan_ok c"
  by unfold_locales (auto simp: try_send_def chan_ok_def)

section \<open>Waiting for a response\<close>

text \<open>What wakes the \<open>select\<close> at the end of a transport's \<open>Call\<close>: its channel, its timer, its context.\<close>

datatype wake = Woken_by_response | Woken_by_deadline | Woken_by_context goerr

section \<open>Read loops\<close>

text \<open>What a blocking read, or accept, gives next: an element, or an error and whether the loop then finds its
  owner closed. The loops of the servers start a goroutine for each element; \<open>serve_loop\<close> is what they start,
  and whether they have returned after the reads given.\<close>

datatype 'a read = Read 'a | Read_failed bool

fun serve_loop :: "('a \<Rightarrow> 'b) \<Rightarrow> 'a read list \<Rightarrow> 'b list \<times> bool" where
  "serve_loop start [] = ([], False)"
| "serve_loop start (Read x # rs) = (let (ys, returned) = serve_loop start rs in (start x # ys, returned))"
| "serve_loop start (Read_failed closed # rs) = (if closed then ([], True) else serve_loop start rs)"

text \<open>The elements read before the first error that finds the owner closed.\<close>

fun reads :: "'a read list \<Rightarrow> 'a list" where
  "reads [] = []"
| "reads (Read x # rs) = x # reads rs"
| "reads (Read_failed closed # rs) = (if closed then [] else reads rs)"

lemma serve_loop_eq: "serve_loop start rs = (map start (reads rs), Read_failed True \<in> set rs)"
  by (induction rs rule: reads.induct) simp_all

end
