(* ===== verification/SDUDP.thy ===== *)
theory SDUDP
  imports Codec SD Net
begin

text \<open>
  Service discovery over UDP: \<open>src/sd/udp/sdudp.go\<close>. The daemon's state is a record; what it does to
  the outside (datagrams written, calls of the subscription handler) is appended to its log. The
  socket never fails a write that matters: the code ignores the errors of all writes but that of
  \<open>SubscribeEventgroup\<close>, whose result is an argument. Go's \<open>int\<close> width is the argument \<open>w\<close>.
\<close>

definition DefaultTTL :: u32 where "DefaultTTL = 3"
definition DefaultOfferInterval :: int where "DefaultOfferInterval = 1000000000"
definition sdFlagsSize :: int where "sdFlagsSize = 4"
definition sdEntriesLenSize :: int where "sdEntriesLenSize = 4"
definition sdOptionsLenSize :: int where "sdOptionsLenSize = 4"

lemmas sd_sizes = sdFlagsSize_def sdEntriesLenSize_def sdOptionsLenSize_def

section \<open>The SD payload\<close>

record sdMessage =
  sm_Flags :: u8
  sm_Entries :: "Entry list"
  sm_Options :: "Option list"

definition encodeSDFrame ::
    "slice \<Rightarrow> u8 \<Rightarrow> Entry \<Rightarrow> IPv4EndpointOption option \<Rightarrow> u8 \<Rightarrow> slice option" where
  "encodeSDFrame dst flags entry opt optType = do {
     (optsBuf, entry) \<leftarrow> (case opt of
         None \<Rightarrow> Some ([], entry)
       | Some ep \<Rightarrow> do {
           optsBuf \<leftarrow> EncodeIPv4Option [] optType ep;
           Some (optsBuf, entry\<lparr>e_Index1 := 0, e_NumOpts1 := 1\<rparr>)
         });
     entriesBuf \<leftarrow> EncodeEntry [] entry;
     let payload = [flags, 0x00, 0x00, 0x00];
     let payload = payload @ bytes32 (word_of_int (int (length entriesBuf)));
     let payload = payload @ entriesBuf;
     let payload = payload @ bytes32 (word_of_int (int (length optsBuf)));
     let payload = payload @ optsBuf;
     Encode dst (zero_message\<lparr>ServiceID := SDServiceID, MethodID := SDMethodID, ProtocolVersion := 0x01,
       MessageType := MsgTypeNotification, ReturnCode := RetOK, Payload := payload\<rparr>)
   }"

text \<open>The loop over the entries; it stops at the first entry it cannot decode. \<^term>\<open>None\<close> is a panic or
  a loop that does not end.\<close>

partial_function (option) entries_loop ::
    "nat \<Rightarrow> byte list \<Rightarrow> int \<Rightarrow> int \<Rightarrow> Entry list \<Rightarrow> Entry list option" where
  "entries_loop w payload offset entriesEnd entries =
     (if offset < entriesEnd
      then (if goint w (offset + EntrySize) > entriesEnd then Some entries
            else do {
              tl \<leftarrow> sub_from payload offset;
              x \<leftarrow> DecodeEntry tl;
              (case x of Inl _ \<Rightarrow> Some entries
               | Inr e \<Rightarrow> entries_loop w payload (goint w (offset + EntrySize)) entriesEnd (entries @ [e]))
            })
      else Some entries)"

declare entries_loop.simps [code]

definition decodeSDPayload :: "nat \<Rightarrow> byte list \<Rightarrow> (goerr + sdMessage) option" where
  "decodeSDPayload w payload =
     (if int (length payload) < sdFlagsSize + sdEntriesLenSize then Some (Inl ErrMalformedMessage)
      else do {
        flags \<leftarrow> idx payload 0;
        let offset = sdFlagsSize;
        len32 \<leftarrow> Option.bind (sub_from payload offset) be32;
        let entriesLen = goint w (uint len32);
        let offset = offset + sdEntriesLenSize;
        if goint w (offset + entriesLen) > int (length payload) then Some (Inl ErrMalformedMessage)
        else do {
          let entriesEnd = goint w (offset + entriesLen);
          entries \<leftarrow> entries_loop w payload offset entriesEnd [];
          let offset = entriesEnd;
          if goint w (offset + sdOptionsLenSize) > int (length payload) then Some (Inl ErrMalformedMessage)
          else do {
            len32 \<leftarrow> Option.bind (sub_from payload offset) be32;
            let optionsLen = goint w (uint len32);
            let offset = goint w (offset + sdOptionsLenSize);
            if optionsLen < 0 \<or> goint w (offset + optionsLen) > int (length payload)
            then Some (Inl ErrMalformedMessage)
            else do {
              b \<leftarrow> sub payload offset (goint w (offset + optionsLen));
              x \<leftarrow> DecodeOptions b;
              (case x of Inl e \<Rightarrow> Some (Inl e)
               | Inr options \<Rightarrow> Some (Inr \<lparr>sm_Flags = flags, sm_Entries = entries, sm_Options = options\<rparr>))
            }
          }
        }
      })"

section \<open>The daemon\<close>

record OfferConfig =
  oc_Entry :: Entry
  oc_Endpoint :: IPv4EndpointOption
  oc_EndpointProtocol :: u8
  oc_OfferInterval :: int

text \<open>The ticker goroutine of an offer is known by the number of its \<open>done\<close> channel.\<close>

record offerRecord =
  or_cfg :: OfferConfig
  or_done :: nat

datatype daemon_event = Sent udp_addr "byte list" | Subscribed Entry udp_addr

record Daemon =
  d_OfferInterval :: int
  d_OnSubscribe :: bool
  d_mcAddr :: udp_addr
  d_registry :: Registry
  d_offers :: "(registryKey \<times> offerRecord) list"
  d_dones :: nat
  d_closed_dones :: "nat set"
  d_closed :: bool
  d_log :: "daemon_event list"

text \<open>\<open>NewDaemon\<close>; resolving the address and joining the group are the network's.\<close>

definition NewDaemon :: "(string \<Rightarrow> goerr + udp_addr) \<Rightarrow> (udp_addr \<Rightarrow> goerr option) \<Rightarrow>
    string \<Rightarrow> int \<Rightarrow> bool \<Rightarrow> goerr + Daemon" where
  "NewDaemon resolve listen mcast interval handler =
     (let mcast = (if mcast = '''' then ''239.192.255.251:30490'' else mcast);
          interval = (if interval = 0 then DefaultOfferInterval else interval)
      in case resolve mcast of Inl e \<Rightarrow> Inl e
         | Inr addr \<Rightarrow> (case listen addr of Some e \<Rightarrow> Inl e
             | None \<Rightarrow> Inr \<lparr>d_OfferInterval = interval, d_OnSubscribe = handler, d_mcAddr = addr,
                 d_registry = NewRegistry, d_offers = [], d_dones = 0, d_closed_dones = {},
                 d_closed = False, d_log = []\<rparr>))"

definition write_to :: "Daemon \<Rightarrow> udp_addr \<Rightarrow> byte list \<Rightarrow> Daemon" where
  "write_to d addr frame = d\<lparr>d_log := d_log d @ [Sent addr frame]\<rparr>"

definition sd_frame :: "u8 \<Rightarrow> Entry \<Rightarrow> IPv4EndpointOption option \<Rightarrow> u8 \<Rightarrow> byte list option" where
  "sd_frame flags entry opt optType = map_option elems (encodeSDFrame nil_slice flags entry opt optType)"

definition sendOffer :: "Daemon \<Rightarrow> OfferConfig \<Rightarrow> bool \<Rightarrow> Daemon option" where
  "sendOffer d cfg stopOffer = do {
     let entry = oc_Entry cfg;
     let entry = (if stopOffer then entry\<lparr>e_TTL := 0\<rparr> else entry);
     let opt = (if \<not> stopOffer \<and> ep_IP (oc_Endpoint cfg) \<noteq> [] then Some (oc_Endpoint cfg) else None);
     frame \<leftarrow> sd_frame FlagReboot entry opt (oc_EndpointProtocol cfg);
     Some (write_to d (d_mcAddr d) frame)
   }"

text \<open>Closing a \<open>done\<close> channel; closing it twice panics.\<close>

definition close_done :: "Daemon \<Rightarrow> nat \<Rightarrow> Daemon option" where
  "close_done d i = (if i \<in> d_closed_dones d then None
     else Some (d\<lparr>d_closed_dones := insert i (d_closed_dones d)\<rparr>))"

text \<open>\<open>Daemon.Offer\<close>: the configuration it works with, its first announcement, and the section under the
  lock that replaces the record of the key. \<open>time.NewTicker\<close> panics on a period that is not positive.\<close>

definition offer_config :: "OfferConfig \<Rightarrow> OfferConfig" where
  "offer_config cfg =
     (let cfg = cfg\<lparr>oc_Entry := (oc_Entry cfg)\<lparr>e_Type := EntryTypeOffer\<rparr>\<rparr>;
          cfg = (if e_TTL (oc_Entry cfg) = 0
                 then cfg\<lparr>oc_Entry := (oc_Entry cfg)\<lparr>e_TTL := DefaultTTL\<rparr>\<rparr> else cfg)
      in if oc_EndpointProtocol cfg = 0 then cfg\<lparr>oc_EndpointProtocol := OptionTypeIPv4Endpoint\<rparr> else cfg)"

definition offer_begin :: "Daemon \<Rightarrow> OfferConfig \<Rightarrow> Daemon option" where
  "offer_begin d cfg =
     (let cfg = offer_config cfg;
          interval = (if oc_OfferInterval cfg = 0 then d_OfferInterval d else oc_OfferInterval cfg)
      in do {
        d \<leftarrow> sendOffer d cfg False;
        if interval \<le> 0 then None else Some d
      })"

definition offer_register :: "Daemon \<Rightarrow> OfferConfig \<Rightarrow> Daemon option" where
  "offer_register d cfg =
     (let cfg = offer_config cfg;
          key = (e_ServiceID (oc_Entry cfg), e_InstanceID (oc_Entry cfg));
          rec = \<lparr>or_cfg = cfg, or_done = d_dones d\<rparr>;
          d = d\<lparr>d_dones := d_dones d + 1\<rparr>
      in do {
        d \<leftarrow> (case map_of (d_offers d) key of Some old \<Rightarrow> close_done d (or_done old) | None \<Rightarrow> Some d);
        Some (d\<lparr>d_offers := AList.update key rec (d_offers d)\<rparr>)
      })"

definition Daemon_Offer :: "Daemon \<Rightarrow> OfferConfig \<Rightarrow> Daemon option" where
  "Daemon_Offer d cfg =
     (if d_closed d then Some d
      else do { d \<leftarrow> offer_begin d cfg; offer_register d cfg })"

text \<open>One round of the goroutine that \<open>Offer\<close> starts, when its \<open>select\<close> is ready: which branch it takes is an argument, as
  Go may take a tick that is due even when \<open>done\<close> is closed.\<close>

definition offer_tick :: "Daemon \<Rightarrow> offerRecord \<Rightarrow> bool \<Rightarrow> Daemon option" where
  "offer_tick d rec ticked =
     (if \<not> ticked then Some d
      else if d_closed d then Some d else sendOffer d (or_cfg rec) False)"

definition Daemon_Find :: "Daemon \<Rightarrow> u16 \<Rightarrow> Daemon option" where
  "Daemon_Find d serviceID =
     (if d_closed d then Some d
      else do {
        let entry = zero_entry\<lparr>e_Type := EntryTypeFind, e_ServiceID := serviceID, e_InstanceID := 0xFFFF,
                       e_MajorVersion := 0xFF, e_TTL := DefaultTTL, e_MinorVersion := 0xFFFFFFFF\<rparr>;
        frame \<leftarrow> sd_frame FlagUnicast entry None 0;
        Some (write_to d (d_mcAddr d) frame)
      })"

fun close_loop :: "Daemon \<Rightarrow> (registryKey \<times> offerRecord) list \<Rightarrow> Daemon option" where
  "close_loop d [] = Some d"
| "close_loop d ((_, rec) # rest) = do {
     d \<leftarrow> close_done d (or_done rec);
     let stop = (or_cfg rec)\<lparr>oc_Entry := (oc_Entry (or_cfg rec))\<lparr>e_TTL := 0\<rparr>\<rparr>;
     d \<leftarrow> sendOffer d stop True;
     close_loop d rest
   }"

definition Daemon_Close :: "((registryKey \<times> offerRecord) list \<Rightarrow> (registryKey \<times> offerRecord) list) \<Rightarrow>
    Daemon \<Rightarrow> Daemon option" where
  "Daemon_Close ord d =
     (if d_closed d then Some d
      else (let d = d\<lparr>d_closed := True\<rparr> in close_loop d (ord (d_offers d))))"

section \<open>Handling a datagram\<close>

fun answer_loop :: "Daemon \<Rightarrow> offerRecord list \<Rightarrow> udp_addr \<Rightarrow> Daemon option" where
  "answer_loop d [] from = Some d"
| "answer_loop d (rec # rest) from = do {
     frame \<leftarrow> sd_frame FlagReboot (oc_Entry (or_cfg rec)) (Some (oc_Endpoint (or_cfg rec)))
       (oc_EndpointProtocol (or_cfg rec));
     answer_loop (write_to d from frame) rest from
   }"

fun match_loop :: "(registryKey \<times> offerRecord) list \<Rightarrow> u16 \<Rightarrow> offerRecord list" where
  "match_loop [] sid = []"
| "match_loop ((key, rec) # rest) sid =
     (if sid = 0xFFFF \<or> fst key = sid then rec # match_loop rest sid else match_loop rest sid)"

definition handleEntry :: "((registryKey \<times> offerRecord) list \<Rightarrow> (registryKey \<times> offerRecord) list) \<Rightarrow>
    Daemon \<Rightarrow> int \<Rightarrow> Entry \<Rightarrow> Option list \<Rightarrow> udp_addr \<Rightarrow> Daemon option" where
  "handleEntry ord d now entry opts from =
     (if e_Type entry = EntryTypeOffer then do {
        x \<leftarrow> ResolveIPv4Endpoint entry opts;
        let endpoint = (case x of Some ep \<Rightarrow> ep
          | None \<Rightarrow> \<lparr>ep_IP = a_IP from, ep_Protocol = 0x11, ep_Port = word_of_int (a_Port from)\<rparr>);
        Some (d\<lparr>d_registry := Offer (d_registry d) now entry endpoint\<rparr>)
      }
      else if e_Type entry = EntryTypeFind then
        answer_loop d (match_loop (ord (d_offers d)) (e_ServiceID entry)) from
      else if e_Type entry = EntryTypeSubscribe then do {
        let d = (if d_OnSubscribe d then d\<lparr>d_log := d_log d @ [Subscribed entry from]\<rparr> else d);
        let ack = zero_entry\<lparr>e_Type := EntryTypeSubscribeAck, e_ServiceID := e_ServiceID entry,
                    e_InstanceID := e_InstanceID entry, e_MajorVersion := e_MajorVersion entry,
                    e_TTL := e_TTL entry, e_EventgroupID := e_EventgroupID entry\<rparr>;
        frame \<leftarrow> sd_frame 0x00 ack None 0;
        Some (write_to d from frame)
      }
      else Some d)"

fun handle_entries :: "((registryKey \<times> offerRecord) list \<Rightarrow> (registryKey \<times> offerRecord) list) \<Rightarrow>
    Daemon \<Rightarrow> int \<Rightarrow> Entry list \<Rightarrow> Option list \<Rightarrow> udp_addr \<Rightarrow> Daemon option" where
  "handle_entries ord d now [] opts from = Some d"
| "handle_entries ord d now (e # es) opts from = do {
     d \<leftarrow> handleEntry ord d now e opts from;
     handle_entries ord d now es opts from
   }"

definition handleFrame :: "nat \<Rightarrow> ((registryKey \<times> offerRecord) list \<Rightarrow> (registryKey \<times> offerRecord) list) \<Rightarrow>
    Daemon \<Rightarrow> int \<Rightarrow> byte list \<Rightarrow> udp_addr \<Rightarrow> Daemon option" where
  "handleFrame w ord d now frame from = do {
     x \<leftarrow> Decode frame;
     (case x of Inl _ \<Rightarrow> Some d
      | Inr msg \<Rightarrow>
          if ServiceID msg \<noteq> SDServiceID \<or> MethodID msg \<noteq> SDMethodID then Some d
          else do {
            y \<leftarrow> decodeSDPayload w (Payload msg);
            (case y of Inl _ \<Rightarrow> Some d
             | Inr sdMsg \<Rightarrow> handle_entries ord d now (sm_Entries sdMsg) (sm_Options sdMsg) from)
          })
   }"

text \<open>\<open>SubscribeEventgroup\<close>: the address resolution and the result of the write are the network's.\<close>

definition SubscribeEventgroup :: "(string \<Rightarrow> goerr + udp_addr) \<Rightarrow> (byte list \<Rightarrow> goerr option) \<Rightarrow>
    Daemon \<Rightarrow> string \<Rightarrow> Entry \<Rightarrow> (Daemon \<times> goerr option) option" where
  "SubscribeEventgroup resolve write_result d serverAddr entry =
     (if d_closed d then Some (d, Some ErrClosed)
      else (case resolve serverAddr of
          Inl e \<Rightarrow> Some (d, Some e)
        | Inr addr \<Rightarrow> do {
            let sub = entry\<lparr>e_Type := EntryTypeSubscribe\<rparr>;
            let sub = (if e_TTL sub = 0 then sub\<lparr>e_TTL := DefaultTTL\<rparr> else sub);
            frame \<leftarrow> sd_frame FlagUnicast sub None 0;
            Some (write_to d addr frame, write_result frame)
          }))"

text \<open>The read loop: what it hands to goroutines running \<open>handleFrame\<close>, out of a buffer of 65507 bytes.\<close>

definition Daemon_readLoop :: "(byte list \<times> udp_addr) read list \<Rightarrow> (byte list \<times> udp_addr) list \<times> bool" where
  "Daemon_readLoop rs = serve_loop (\<lambda>(buf, addr). (take 65507 buf, addr)) rs"

section \<open>The frame of one entry\<close>

definition sd_body :: "u8 \<Rightarrow> Entry \<Rightarrow> byte list \<Rightarrow> byte list" where
  "sd_body flags e opts = [flags, 0, 0, 0] @ bytes32 16 @ entry_wire e
     @ bytes32 (word_of_int (int (length opts))) @ opts"

definition sd_message :: "u8 \<Rightarrow> Entry \<Rightarrow> byte list \<Rightarrow> message" where
  "sd_message flags e opts = zero_message\<lparr>ServiceID := SDServiceID, MethodID := SDMethodID, ProtocolVersion := 1,
     MessageType := MsgTypeNotification, ReturnCode := RetOK, Payload := sd_body flags e opts\<rparr>"

definition with_option :: "IPv4EndpointOption option \<Rightarrow> Entry \<Rightarrow> Entry" where
  "with_option opt e = (case opt of None \<Rightarrow> e | Some _ \<Rightarrow> e\<lparr>e_Index1 := 0, e_NumOpts1 := 1\<rparr>)"

definition option_bytes :: "u8 \<Rightarrow> IPv4EndpointOption option \<Rightarrow> byte list" where
  "option_bytes t opt = (case opt of None \<Rightarrow> [] | Some ep \<Rightarrow> ipv4_wire t ep)"

lemma encodeSDFrame_eq:
  "encodeSDFrame dst flags e opt t = Encode dst (sd_message flags (with_option opt e) (option_bytes t opt))"
  by (simp add: encodeSDFrame_def sd_message_def sd_body_def with_option_def option_bytes_def
      EncodeEntry_eq EncodeIPv4Option_eq split: option.split)

lemma sd_frame_eq: "sd_frame flags e opt t = Some (wire (sd_message flags (with_option opt e) (option_bytes t opt)))"
  by (simp add: sd_frame_def encodeSDFrame_eq Encode_eq nil_slice_def)

section \<open>Reading an SD payload\<close>

text \<open>The reference: blocks of 16 bytes, up to the first that is no entry.\<close>

function parse_entries :: "byte list \<Rightarrow> Entry list" where
  "parse_entries b =
     (if 16 \<le> length b \<and> known_entry_type (b ! 0) then read_entry b # parse_entries (drop 16 b) else [])"
  by pat_completeness auto
termination
  by (relation "measure length") auto

declare parse_entries.simps [simp del]

lemma parse_entries_short: "length b < 16 \<Longrightarrow> parse_entries b = []"
  by (simp add: parse_entries.simps)

lemma read_entry_take: "16 \<le> n \<Longrightarrow> 16 \<le> length b \<Longrightarrow> read_entry (take n b) = read_entry b"
  by (simp add: read_entry_def)

lemma parse_entries_wire:
  "known_entry_type (e_Type e) \<Longrightarrow> parse_entries (entry_wire e @ b) = entry_carried e # parse_entries b"
  by (subst parse_entries.simps) (simp add: read_entry_wire entry_wire_Type)

lemma entries_loop_eq:
  "off \<le> en \<Longrightarrow> en \<le> length p \<Longrightarrow> length p < 2 ^ 62 \<Longrightarrow>
   entries_loop 64 p (int off) (int en) acc = Some (acc @ parse_entries (take (en - off) (drop off p)))"
proof (induction "en - off" arbitrary: off acc rule: less_induct)
  case less
  let ?t = "take (en - off) (drop off p)"
  have g: "goint 64 (int off + EntrySize) = int (off + 16)"
    using less.prems by (subst goint_64) (auto simp: EntrySize_def)
  show ?case
  proof (cases "off + 16 \<le> en")
    case False
    then have "entries_loop 64 p (int off) (int en) acc = Some acc"
      by (subst entries_loop.simps) (auto simp: g)
    moreover have "parse_entries ?t = []" using False by (intro parse_entries_short) auto
    ultimately show ?thesis by simp
  next
    case True
    have sf: "sub_from p (int off) = Some (drop off p)" using less.prems by (simp add: sub_from_Some)
    have len: "16 \<le> length (drop off p)" "16 \<le> length ?t" using True less.prems by auto
    have hd: "?t ! 0 = drop off p ! 0" using len by simp
    have step: "entries_loop 64 p (int off) (int en) acc =
      (if known_entry_type (drop off p ! 0)
       then entries_loop 64 p (int (off + 16)) (int en) (acc @ [read_entry (drop off p)]) else Some acc)"
      using True len(1) by (subst entries_loop.simps) (simp add: g sf DecodeEntry_eq)
    have ref: "parse_entries ?t = (if known_entry_type (drop off p ! 0)
        then read_entry (drop off p) # parse_entries (take (en - (off + 16)) (drop (off + 16) p)) else [])"
    proof -
      have "drop 16 ?t = take (en - (off + 16)) (drop (off + 16) p)" by (simp add: drop_take ac_simps)
      moreover have "read_entry ?t = read_entry (drop off p)" using len True by (intro read_entry_take) auto
      ultimately show ?thesis using len hd by (subst parse_entries.simps) simp
    qed
    have "entries_loop 64 p (int (off + 16)) (int en) (acc @ [read_entry (drop off p)]) =
        Some ((acc @ [read_entry (drop off p)]) @ parse_entries (take (en - (off + 16)) (drop (off + 16) p)))"
      using True less.prems by (intro less.hyps) auto
    then show ?thesis unfolding step ref by simp
  qed
qed

definition word_at :: "byte list \<Rightarrow> nat \<Rightarrow> nat" where
  "word_at p i = unat (join32 (p ! i) (p ! (i + 1)) (p ! (i + 2)) (p ! (i + 3)))"

lemma be32_at: "i + 4 \<le> length p \<Longrightarrow>
  \<exists>v. sub_from p (int i) = Some (drop i p) \<and> be32 (drop i p) = Some v \<and> uint v = int (word_at p i)"
  by (simp add: sub_from_Some be32_Some word_at_def ac_simps)

lemma word_at_less: "word_at p i < 2 ^ 32"
  using unsigned_less [of "join32 (p ! i) (p ! (i + 1)) (p ! (i + 2)) (p ! (i + 3))", where ?'a = nat]
  by (simp add: word_at_def)

text \<open>On a 64-bit platform \<open>decodeSDPayload\<close> is this function of the payload.\<close>

lemma decodeSDPayload_eq:
  assumes len: "length p < 2 ^ 62"
  shows "decodeSDPayload 64 p = Some
    (if length p < 8 \<or> length p < 12 + word_at p 4 \<or> length p < 12 + word_at p 4 + word_at p (8 + word_at p 4)
     then Inl ErrMalformedMessage
     else map_sum id (\<lambda>os. \<lparr>sm_Flags = p ! 0, sm_Entries = parse_entries (take (word_at p 4) (drop 8 p)), sm_Options = os\<rparr>)
       (parse_options (take (word_at p (8 + word_at p 4)) (drop (12 + word_at p 4) p))))"
proof (cases "length p < 8")
  case False
  define n where "n = word_at p 4"
  define k where "k = word_at p (8 + n)"
  have n32: "n < 2 ^ 32" "k < 2 ^ 32" using word_at_less [of p 4] word_at_less [of p "8 + n"] by (simp_all add: n_def k_def)
  obtain v where v: "sub_from p 4 = Some (drop 4 p)" "be32 (drop 4 p) = Some v" "uint v = int n"
    using be32_at [of 4 p] False by (auto simp: n_def)
  have gn: "goint 64 (int n) = int n" using n32 by (intro goint_64) auto
  have g8: "goint 64 (8 + int n) = int (8 + n)" using n32 by (subst goint_64) auto
  have g12: "goint 64 (int (8 + n) + 4) = int (12 + n)" using n32 by (subst goint_64) auto
  have start: "decodeSDPayload 64 p =
    (if length p < 8 + n then Some (Inl ErrMalformedMessage)
     else if length p < 12 + n then Some (Inl ErrMalformedMessage)
     else do {
       len32 \<leftarrow> Option.bind (sub_from p (int (8 + n))) be32;
       let optionsLen = goint 64 (uint len32);
       if optionsLen < 0 \<or> goint 64 (int (12 + n) + optionsLen) > int (length p)
       then Some (Inl ErrMalformedMessage)
       else do {
         b \<leftarrow> sub p (int (12 + n)) (goint 64 (int (12 + n) + optionsLen));
         x \<leftarrow> DecodeOptions b;
         (case x of Inl e \<Rightarrow> Some (Inl e)
          | Inr os \<Rightarrow> Some (Inr \<lparr>sm_Flags = p ! 0, sm_Entries = parse_entries (take n (drop 8 p)), sm_Options = os\<rparr>)) } })"
  proof -
    have lp: "entries_loop 64 p 8 (int (8 + n)) [] = Some (parse_entries (take n (drop 8 p)))"
      if "8 + n \<le> length p"
      using entries_loop_eq [of 8 "8 + n" p "[]"] that len by simp
    show ?thesis
      using False v gn lp
      by (simp add: decodeSDPayload_def sd_sizes idx_def g8 g12 Let_def del: of_nat_add) auto
  qed
  show ?thesis
  proof (cases "length p < 12 + n")
    case True
    then show ?thesis using False by (simp add: start n_def)
  next
    case ok: False
    obtain u where u: "sub_from p (int (8 + n)) = Some (drop (8 + n) p)" "be32 (drop (8 + n) p) = Some u"
        "uint u = int k"
      using be32_at [of "8 + n" p] ok by (auto simp: k_def)
    have gk: "goint 64 (int k) = int k" using n32 by (intro goint_64) auto
    have ge: "goint 64 (int (12 + n) + int k) = int (12 + n + k)" using n32 by (subst goint_64) auto
    have sb: "sub p (int (12 + n)) (int (12 + n + k)) = Some (take k (drop (12 + n) p))" if "12 + n + k \<le> length p"
      using sub_int [of "12 + n" k p] that by simp
    show ?thesis
      unfolding start n_def [symmetric] k_def [symmetric] u(1) Option.bind.simps u(2)
      using False ok sb
      by (cases "parse_options (take k (drop (12 + n) p))")
        (simp_all add: u(3) gk ge DecodeOptions_eq Let_def del: of_nat_add)
  qed
qed (simp add: decodeSDPayload_def sd_sizes)

section \<open>From one daemon to another\<close>

lemma word_at_bytes32: "length p = i \<Longrightarrow> word_at (p @ bytes32 v @ q) i = unat v"
  by (simp add: word_at_def bytes32_def nth_append)

lemma decode_sd_body:
  assumes k: "known_entry_type (e_Type e)" and ob: "parse_options ob = Inr os" and l: "length ob < 2 ^ 31"
  shows "decodeSDPayload 64 (sd_body flags e ob) =
    Some (Inr \<lparr>sm_Flags = flags, sm_Entries = [entry_carried e], sm_Options = os\<rparr>)"
proof -
  let ?p = "sd_body flags e ob"
  have n: "word_at ?p 4 = 16"
    using word_at_bytes32 [of "[flags, 0, 0, 0]" 4 16] by (simp add: sd_body_def)
  have "word_at ?p 24 = unat (word_of_int (int (length ob)) :: u32)"
    using word_at_bytes32 [of "[flags, 0, 0, 0] @ bytes32 16 @ entry_wire e" 24 "word_of_int (int (length ob))" ob]
    by (simp add: sd_body_def)
  then have m: "word_at ?p 24 = length ob"
    using l by (simp add: unsigned_of_nat take_bit_nat_eq_self)
  have "length ?p = 28 + length ob" by (simp add: sd_body_def)
  moreover have "drop 28 ?p = ob" "take 16 (drop 8 ?p) = entry_wire e" "?p ! 0 = flags"
    by (simp_all add: sd_body_def bytes32_def)
  moreover have "parse_entries (entry_wire e) = [entry_carried e]"
    using parse_entries_wire [OF k, of "[]"] parse_entries_short [of "[]"] by simp
  moreover have "length ?p < 2 ^ 62" using l by (simp add: sd_body_def)
  ultimately show ?thesis using ob by (subst decodeSDPayload_eq) (simp_all add: n m)
qed

lemma handleFrame_entry:
  assumes k: "known_entry_type (e_Type e)" and ob: "parse_options ob = Inr os" and l: "length ob < 2 ^ 31"
  shows "handleFrame 64 ord d now (wire (sd_message flags e ob)) from =
    handleEntry ord d now (entry_carried e) os from"
proof -
  have f: "fits (sd_message flags e ob)" using l by (simp add: fits_def sd_message_def sd_body_def)
  then have "Decode (wire (sd_message flags e ob)) = Some (Inr (sd_message flags e ob))"
    using Decode_wire [OF f] by (simp add: sd_message_def zero_message_def)
  moreover have "ServiceID (sd_message flags e ob) = SDServiceID" "MethodID (sd_message flags e ob) = SDMethodID"
      "Payload (sd_message flags e ob) = sd_body flags e ob"
    by (simp_all add: sd_message_def)
  ultimately show ?thesis
    by (simp add: handleFrame_def decode_sd_body [OF k ob l])
qed

definition option_list :: "u8 \<Rightarrow> IPv4EndpointOption option \<Rightarrow> Option list" where
  "option_list t opt = (case opt of None \<Rightarrow> [] | Some ep \<Rightarrow> [\<lparr>opt_Type = t, opt_Raw = ipv4_wire t ep\<rparr>])"

lemma parse_option_bytes: "parse_options (option_bytes t opt) = Inr (option_list t opt)"
proof (cases opt)
  case (Some ep)
  then show ?thesis
    using parse_options_encode [of "option_list t opt"]
    by (simp add: option_bytes_def option_list_def option_ok_ipv4)
qed (simp add: option_bytes_def option_list_def parse_options.simps)

lemma handleFrame_sd_frame:
  assumes k: "known_entry_type (e_Type e)" and f: "sd_frame flags e opt t = Some frame"
  shows "handleFrame 64 ord d now frame from =
    handleEntry ord d now (entry_carried (with_option opt e)) (option_list t opt) from"
proof -
  have "known_entry_type (e_Type (with_option opt e))" using k by (simp add: with_option_def split: option.split)
  moreover have "length (option_bytes t opt) < 2 ^ 31" by (simp add: option_bytes_def split: option.split)
  ultimately have "handleFrame 64 ord d now (wire (sd_message flags (with_option opt e) (option_bytes t opt))) from =
      handleEntry ord d now (entry_carried (with_option opt e)) (option_list t opt) from"
    by (rule handleFrame_entry [OF _ parse_option_bytes])
  then show ?thesis using f by (simp add: sd_frame_eq)
qed

lemma resolve_carried_option:
  assumes "length (ep_IP ep) = 4"
  shows "ResolveIPv4Endpoint (entry_carried (with_option (Some ep) e))
     (option_list OptionTypeIPv4Endpoint (Some ep)) = Some (Some ep)"
  using endpoint_of_ipv4 [OF assms]
  by (simp add: ResolveIPv4Endpoint_eq referenced_options_def entry_run_def entry_carried_def with_option_def
      option_list_def nibble_def)

lemma sendOffer_eq:
  "sendOffer d cfg stop = Some (write_to d (d_mcAddr d)
     (wire (sd_message FlagReboot
        (with_option (if \<not> stop \<and> ep_IP (oc_Endpoint cfg) \<noteq> [] then Some (oc_Endpoint cfg) else None)
           (if stop then (oc_Entry cfg)\<lparr>e_TTL := 0\<rparr> else oc_Entry cfg))
        (option_bytes (oc_EndpointProtocol cfg)
           (if \<not> stop \<and> ep_IP (oc_Endpoint cfg) \<noteq> [] then Some (oc_Endpoint cfg) else None)))))"
  by (simp add: sendOffer_def sd_frame_eq Let_def)

text \<open>Both arrays lie in the payload; the options array.\<close>

definition arrays_fit :: "byte list \<Rightarrow> bool" where
  "arrays_fit p \<longleftrightarrow> 8 \<le> length p \<and> 12 + word_at p 4 \<le> length p \<and> 12 + word_at p 4 + word_at p (8 + word_at p 4) \<le> length p"

definition options_array :: "byte list \<Rightarrow> byte list" where
  "options_array p = take (word_at p (8 + word_at p 4)) (drop (12 + word_at p 4) p)"

definition sample_payload :: "byte list \<Rightarrow> byte list" where
  "sample_payload ob = sd_body 0 (zero_entry\<lparr>e_Type := EntryTypeOffer\<rparr>) ob"

text \<open>C33: what \<open>decodeSDPayload\<close> returns, on a 64-bit platform, for every payload of a datagram. It never panics and never
  loops. It fails with \<open>ErrMalformedMessage\<close> exactly for the payloads whose entries or options array leaves the payload; of the
  others it fails, with an error that is \<open>ErrShortOption\<close>, exactly for those whose options array is no chain of options. The
  rest it decodes: the flags, the entries in order up to the first block that is none, and all the options, each as it
  stands in the payload.\<close>

theorem decode_payload_outcome:
  assumes "length p \<le> 65507"
  shows "case decodeSDPayload 64 p of
      None \<Rightarrow> False
    | Some (Inl e) \<Rightarrow> if arrays_fit p then \<not> option_chain (options_array p) \<and> errors_is e ErrShortOption
        else e = ErrMalformedMessage
    | Some (Inr sm) \<Rightarrow> arrays_fit p \<and> option_chain (options_array p) \<and> sm_Flags sm = p ! 0
        \<and> sm_Entries sm = parse_entries (take (word_at p 4) (drop 8 p))
        \<and> concat (map opt_Raw (sm_Options sm)) = options_array p \<and> list_all option_ok (sm_Options sm)"
proof -
  have "length p < 2 ^ 62" using assms by simp
  note eq = decodeSDPayload_eq [OF this, folded options_array_def]
  show ?thesis
  proof (cases "parse_options (options_array p)")
    case (Inl e)
    then have "\<not> option_chain (options_array p)" "errors_is e ErrShortOption"
      using parse_options_chain [of "options_array p"] parse_options_error by auto
    then show ?thesis by (auto simp: eq Inl arrays_fit_def)
  next
    case (Inr os)
    then have "option_chain (options_array p)" "concat (map opt_Raw os) = options_array p" "list_all option_ok os"
      using parse_options_chain [of "options_array p"] parse_options_canonical by blast+
    then show ?thesis by (auto simp: eq Inr arrays_fit_def)
  qed
qed

text \<open>One payload with a chain of one option, one with half a header of an option, one that stops short.\<close>

theorem decode_payload_outcome_witness:
  "(\<exists>sm. decodeSDPayload 64 (sample_payload [0, 1, 4, 9]) = Some (Inr sm) \<and> concat (map opt_Raw (sm_Options sm)) = [0, 1, 4, 9]) \<and>
   (\<exists>e. decodeSDPayload 64 (sample_payload [0, 1]) = Some (Inl e) \<and> errors_is e ErrShortOption) \<and>
   decodeSDPayload 64 (take 20 (sample_payload [])) = Some (Inl ErrMalformedMessage)"
proof -
  let ?a = "sample_payload [0, 1, 4, 9]" and ?b = "sample_payload [0, 1]" and ?c = "take 20 (sample_payload [])"
  have l: "length ?a \<le> 65507" "length ?b \<le> 65507" "length ?c \<le> 65507" by (simp_all add: sample_payload_def sd_body_def)
  have f: "arrays_fit ?a" "arrays_fit ?b" "\<not> arrays_fit ?c" "options_array ?a = [0, 1, 4, 9]" "options_array ?b = [0, 1]"
    by code_simp+
  have c: "option_chain [0, 1, 4, 9]" "\<not> option_chain [0, 1]" by code_simp+
  show ?thesis
    using decode_payload_outcome [OF l(1)] decode_payload_outcome [OF l(2)] decode_payload_outcome [OF l(3)]
    by (auto simp: f c split: option.splits sum.splits)
qed

text \<open>On a 32-bit platform a single 12-byte payload with an entries length of 2^31 makes
  \<open>decodeSDPayload\<close> panic: the length becomes a negative \<open>int\<close>, passes the bound check, and the options
  array is read at a negative offset. On a 64-bit platform the same payload is rejected.\<close>

theorem decode_payload_panics_32bit:
  "decodeSDPayload 32 [0, 0, 0, 0, 0x80, 0, 0, 0, 0, 0, 0, 0] = None
   \<and> decodeSDPayload 64 [0, 0, 0, 0, 0x80, 0, 0, 0, 0, 0, 0, 0] = Some (Inl ErrMalformedMessage)"
  by code_simp

section \<open>The offers of a daemon\<close>

definition offer_frame :: "OfferConfig \<Rightarrow> byte list" where
  "offer_frame cfg =
     (let opt = (if ep_IP (oc_Endpoint cfg) \<noteq> [] then Some (oc_Endpoint cfg) else None)
      in wire (sd_message FlagReboot (with_option opt (oc_Entry cfg)) (option_bytes (oc_EndpointProtocol cfg) opt)))"

definition stop_frame :: "OfferConfig \<Rightarrow> byte list" where
  "stop_frame cfg = wire (sd_message FlagReboot ((oc_Entry cfg)\<lparr>e_TTL := 0\<rparr>) [])"

lemma sendOffer_frames:
  "sendOffer d cfg False = Some (write_to d (d_mcAddr d) (offer_frame cfg))"
  "sendOffer d cfg True = Some (write_to d (d_mcAddr d) (stop_frame cfg))"
  by (simp_all add: sendOffer_eq offer_frame_def stop_frame_def with_option_def option_bytes_def Let_def)

definition config_key :: "OfferConfig \<Rightarrow> registryKey" where
  "config_key cfg = (e_ServiceID (oc_Entry cfg), e_InstanceID (oc_Entry cfg))"

lemma offer_config_simps [simp]:
  "e_Type (oc_Entry (offer_config cfg)) = EntryTypeOffer"
  "config_key (offer_config cfg) = config_key cfg"
  "oc_Endpoint (offer_config cfg) = oc_Endpoint cfg"
  "oc_OfferInterval (offer_config cfg) = oc_OfferInterval cfg"
  by (simp_all add: offer_config_def config_key_def Let_def)

text \<open>The invariant: the \<open>done\<close> channels of the offers are different and, before \<open>Close\<close>, all open.\<close>

definition daemon_ok :: "Daemon \<Rightarrow> bool" where
  "daemon_ok d \<longleftrightarrow> distinct (map fst (d_offers d)) \<and> distinct (map (or_done \<circ> snd) (d_offers d))
     \<and> (\<forall>(k, r) \<in> set (d_offers d). or_done r < d_dones d \<and> (d_closed d \<or> or_done r \<notin> d_closed_dones d)
          \<and> k = config_key (or_cfg r) \<and> e_Type (oc_Entry (or_cfg r)) = EntryTypeOffer)
     \<and> (\<forall>i \<in> d_closed_dones d. i < d_dones d) \<and> 0 < d_OfferInterval d"

text \<open>The part of the state datagrams and announcements can change does not concern it.\<close>

lemma daemon_ok_log [simp]:
  "daemon_ok (write_to d a f) = daemon_ok d"
  "daemon_ok (d\<lparr>d_log := l\<rparr>) = daemon_ok d"
  "daemon_ok (d\<lparr>d_registry := r\<rparr>) = daemon_ok d"
  by (simp_all add: daemon_ok_def write_to_def)

definition interval_of :: "Daemon \<Rightarrow> OfferConfig \<Rightarrow> int" where
  "interval_of d cfg = (if oc_OfferInterval cfg = 0 then d_OfferInterval d else oc_OfferInterval cfg)"

lemma offer_begin_eq:
  "offer_begin d cfg = (if interval_of d cfg \<le> 0 then None
     else Some (write_to d (d_mcAddr d) (offer_frame (offer_config cfg))))"
  by (simp add: offer_begin_def interval_of_def sendOffer_frames Let_def)

lemma map_of_mem: "map_of xs k = Some v \<Longrightarrow> (k, v) \<in> set xs"
  by (rule map_of_SomeD)

lemma offer_register_ok:
  assumes ok: "daemon_ok d" and op: "\<not> d_closed d"
  shows "\<exists>d'. offer_register d cfg = Some d' \<and> daemon_ok d' \<and> \<not> d_closed d' \<and> d_log d' = d_log d
    \<and> d_registry d' = d_registry d \<and> d_mcAddr d' = d_mcAddr d
    \<and> (\<exists>i. map_of (d_offers d') = (map_of (d_offers d))(config_key cfg \<mapsto> \<lparr>or_cfg = offer_config cfg, or_done = i\<rparr>))"
proof -
  let ?cfg = "offer_config cfg" and ?k = "config_key cfg"
  let ?rec = "\<lparr>or_cfg = ?cfg, or_done = d_dones d\<rparr>"
  let ?offers = "AList.update ?k ?rec (d_offers d)"
  have key: "(e_ServiceID (oc_Entry ?cfg), e_InstanceID (oc_Entry ?cfg)) = ?k"
    using offer_config_simps(2) [of cfg] by (simp add: config_key_def)
  have sub: "set ?offers = insert (?k, ?rec) {x \<in> set (d_offers d). fst x \<noteq> ?k}"
    using ok by (intro set_AList_update) (simp add: daemon_ok_def)
  have old: "or_done r < d_dones d" "or_done r \<notin> d_closed_dones d" if "(k, r) \<in> set (d_offers d)" for k r
    using ok op that by (auto simp: daemon_ok_def)
  have dist: "distinct (map fst ?offers)" "distinct (map (or_done \<circ> snd) ?offers)"
    using ok old by (auto simp: daemon_ok_def intro!: AList.distinct_update distinct_AList_update)
  show ?thesis
  proof (cases "map_of (d_offers d) ?k")
    case None
    with ok op dist sub show ?thesis
      by (auto simp: offer_register_def key daemon_ok_def Let_def AList.update_conv')
  next
    case (Some r)
    then have r: "(?k, r) \<in> set (d_offers d)" by (rule map_of_SomeD)
    have other: "or_done r' \<noteq> or_done r" if "(k, r') \<in> set (d_offers d)" "k \<noteq> ?k" for k r'
    proof
      assume eq: "or_done r' = or_done r"
      have inj: "inj_on (or_done \<circ> snd) (set (d_offers d))"
        using ok by (simp add: daemon_ok_def distinct_map)
      have "(k, r') = (?k, r)" using inj_onD [OF inj _ that(1) r] eq by simp
      with that show False by simp
    qed
    from Some r old [OF r] other ok op dist sub show ?thesis
      by (auto simp: offer_register_def close_done_def key daemon_ok_def Let_def AList.update_conv')
  qed
qed

lemma Daemon_Offer_ok:
  assumes "daemon_ok d" and "0 < interval_of d cfg" and "\<not> d_closed d"
  shows "\<exists>d'. Daemon_Offer d cfg = Some d' \<and> daemon_ok d' \<and> \<not> d_closed d'
    \<and> d_log d' = d_log d @ [Sent (d_mcAddr d) (offer_frame (offer_config cfg))]
    \<and> d_registry d' = d_registry d \<and> d_mcAddr d' = d_mcAddr d
    \<and> (\<exists>i. map_of (d_offers d') = (map_of (d_offers d))(config_key cfg \<mapsto> \<lparr>or_cfg = offer_config cfg, or_done = i\<rparr>))"
proof -
  let ?d = "write_to d (d_mcAddr d) (offer_frame (offer_config cfg))"
  have "daemon_ok ?d" "\<not> d_closed ?d" using assms by (simp_all, simp add: write_to_def)
  from offer_register_ok [OF this, of cfg] show ?thesis
    using assms by (simp add: Daemon_Offer_def offer_begin_eq) (simp add: write_to_def)
qed

section \<open>Close\<close>

lemma close_loop_eq:
  "distinct (map (or_done \<circ> snd) xs) \<Longrightarrow> \<forall>(k, r) \<in> set xs. or_done r \<notin> d_closed_dones d \<Longrightarrow>
   close_loop d xs = Some (d\<lparr>d_closed_dones := d_closed_dones d \<union> (or_done \<circ> snd) ` set xs,
     d_log := d_log d @ map (\<lambda>(k, r). Sent (d_mcAddr d) (stop_frame (or_cfg r))) xs\<rparr>)"
proof (induction xs arbitrary: d)
  case (Cons x xs)
  obtain k r where x: "x = (k, r)" by (cases x)
  have st: "stop_frame ((or_cfg r)\<lparr>oc_Entry := (oc_Entry (or_cfg r))\<lparr>e_TTL := 0\<rparr>\<rparr>) = stop_frame (or_cfg r)"
    by (simp add: stop_frame_def)
  let ?d = "write_to (d\<lparr>d_closed_dones := insert (or_done r) (d_closed_dones d)\<rparr>) (d_mcAddr d) (stop_frame (or_cfg r))"
  have "close_loop ?d xs = Some (?d\<lparr>d_closed_dones := d_closed_dones ?d \<union> (or_done \<circ> snd) ` set xs,
     d_log := d_log ?d @ map (\<lambda>(k, r). Sent (d_mcAddr ?d) (stop_frame (or_cfg r))) xs\<rparr>)"
    using Cons.prems by (intro Cons.IH) (force simp: x write_to_def)+
  with Cons.prems show ?case
    by (simp add: x close_done_def sendOffer_frames st Let_def) (simp add: write_to_def insert_commute)
qed simp

lemma Daemon_Close_eq:
  assumes ok: "daemon_ok d" and op: "\<not> d_closed d" and ord: "mset (ord (d_offers d)) = mset (d_offers d)"
  shows "Daemon_Close ord d = Some (d\<lparr>d_closed := True,
    d_closed_dones := d_closed_dones d \<union> (or_done \<circ> snd) ` set (d_offers d),
    d_log := d_log d @ map (\<lambda>(k, r). Sent (d_mcAddr d) (stop_frame (or_cfg r))) (ord (d_offers d))\<rparr>)"
proof -
  have s: "set (ord (d_offers d)) = set (d_offers d)" using ord by (metis set_mset_mset)
  have ms: "mset (map (or_done \<circ> snd) (ord (d_offers d))) = mset (map (or_done \<circ> snd) (d_offers d))"
    using ord by simp
  then have "distinct (map (or_done \<circ> snd) (ord (d_offers d)))"
    using ok mset_eq_imp_distinct_iff [OF ms] unfolding daemon_ok_def by blast
  moreover have "\<forall>(k, r) \<in> set (ord (d_offers d)). or_done r \<notin> d_closed_dones (d\<lparr>d_closed := True\<rparr>)"
    using ok op s by (auto simp: daemon_ok_def)
  ultimately show ?thesis using op s by (simp add: Daemon_Close_def close_loop_eq)
qed

section \<open>Answering datagrams\<close>

definition answer_frame :: "OfferConfig \<Rightarrow> byte list" where
  "answer_frame cfg = wire (sd_message FlagReboot (with_option (Some (oc_Endpoint cfg)) (oc_Entry cfg))
     (option_bytes (oc_EndpointProtocol cfg) (Some (oc_Endpoint cfg))))"

lemma answer_loop_eq:
  "answer_loop d recs from = Some (d\<lparr>d_log := d_log d @ map (\<lambda>r. Sent from (answer_frame (or_cfg r))) recs\<rparr>)"
  by (induction recs arbitrary: d) (simp_all add: sd_frame_eq answer_frame_def write_to_def)

lemma match_loop_eq:
  "match_loop xs sid = map snd (filter (\<lambda>(k, r). sid = 0xFFFF \<or> fst k = sid) xs)"
proof (induction xs)
  case (Cons x xs)
  then show ?case by (cases x; cases "sid = 0xFFFF") auto
qed simp

lemma handleEntry_ok:
  assumes "daemon_ok d"
  shows "\<exists>d'. handleEntry ord d now e opts from = Some d' \<and> daemon_ok d' \<and> d_closed d' = d_closed d
    \<and> d_offers d' = d_offers d \<and> d_mcAddr d' = d_mcAddr d"
  using assms
  by (auto simp: handleEntry_def ResolveIPv4Endpoint_eq answer_loop_eq sd_frame_eq Let_def split: option.split)
    (auto simp: write_to_def)

lemma handle_entries_ok:
  "daemon_ok d \<Longrightarrow> \<exists>d'. handle_entries ord d now es opts from = Some d' \<and> daemon_ok d' \<and> d_closed d' = d_closed d
    \<and> d_offers d' = d_offers d \<and> d_mcAddr d' = d_mcAddr d"
proof (induction es arbitrary: d)
  case (Cons e es)
  obtain d1 where d1: "handleEntry ord d now e opts from = Some d1" "daemon_ok d1" "d_closed d1 = d_closed d"
    "d_offers d1 = d_offers d" "d_mcAddr d1 = d_mcAddr d"
    using handleEntry_ok [OF Cons.prems] by blast
  with Cons.IH [OF d1(2)] show ?case by auto
qed simp

lemma Decode_length: "Decode b = Some (Inr m) \<Longrightarrow> length (Payload m) \<le> length b"
  using wire_Decode [of b m] by auto

lemma handleFrame_ok:
  assumes ok: "daemon_ok d" and len: "length frame \<le> 65507"
  shows "\<exists>d'. handleFrame 64 ord d now frame from = Some d' \<and> daemon_ok d' \<and> d_closed d' = d_closed d
    \<and> d_offers d' = d_offers d \<and> d_mcAddr d' = d_mcAddr d"
proof (cases "Decode frame")
  case None
  then show ?thesis by (simp add: Decode_eq)
next
  case (Some x)
  show ?thesis
  proof (cases x)
    case (Inl e)
    with Some ok show ?thesis by (simp add: handleFrame_def)
  next
    case (Inr m)
    with Some Decode_length have "length (Payload m) \<le> length frame" by blast
    with len have "length (Payload m) < 2 ^ 62" by simp
    from decodeSDPayload_eq [OF this] obtain y where "decodeSDPayload 64 (Payload m) = Some y" by blast
    with Some Inr ok show ?thesis
      by (cases y) (simp_all add: handleFrame_def handle_entries_ok)
  qed
qed

section \<open>Every operation in sequence\<close>

text \<open>What an application and the network can make a daemon do, one complete operation at a time.\<close>

datatype daemon_op =
    OpOffer OfferConfig
  | OpTick offerRecord bool
  | OpFind u16
  | OpFrame int "byte list" udp_addr
  | OpSubscribe string Entry
  | OpClose

fun daemon_do :: "((registryKey \<times> offerRecord) list \<Rightarrow> (registryKey \<times> offerRecord) list) \<Rightarrow>
    (string \<Rightarrow> goerr + udp_addr) \<Rightarrow> Daemon \<Rightarrow> daemon_op \<Rightarrow> Daemon option" where
  "daemon_do ord resolve d (OpOffer cfg) = Daemon_Offer d cfg"
| "daemon_do ord resolve d (OpTick rec ticked) = offer_tick d rec ticked"
| "daemon_do ord resolve d (OpFind sid) = Daemon_Find d sid"
| "daemon_do ord resolve d (OpFrame now frame from) = handleFrame 64 ord d now frame from"
| "daemon_do ord resolve d (OpSubscribe addr e) = map_option fst (SubscribeEventgroup resolve (\<lambda>_. None) d addr e)"
| "daemon_do ord resolve d OpClose = Daemon_Close ord d"

fun daemon_run where
  "daemon_run ord resolve d [] = Some d"
| "daemon_run ord resolve d (op # ops) = Option.bind (daemon_do ord resolve d op) (\<lambda>d. daemon_run ord resolve d ops)"

text \<open>The conditions under which an operation is legitimate: the period of an offer is not negative, and
  a datagram fits the read buffer.\<close>

fun daemon_op_ok :: "daemon_op \<Rightarrow> bool" where
  "daemon_op_ok (OpOffer cfg) = (0 \<le> oc_OfferInterval cfg)"
| "daemon_op_ok (OpFrame now frame from) = (length frame \<le> 65507)"
| "daemon_op_ok _ = True"

lemma daemon_do_ok:
  assumes ok: "daemon_ok d" and op: "daemon_op_ok op" and ord: "\<And>xs. mset (ord xs) = mset xs"
  shows "\<exists>d'. daemon_do ord resolve d op = Some d' \<and> daemon_ok d' \<and> (d_closed d \<longrightarrow> d_closed d')"
proof (cases op)
  case (OpOffer cfg)
  have "0 < interval_of d cfg" using op ok by (auto simp: OpOffer interval_of_def daemon_ok_def)
  with ok OpOffer show ?thesis
    using Daemon_Offer_ok [of d cfg] by (cases "d_closed d") (auto simp: Daemon_Offer_def)
next
  case (OpFrame now frame src)
  with op ok show ?thesis using handleFrame_ok [of d frame ord now src] by auto
next
  case OpClose
  show ?thesis
  proof (cases "d_closed d")
    case True
    then show ?thesis using ok by (simp add: OpClose Daemon_Close_def)
  next
    case False
    from Daemon_Close_eq [where ord = ord, OF ok this ord] ok show ?thesis
      by (auto simp: OpClose daemon_ok_def)
  qed
next
  case (OpSubscribe addr e)
  show ?thesis using ok
    by (auto simp: OpSubscribe SubscribeEventgroup_def sd_frame_eq Let_def split: sum.split)
qed (use ok in \<open>auto simp: offer_tick_def sendOffer_frames Daemon_Find_def sd_frame_eq Let_def\<close>)

lemma daemon_run_ok:
  "daemon_ok d \<Longrightarrow> list_all daemon_op_ok ops \<Longrightarrow> (\<And>xs. mset (ord xs) = mset xs) \<Longrightarrow>
   \<exists>d'. daemon_run ord resolve d ops = Some d' \<and> daemon_ok d'"
proof (induction ops arbitrary: d)
  case (Cons op ops)
  obtain d1 where "daemon_do ord resolve d op = Some d1" "daemon_ok d1"
    using daemon_do_ok [where ord = ord and resolve = resolve, OF Cons.prems(1) _ Cons.prems(3)] Cons.prems(2) by auto
  with Cons show ?case by simp
qed simp

section \<open>Properties of the daemon\<close>

lemma NewDaemon_ok: "NewDaemon resolve listen mcast interval handler = Inr d \<Longrightarrow> 0 \<le> interval \<Longrightarrow>
  daemon_ok d \<and> \<not> d_closed d"
  by (auto simp: NewDaemon_def daemon_ok_def DefaultOfferInterval_def NewRegistry_def Let_def
      split: sum.splits option.splits if_splits)

text \<open>C32: on a 64-bit platform no sequence of complete operations makes a daemon panic: offers with intervals that are not
  negative, re-offers of the same service, ticks, finds, subscriptions, arbitrary datagrams that fit the read buffer and repeated
  closes, one after another, all return, and no \<open>done\<close> channel is ever closed twice. (\<open>decode_payload_panics_32bit\<close> is a datagram
  that makes a 32-bit daemon panic, and \<open>offer_close_race\<close> what may happen when operations overlap.)\<close>

theorem daemon_never_panics:
  assumes "NewDaemon resolve listen mcast interval handler = Inr d" and "0 \<le> interval"
    and "list_all daemon_op_ok ops" and "\<And>xs. mset (ord xs) = mset xs"
  shows "\<exists>d'. daemon_run ord resolve d ops = Some d' \<and> distinct (map (or_done \<circ> snd) (d_offers d'))
    \<and> (\<forall>(k, r) \<in> set (d_offers d'). d_closed d' \<or> or_done r \<notin> d_closed_dones d')"
proof -
  have "daemon_ok d" using NewDaemon_ok [OF assms(1,2)] by simp
  from daemon_run_ok [where ord = ord and resolve = resolve, OF this assms(3,4)]
  obtain d' where "daemon_run ord resolve d ops = Some d'" "daemon_ok d'" by blast
  then show ?thesis by (auto simp: daemon_ok_def)
qed

definition sample_group :: udp_addr where
  "sample_group = \<lparr>a_IP = [239, 192, 255, 251], a_Port = 30490\<rparr>"

definition sample_config :: OfferConfig where
  "sample_config = \<lparr>oc_Entry = zero_entry\<lparr>e_ServiceID := 0x1234, e_InstanceID := 1, e_MajorVersion := 1\<rparr>,
     oc_Endpoint = \<lparr>ep_IP = [192, 168, 0, 7], ep_Protocol = 0x11, ep_Port = 30509\<rparr>,
     oc_EndpointProtocol = 0, oc_OfferInterval = 0\<rparr>"

definition sample_daemon :: Daemon where
  "sample_daemon = \<lparr>d_OfferInterval = DefaultOfferInterval, d_OnSubscribe = True, d_mcAddr = sample_group,
     d_registry = NewRegistry, d_offers = [], d_dones = 0, d_closed_dones = {}, d_closed = False, d_log = []\<rparr>"

lemma sample_daemon_New: "NewDaemon (\<lambda>_. Inr sample_group) (\<lambda>_. None) '''' 0 True = Inr sample_daemon"
  by (simp add: NewDaemon_def sample_daemon_def)

lemma sample_daemon_ok: "daemon_ok sample_daemon" "\<not> d_closed sample_daemon"
  using NewDaemon_ok [OF sample_daemon_New] by simp_all

theorem daemon_never_panics_witness:
  "\<exists>d'. daemon_run id (\<lambda>_. Inr sample_group) sample_daemon
     [OpOffer sample_config, OpOffer sample_config, OpFrame 0 [1, 2, 3] sample_group, OpClose, OpClose] = Some d'"
  using daemon_never_panics [OF sample_daemon_New,
      of "[OpOffer sample_config, OpOffer sample_config, OpFrame 0 [1, 2, 3] sample_group, OpClose, OpClose]" id]
  by (auto simp: sample_config_def simp del: daemon_run.simps)

text \<open>The announcement of an offer, as another daemon's registry takes it.\<close>

definition announced :: "OfferConfig \<Rightarrow> int \<Rightarrow> ServiceRecord \<Rightarrow> bool" where
  "announced cfg now rec \<longleftrightarrow> sr_Endpoint rec = oc_Endpoint cfg
     \<and> sr_Expires rec = now + uint (e_TTL (oc_Entry cfg)) * 1000000000
     \<and> e_ServiceID (sr_Entry rec) = e_ServiceID (oc_Entry cfg) \<and> e_InstanceID (sr_Entry rec) = e_InstanceID (oc_Entry cfg)
     \<and> e_MajorVersion (sr_Entry rec) = e_MajorVersion (oc_Entry cfg)
     \<and> e_MinorVersion (sr_Entry rec) = e_MinorVersion (oc_Entry cfg) \<and> e_TTL (sr_Entry rec) = e_TTL (oc_Entry cfg)"

lemma take_bit_24_id: "unat v < 2 ^ 24 \<Longrightarrow> take_bit 24 v = (v :: u32)"
  unfolding word_unat_eq_iff by (simp add: unsigned_take_bit_eq take_bit_nat_eq_self)

lemma handle_announcement:
  assumes ty: "e_Type (oc_Entry cfg) = EntryTypeOffer" and ttl: "unat (e_TTL (oc_Entry cfg)) < 2 ^ 24" "e_TTL (oc_Entry cfg) \<noteq> 0"
    and ip: "length (ep_IP (oc_Endpoint cfg)) = 4" and pr: "oc_EndpointProtocol cfg = OptionTypeIPv4Endpoint"
  shows "\<exists>b' rec. handleFrame 64 ord b now (answer_frame cfg) src = Some b'
    \<and> map_of (d_registry b') = (map_of (d_registry b))(config_key cfg \<mapsto> rec) \<and> announced cfg now rec"
proof -
  let ?ep = "oc_Endpoint cfg" and ?e = "oc_Entry cfg"
  let ?c = "entry_carried (with_option (Some ?ep) ?e)"
  let ?rec = "\<lparr>sr_Entry = ?c, sr_Endpoint = ?ep, sr_Expires = now + uint (e_TTL ?e) * 1000000000\<rparr>"
  have t: "take_bit 24 (e_TTL ?e) = e_TTL ?e" using ttl by (intro take_bit_24_id)
  have "known_entry_type (e_Type ?e)" by (simp add: ty known_entry_type_def)
  moreover have "sd_frame FlagReboot ?e (Some ?ep) OptionTypeIPv4Endpoint = Some (answer_frame cfg)"
    by (simp add: sd_frame_eq answer_frame_def pr)
  ultimately have "handleFrame 64 ord b now (answer_frame cfg) src =
      handleEntry ord b now ?c (option_list OptionTypeIPv4Endpoint (Some ?ep)) src"
    by (rule handleFrame_sd_frame)
  also have "\<dots> = Some (b\<lparr>d_registry := Offer (d_registry b) now ?c ?ep\<rparr>)"
    unfolding handleEntry_def resolve_carried_option [OF ip]
    by (simp add: entry_carried_def with_option_def ty)
  finally show ?thesis
    using ttl(2) t
    by (intro exI [of _ "b\<lparr>d_registry := Offer (d_registry b) now ?c ?ep\<rparr>"] exI [of _ ?rec])
      (simp add: Offer_def entry_carried_def with_option_def config_key_def announced_def AList.update_conv' ty
        is_subscribe_def entry_types)
qed

lemma offer_frame_answer: "ep_IP (oc_Endpoint cfg) \<noteq> [] \<Longrightarrow> offer_frame cfg = answer_frame cfg"
  by (simp add: offer_frame_def answer_frame_def Let_def)

text \<open>An offer reaches the registries. \<open>Offer\<close> on an open daemon multicasts one frame at once, and any
  daemon that handles it records the offered service under its key, with the endpoint, the versions and
  the lifetime of the offer (the default of 3 seconds for none), leaving every other key alone.\<close>

theorem offer_reaches_registry:
  assumes "daemon_ok a" "\<not> d_closed a" "0 < interval_of a cfg"
    and "length (ep_IP (oc_Endpoint cfg)) = 4" "oc_EndpointProtocol cfg \<in> {0, OptionTypeIPv4Endpoint}"
    and "unat (e_TTL (oc_Entry cfg)) < 2 ^ 24"
  shows "\<exists>a' frame b' rec. Daemon_Offer a cfg = Some a' \<and> d_log a' = d_log a @ [Sent (d_mcAddr a) frame]
    \<and> handleFrame 64 ord b now frame src = Some b'
    \<and> map_of (d_registry b') = (map_of (d_registry b))(config_key cfg \<mapsto> rec)
    \<and> announced (offer_config cfg) now rec
    \<and> sr_Endpoint rec = oc_Endpoint cfg
    \<and> sr_Expires rec = now + (if e_TTL (oc_Entry cfg) = 0 then 3 else uint (e_TTL (oc_Entry cfg))) * 1000000000"
proof -
  let ?cfg = "offer_config cfg"
  have c: "e_TTL (oc_Entry ?cfg) = (if e_TTL (oc_Entry cfg) = 0 then 3 else e_TTL (oc_Entry cfg))"
    "oc_EndpointProtocol ?cfg = OptionTypeIPv4Endpoint"
    using assms(5) by (auto simp: offer_config_def DefaultTTL_def OptionTypeIPv4Endpoint_def Let_def)
  have ttl: "unat (e_TTL (oc_Entry ?cfg)) < 2 ^ 24" "e_TTL (oc_Entry ?cfg) \<noteq> 0"
    using assms(6) unfolding c by auto
  have "offer_frame ?cfg = answer_frame ?cfg" using assms(4) by (intro offer_frame_answer) auto
  moreover obtain b' rec where "handleFrame 64 ord b now (answer_frame ?cfg) src = Some b'"
    "map_of (d_registry b') = (map_of (d_registry b))(config_key cfg \<mapsto> rec)" "announced ?cfg now rec"
    using handle_announcement [OF _ ttl _ c(2), of ord b now src] assms(4) by auto
  moreover obtain a' where "Daemon_Offer a cfg = Some a'"
    "d_log a' = d_log a @ [Sent (d_mcAddr a) (offer_frame ?cfg)]"
    using Daemon_Offer_ok [OF assms(1,3,2)] by blast
  moreover have "sr_Expires rec = now + (if e_TTL (oc_Entry cfg) = 0 then 3 else uint (e_TTL (oc_Entry cfg))) * 1000000000"
    "sr_Endpoint rec = oc_Endpoint cfg" if "announced ?cfg now rec" for rec
    using that c by (auto simp: announced_def)
  ultimately show ?thesis by auto
qed

theorem offer_reaches_registry_witness:
  "\<exists>a' frame b' rec. Daemon_Offer sample_daemon sample_config = Some a' \<and> d_log a' = [Sent sample_group frame]
    \<and> handleFrame 64 id sample_daemon 100 frame sample_group = Some b'
    \<and> map_of (d_registry b') (0x1234, 1) = Some rec \<and> sr_Expires rec = 3000000100"
  using offer_reaches_registry [OF sample_daemon_ok, of sample_config id sample_daemon 100 sample_group]
  by (force simp: sample_config_def interval_of_def sample_daemon_def DefaultOfferInterval_def
      config_key_def zero_entry_def)

lemma handle_stop:
  assumes ty: "e_Type (oc_Entry cfg) = EntryTypeOffer"
  shows "\<exists>b'. handleFrame 64 ord b now (stop_frame cfg) src = Some b'
    \<and> map_of (d_registry b') = (map_of (d_registry b))(config_key cfg := None)"
proof -
  let ?e = "(oc_Entry cfg)\<lparr>e_TTL := 0\<rparr>"
  have "known_entry_type (e_Type ?e)" by (simp add: ty known_entry_type_def)
  moreover have "sd_frame FlagReboot ?e None 0 = Some (stop_frame cfg)"
    by (simp add: sd_frame_eq stop_frame_def with_option_def option_bytes_def)
  ultimately have "handleFrame 64 ord b now (stop_frame cfg) src =
      handleEntry ord b now (entry_carried ?e) [] src"
    using handleFrame_sd_frame [of ?e FlagReboot None 0] by (simp add: with_option_def option_list_def)
  then show ?thesis
    by (auto simp: handleEntry_def ResolveIPv4Endpoint_eq entry_carried_def ty Offer_def AList.delete_conv' config_key_def)
qed

text \<open>C34: \<open>Close\<close> withdraws what was offered. It multicasts one StopOffer for each service on offer, in the
  order Go visits the map; any daemon that handles such a frame drops the service and nothing else from
  its registry, whatever it held. A second \<open>Close\<close> and an \<open>Offer\<close> after it do nothing.\<close>

theorem close_withdraws:
  assumes "daemon_ok a" "\<not> d_closed a" and "mset (ord (d_offers a)) = mset (d_offers a)"
  shows "\<exists>a' stops. Daemon_Close ord a = Some a' \<and> d_log a' = d_log a @ map (Sent (d_mcAddr a)) stops
    \<and> length stops = length (d_offers a)
    \<and> (\<forall>(k, r) \<in> set (d_offers a). \<exists>f \<in> set stops. \<forall>ord' b now src. \<exists>b'.
          handleFrame 64 ord' b now f src = Some b' \<and> map_of (d_registry b') = (map_of (d_registry b))(k := None))
    \<and> Daemon_Close ord a' = Some a' \<and> (\<forall>cfg. Daemon_Offer a' cfg = Some a')"
proof -
  let ?stops = "map (\<lambda>(k, r). stop_frame (or_cfg r)) (ord (d_offers a))"
  obtain a' where a': "Daemon_Close ord a = Some a'" "d_closed a'"
    "d_log a' = d_log a @ map (\<lambda>(k, r). Sent (d_mcAddr a) (stop_frame (or_cfg r))) (ord (d_offers a))"
    using Daemon_Close_eq [where ord = ord, OF assms] by simp
  have "d_log a' = d_log a @ map (Sent (d_mcAddr a)) ?stops" by (simp add: a'(3) split_beta)
  moreover have "length ?stops = length (d_offers a)"
    using mset_eq_length [OF assms(3)] by simp
  moreover have "\<forall>(k, r) \<in> set (d_offers a). \<exists>f \<in> set ?stops. \<forall>ord' b now src. \<exists>b'.
      handleFrame 64 ord' b now f src = Some b' \<and> map_of (d_registry b') = (map_of (d_registry b))(k := None)"
  proof safe
    fix x y r
    assume m: "((x, y), r) \<in> set (d_offers a)"
    then have "((x, y), r) \<in> set (ord (d_offers a))" using assms(3) by (metis set_mset_mset)
    then have "stop_frame (or_cfg r) \<in> set ?stops" by force
    moreover have "e_Type (oc_Entry (or_cfg r)) = EntryTypeOffer" "(x, y) = config_key (or_cfg r)"
      using m assms(1) by (auto simp: daemon_ok_def)
    ultimately show "\<exists>f \<in> set ?stops. \<forall>ord' b now src. \<exists>b'.
      handleFrame 64 ord' b now f src = Some b' \<and> map_of (d_registry b') = (map_of (d_registry b))((x, y) := None)"
      using handle_stop [of "or_cfg r"] by metis
  qed
  moreover have "Daemon_Close ord a' = Some a'" "\<forall>cfg. Daemon_Offer a' cfg = Some a'"
    using a'(2) by (simp_all add: Daemon_Close_def Daemon_Offer_def)
  ultimately show ?thesis using a'(1) by blast
qed

theorem close_withdraws_witness:
  "\<exists>a a' stops. Daemon_Offer sample_daemon sample_config = Some a \<and> Daemon_Close rev a = Some a'
    \<and> d_log a' = d_log a @ map (Sent sample_group) stops"
proof -
  have i: "0 < interval_of sample_daemon sample_config"
    by (simp add: interval_of_def sample_config_def sample_daemon_def DefaultOfferInterval_def)
  obtain a where a: "Daemon_Offer sample_daemon sample_config = Some a" "daemon_ok a" "\<not> d_closed a"
    "d_mcAddr a = d_mcAddr sample_daemon"
    using Daemon_Offer_ok [OF sample_daemon_ok(1) i sample_daemon_ok(2)] by blast
  have "d_mcAddr a = sample_group" using a(4) by (simp add: sample_daemon_def)
  with close_withdraws [OF a(2,3), of rev] a(1) show ?thesis by (auto simp: mset_rev)
qed

text \<open>A search finds what is on offer. A FindService frame (for one service, or 0xFFFF for all) is
  answered with one unicast frame for each matching offer of the daemon that receives it, and each answer
  puts the offer, with its endpoint, into the registry of the daemon that asked.\<close>

theorem find_answered:
  assumes q: "\<not> d_closed q" and d: "daemon_ok d" and ord: "mset (ord (d_offers d)) = mset (d_offers d)"
    and good: "\<forall>(k, r) \<in> set (d_offers d). length (ep_IP (oc_Endpoint (or_cfg r))) = 4
      \<and> oc_EndpointProtocol (or_cfg r) = OptionTypeIPv4Endpoint
      \<and> e_TTL (oc_Entry (or_cfg r)) \<noteq> 0 \<and> unat (e_TTL (oc_Entry (or_cfg r))) < 2 ^ 24"
  shows "\<exists>q' frame d' answers. Daemon_Find q sid = Some q' \<and> d_log q' = d_log q @ [Sent (d_mcAddr q) frame]
    \<and> handleFrame 64 ord d now frame src = Some d' \<and> d_log d' = d_log d @ map (Sent src) answers
    \<and> length answers = length (filter (\<lambda>(k, r). sid = 0xFFFF \<or> fst k = sid) (d_offers d))
    \<and> (\<forall>(k, r) \<in> set (d_offers d). sid = 0xFFFF \<or> fst k = sid \<longrightarrow>
        (\<exists>f \<in> set answers. \<exists>q2 rec. handleFrame 64 ord q' now f from2 = Some q2
           \<and> map_of (d_registry q2) k = Some rec \<and> announced (or_cfg r) now rec))"
proof -
  let ?e = "zero_entry\<lparr>e_Type := EntryTypeFind, e_ServiceID := sid, e_InstanceID := 0xFFFF,
    e_MajorVersion := 0xFF, e_TTL := DefaultTTL, e_MinorVersion := 0xFFFFFFFF\<rparr>"
  obtain frame where f: "sd_frame FlagUnicast ?e None 0 = Some frame" by (simp add: sd_frame_eq)
  let ?q' = "write_to q (d_mcAddr q) frame"
  have q': "Daemon_Find q sid = Some ?q'" using q f by (simp add: Daemon_Find_def)
  let ?P = "\<lambda>(k, r :: offerRecord). sid = 0xFFFF \<or> fst (k :: registryKey) = sid"
  let ?m = "map snd (filter ?P (ord (d_offers d)))"
  let ?answers = "map (\<lambda>r. answer_frame (or_cfg r)) ?m"
  let ?d' = "d\<lparr>d_log := d_log d @ map (\<lambda>r. Sent src (answer_frame (or_cfg r))) ?m\<rparr>"
  have "known_entry_type (e_Type ?e)" by (simp add: known_entry_type_def)
  from handleFrame_sd_frame [OF this f]
  have "handleFrame 64 ord d now frame src = handleEntry ord d now (entry_carried ?e) [] src"
    by (simp add: with_option_def option_list_def)
  also have "\<dots> = Some ?d'"
    by (simp add: handleEntry_def entry_carried_def entry_types answer_loop_eq match_loop_eq)
  finally have h: "handleFrame 64 ord d now frame src = Some ?d'" .
  have "mset (filter ?P (ord (d_offers d))) = mset (filter ?P (d_offers d))" using ord by simp
  then have "length (filter ?P (ord (d_offers d))) = length (filter ?P (d_offers d))" by (rule mset_eq_length)
  then have len: "length ?answers = length (filter ?P (d_offers d))" by (simp only: length_map)
  have each: "\<exists>f \<in> set ?answers. \<exists>q2 rec. handleFrame 64 ord ?q' now f from2 = Some q2
           \<and> map_of (d_registry q2) k = Some rec \<and> announced (or_cfg r) now rec"
    if m: "(k, r) \<in> set (d_offers d)" and p: "sid = 0xFFFF \<or> fst k = sid" for k r
  proof -
    have "(k, r) \<in> set (ord (d_offers d))" using m ord by (metis set_mset_mset)
    with p have "answer_frame (or_cfg r) \<in> set ?answers" by force
    moreover have "e_Type (oc_Entry (or_cfg r)) = EntryTypeOffer" "k = config_key (or_cfg r)"
      using m d by (auto simp: daemon_ok_def)
    moreover have "length (ep_IP (oc_Endpoint (or_cfg r))) = 4" "oc_EndpointProtocol (or_cfg r) = OptionTypeIPv4Endpoint"
      "e_TTL (oc_Entry (or_cfg r)) \<noteq> 0" "unat (e_TTL (oc_Entry (or_cfg r))) < 2 ^ 24"
      using m good by auto
    ultimately obtain q2 rec where "handleFrame 64 ord ?q' now (answer_frame (or_cfg r)) from2 = Some q2"
      "map_of (d_registry q2) = (map_of (d_registry ?q'))(k \<mapsto> rec)" "announced (or_cfg r) now rec"
      using handle_announcement [of "or_cfg r" ord ?q' now from2] by blast
    with \<open>answer_frame (or_cfg r) \<in> set ?answers\<close> show ?thesis by (metis fun_upd_same)
  qed
  have log: "d_log ?d' = d_log d @ map (Sent src) ?answers" by (simp add: comp_def)
  have "d_log ?q' = d_log q @ [Sent (d_mcAddr q) frame]" by (simp add: write_to_def)
  moreover have "\<forall>(k, r) \<in> set (d_offers d). sid = 0xFFFF \<or> fst k = sid \<longrightarrow>
      (\<exists>f \<in> set ?answers. \<exists>q2 rec. handleFrame 64 ord ?q' now f from2 = Some q2
         \<and> map_of (d_registry q2) k = Some rec \<and> announced (or_cfg r) now rec)"
    by clarify (rule each; assumption)
  ultimately show ?thesis using q' h log len
    by - (rule exI [of _ ?q'], rule exI [of _ frame], rule exI [of _ ?d'], rule exI [of _ ?answers], intro conjI)
qed

theorem find_answered_witness:
  "\<exists>q' frame d'. Daemon_Find sample_daemon 0xFFFF = Some q' \<and> d_log q' = [Sent sample_group frame]
    \<and> handleFrame 64 rev sample_daemon 0 frame sample_group = Some d' \<and> d_log d' = []"
  using find_answered [OF sample_daemon_ok(2,1), of rev "0xFFFF" 0 sample_group sample_group]
  by (auto simp: sample_daemon_def)

text \<open>The eventgroup handshake. \<open>SubscribeEventgroup\<close> sends one frame to the resolved address; the daemon
  there passes the entry to its handler, when it has one, and answers the sender with one acknowledgement
  for the same service, instance, eventgroup and lifetime, which the asking daemon takes without effect.\<close>

theorem subscribe_handshake:
  assumes q: "\<not> d_closed q" and r: "resolve addr = Inr a" and ttl: "unat (e_TTL e) < 2 ^ 24"
  shows "\<exists>q' frame d' ack e'. SubscribeEventgroup resolve wr q addr e = Some (q', wr frame)
    \<and> d_log q' = d_log q @ [Sent a frame]
    \<and> handleFrame 64 ord d now frame src = Some d' \<and> d_registry d' = d_registry d
    \<and> d_log d' = d_log d @ (if d_OnSubscribe d then [Subscribed e' src] else []) @ [Sent src ack]
    \<and> e_ServiceID e' = e_ServiceID e \<and> e_InstanceID e' = e_InstanceID e \<and> e_EventgroupID e' = e_EventgroupID e
    \<and> e_TTL e' = (if e_TTL e = 0 then 3 else e_TTL e)
    \<and> ack = wire (sd_message 0 (zero_entry\<lparr>e_Type := EntryTypeSubscribeAck, e_ServiceID := e_ServiceID e,
          e_InstanceID := e_InstanceID e, e_MajorVersion := e_MajorVersion e, e_TTL := e_TTL e',
          e_EventgroupID := e_EventgroupID e\<rparr>) [])
    \<and> handleFrame 64 ord q' now ack from2 = Some q'"
proof -
  let ?s = "e\<lparr>e_Type := EntryTypeSubscribe, e_TTL := (if e_TTL e = 0 then 3 else e_TTL e)\<rparr>"
  let ?c = "entry_carried ?s"
  have t: "take_bit 24 (if e_TTL e = 0 then 3 else e_TTL e) = (if e_TTL e = 0 then 3 else e_TTL e)"
    using ttl by (intro take_bit_24_id) auto
  obtain frame where f: "sd_frame FlagUnicast ?s None 0 = Some frame" by (simp add: sd_frame_eq)
  have sub: "SubscribeEventgroup resolve wr q addr e = Some (write_to q a frame, wr frame)"
    using q r f by (cases "e_TTL e = 0") (simp_all add: SubscribeEventgroup_def DefaultTTL_def)
  let ?ack = "zero_entry\<lparr>e_Type := EntryTypeSubscribeAck, e_ServiceID := e_ServiceID e, e_InstanceID := e_InstanceID e,
      e_MajorVersion := e_MajorVersion e, e_TTL := e_TTL ?c, e_EventgroupID := e_EventgroupID e\<rparr>"
  let ?d' = "write_to (if d_OnSubscribe d then d\<lparr>d_log := d_log d @ [Subscribed ?c src]\<rparr> else d) src (wire (sd_message 0 ?ack []))"
  have "known_entry_type (e_Type ?s)" by (simp add: known_entry_type_def is_subscribe_def)
  from handleFrame_sd_frame [OF this f]
  have "handleFrame 64 ord d now frame src = handleEntry ord d now ?c [] src"
    by (simp add: with_option_def option_list_def)
  also have "\<dots> = Some ?d'"
    by (simp add: handleEntry_def entry_carried_def is_subscribe_def entry_types sd_frame_eq with_option_def
        option_bytes_def Let_def)
  finally have h: "handleFrame 64 ord d now frame src = Some ?d'" .
  have "sd_frame 0 ?ack None 0 = Some (wire (sd_message 0 ?ack []))"
    by (simp add: sd_frame_eq with_option_def option_bytes_def)
  moreover have "known_entry_type (e_Type ?ack)" by (simp add: known_entry_type_def is_subscribe_def)
  ultimately have "handleFrame 64 ord (write_to q a frame) now (wire (sd_message 0 ?ack [])) from2 =
      handleEntry ord (write_to q a frame) now (entry_carried ?ack) [] from2"
    using handleFrame_sd_frame [of ?ack 0 None 0] by (simp add: with_option_def option_list_def)
  also have "\<dots> = Some (write_to q a frame)"
    by (simp add: handleEntry_def entry_carried_def entry_types)
  finally have ack: "handleFrame 64 ord (write_to q a frame) now (wire (sd_message 0 ?ack [])) from2 = Some (write_to q a frame)" .
  have "d_log (write_to q a frame) = d_log q @ [Sent a frame]" "d_registry ?d' = d_registry d"
    "d_log ?d' = d_log d @ (if d_OnSubscribe d then [Subscribed ?c src] else []) @ [Sent src (wire (sd_message 0 ?ack []))]"
    by (simp_all add: write_to_def)
  moreover have "e_ServiceID ?c = e_ServiceID e" "e_InstanceID ?c = e_InstanceID e" "e_EventgroupID ?c = e_EventgroupID e"
    "e_TTL ?c = (if e_TTL e = 0 then 3 else e_TTL e)"
    using t by (simp_all add: entry_carried_def is_subscribe_def)
  ultimately show ?thesis
    using sub h ack
    by - (rule exI [of _ "write_to q a frame"], rule exI [of _ frame], rule exI [of _ ?d'],
      rule exI [of _ "wire (sd_message 0 ?ack [])"], rule exI [of _ ?c], intro conjI, rule sub, assumption+, rule refl, rule ack)
qed

theorem subscribe_handshake_witness:
  "\<exists>q' frame d' ack e'. SubscribeEventgroup (\<lambda>_. Inr sample_group) (\<lambda>_. None) sample_daemon ''peer''
       (zero_entry\<lparr>e_EventgroupID := 5\<rparr>) = Some (q', None)
    \<and> handleFrame 64 id sample_daemon 0 frame sample_group = Some d' \<and> d_log d' = [Subscribed e' sample_group, Sent sample_group ack]
    \<and> e_EventgroupID e' = 5 \<and> e_TTL e' = 3"
  using subscribe_handshake [OF sample_daemon_ok(2), of "\<lambda>_. Inr sample_group" "''peer''" sample_group
      "zero_entry\<lparr>e_EventgroupID := 5\<rparr>" "\<lambda>_. None" id sample_daemon 0 sample_group sample_group]
  by (auto simp: sample_daemon_def zero_entry_def)

section \<open>Offers that race with Close\<close>

text \<open>\<open>Offer\<close> tests \<open>closed\<close> and announces before it takes the lock. A configuration is a daemon and the
  offers that have passed the test and not yet taken the lock; a step that panics leads to \<^term>\<open>None\<close>.\<close>

inductive daemon_step :: "((registryKey \<times> offerRecord) list \<Rightarrow> (registryKey \<times> offerRecord) list) \<Rightarrow>
    Daemon \<times> OfferConfig list \<Rightarrow> (Daemon \<times> OfferConfig list) option \<Rightarrow> bool" for ord where
  step_check: "\<not> d_closed d \<Longrightarrow>
     daemon_step ord (d, p) (map_option (\<lambda>d'. (d', p @ [cfg])) (offer_begin d cfg))"
| step_lock: "daemon_step ord (d, p @ cfg # q) (map_option (\<lambda>d'. (d', p @ q)) (offer_register d cfg))"
| step_close: "daemon_step ord (d, p) (map_option (\<lambda>d'. (d', p)) (Daemon_Close ord d))"

inductive daemon_reachable :: "((registryKey \<times> offerRecord) list \<Rightarrow> (registryKey \<times> offerRecord) list) \<Rightarrow>
    Daemon \<times> OfferConfig list \<Rightarrow> Daemon \<times> OfferConfig list \<Rightarrow> bool" for ord s where
  daemon_start: "daemon_reachable ord s s"
| daemon_next: "daemon_reachable ord s t \<Longrightarrow> daemon_step ord t (Some u) \<Longrightarrow> daemon_reachable ord s u"

text \<open>The states of the two races: the first offer announced and registered, the same offer announced again,
  the daemon closed.\<close>

definition race_log :: daemon_event where
  "race_log = Sent sample_group (offer_frame (offer_config sample_config))"

definition race_offers :: "(registryKey \<times> offerRecord) list" where
  "race_offers = [((0x1234, 1), \<lparr>or_cfg = offer_config sample_config, or_done = 0\<rparr>)]"

definition race_registered :: Daemon where
  "race_registered = sample_daemon\<lparr>d_dones := 1, d_offers := race_offers, d_log := [race_log]\<rparr>"

definition race_closed :: Daemon where
  "race_closed = race_registered\<lparr>d_closed := True, d_closed_dones := {0},
     d_log := [race_log, race_log, Sent sample_group (stop_frame (offer_config sample_config))]\<rparr>"

lemma race_key:
  "e_ServiceID (oc_Entry (offer_config sample_config)) = 0x1234"
  "e_InstanceID (oc_Entry (offer_config sample_config)) = 1"
  by (simp_all add: offer_config_def sample_config_def zero_entry_def Let_def)

lemma race_begin:
  "d_OfferInterval d = DefaultOfferInterval \<Longrightarrow> d_mcAddr d = sample_group \<Longrightarrow>
   offer_begin d sample_config = Some (d\<lparr>d_log := d_log d @ [race_log]\<rparr>)"
  by (simp add: offer_begin_eq interval_of_def sample_config_def DefaultOfferInterval_def write_to_def race_log_def)

lemma race_register:
  "offer_register (sample_daemon\<lparr>d_closed := c, d_log := [race_log]\<rparr>) sample_config =
     Some (race_registered\<lparr>d_closed := c\<rparr>)"
  by (simp add: offer_register_def race_key race_registered_def race_offers_def sample_daemon_def Let_def)

lemma race_close:
  "Daemon_Close id (race_registered\<lparr>d_log := [race_log, race_log]\<rparr>) = Some race_closed"
  by (simp add: Daemon_Close_def race_closed_def race_registered_def race_offers_def sample_daemon_def close_done_def
      sendOffer_frames stop_frame_def write_to_def Let_def)

lemma race_panic: "offer_register race_closed sample_config = None"
  by (simp add: offer_register_def race_key race_closed_def race_registered_def race_offers_def sample_daemon_def
      close_done_def Let_def)

text \<open>C35: an \<open>Offer\<close> that overlaps a \<open>Close\<close>. Offering a service again while \<open>Close\<close> runs can panic: \<open>Close\<close>
  leaves the records of the offers in the map, and the late \<open>Offer\<close> closes the same \<open>done\<close> channel again.
  And a first offer that overlaps \<open>Close\<close> is announced without ever being withdrawn.\<close>

theorem offer_close_race:
  "(\<exists>s. daemon_reachable id (sample_daemon, []) s \<and> daemon_step id s None)
   \<and> (\<exists>d. daemon_reachable id (sample_daemon, []) (d, []) \<and> d_closed d
        \<and> d_log d = [Sent sample_group (offer_frame (offer_config sample_config))])"
proof -
  let ?d1 = "sample_daemon\<lparr>d_log := [race_log]\<rparr>" and ?d3 = "race_registered\<lparr>d_log := [race_log, race_log]\<rparr>"
  have opn: "\<not> d_closed sample_daemon" "\<not> d_closed race_registered"
    by (simp_all add: race_registered_def sample_daemon_def)
  have d1: "?d1 = sample_daemon\<lparr>d_closed := False, d_log := [race_log]\<rparr>"
    "race_registered = race_registered\<lparr>d_closed := False\<rparr>"
    by (simp_all add: race_registered_def sample_daemon_def)
  have r1: "daemon_reachable id (sample_daemon, []) (?d1, [sample_config])"
    using daemon_next [OF daemon_start, of id "(sample_daemon, [])"] race_begin [of sample_daemon]
      step_check [OF opn(1), of id "[]" sample_config] by (simp add: sample_daemon_def)
  have r2: "daemon_reachable id (sample_daemon, []) (race_registered, [])"
    using daemon_next [OF r1] step_lock [of id ?d1 "[]" sample_config "[]"] race_register [of False] d1 by simp
  have r3: "daemon_reachable id (sample_daemon, []) (?d3, [sample_config])"
    using daemon_next [OF r2] race_begin [of race_registered] step_check [OF opn(2), of id "[]" sample_config]
    by (simp add: race_registered_def sample_daemon_def)
  have r4: "daemon_reachable id (sample_daemon, []) (race_closed, [sample_config])"
    using daemon_next [OF r3] step_close [of id ?d3 "[sample_config]"] race_close by simp
  have p: "daemon_step id (race_closed, [sample_config]) None"
    using step_lock [of id race_closed "[]" sample_config "[]"] race_panic by simp
  have c: "Daemon_Close id ?d1 = Some (sample_daemon\<lparr>d_closed := True, d_log := [race_log]\<rparr>)"
    by (simp add: Daemon_Close_def sample_daemon_def Let_def)
  have r5: "daemon_reachable id (sample_daemon, []) (sample_daemon\<lparr>d_closed := True, d_log := [race_log]\<rparr>, [sample_config])"
    using daemon_next [OF r1] step_close [of id ?d1 "[sample_config]"] c by simp
  have r6: "daemon_reachable id (sample_daemon, []) (race_registered\<lparr>d_closed := True\<rparr>, [])"
    using daemon_next [OF r5] race_register [of True]
      step_lock [of id "sample_daemon\<lparr>d_closed := True, d_log := [race_log]\<rparr>" "[]" sample_config "[]"] by simp
  have "d_closed (race_registered\<lparr>d_closed := True\<rparr>) \<and>
      d_log (race_registered\<lparr>d_closed := True\<rparr>) = [Sent sample_group (offer_frame (offer_config sample_config))]"
    by (simp add: race_registered_def race_log_def)
  with r4 p r6 show ?thesis by blast
qed

end
