(* ===== verification/SD_Announce.thy ===== *)
theory SD_Announce
  imports SDUDP
begin

text \<open>
  Announcements over time (\<open>src/sd/udp/sdudp.go\<close>, \<open>src/sd/sd.go\<close>): what a daemon that hears any sequence of offers and
  withdrawals finds at any moment, and the ticks of an offer that race with \<open>Close\<close>.
\<close>

section \<open>Hearing announcements\<close>

text \<open>An announcement as it arrives: the time, the configuration it was made from, whether it withdraws, the sender.\<close>

type_synonym arrival = "int \<times> OfferConfig \<times> bool \<times> udp_addr"

definition announcement :: "OfferConfig \<Rightarrow> bool \<Rightarrow> byte list" where
  "announcement cfg stop = (if stop then stop_frame cfg else offer_frame cfg)"

definition hear :: "((registryKey \<times> offerRecord) list \<Rightarrow> (registryKey \<times> offerRecord) list) \<Rightarrow> Daemon \<Rightarrow> arrival \<Rightarrow> Daemon option" where
  "hear ord b = (\<lambda>(t, cfg, stop, src). handleFrame 64 ord b t (announcement cfg stop) src)"

text \<open>The offers the wire can carry: a lifetime of 24 bits, an IPv4 endpoint.\<close>

definition good_offer :: "OfferConfig \<Rightarrow> bool" where
  "good_offer cfg \<longleftrightarrow> e_Type (oc_Entry cfg) = EntryTypeOffer \<and> e_TTL (oc_Entry cfg) \<noteq> 0 \<and> unat (e_TTL (oc_Entry cfg)) < 2 ^ 24
     \<and> length (ep_IP (oc_Endpoint cfg)) = 4 \<and> oc_EndpointProtocol cfg = OptionTypeIPv4Endpoint"

text \<open>What the registry makes of it.\<close>

definition heard :: "arrival \<Rightarrow> offer" where
  "heard = (\<lambda>(t, cfg, stop, src). if stop then (t, entry_carried ((oc_Entry cfg)\<lparr>e_TTL := 0\<rparr>), zero_endpoint)
     else (t, entry_carried (with_option (Some (oc_Endpoint cfg)) (oc_Entry cfg)), oc_Endpoint cfg))"

definition arrival_key :: "arrival \<Rightarrow> registryKey" where
  "arrival_key = (\<lambda>(t, cfg, stop, src). config_key cfg)"

definition arrival_ok :: "arrival \<Rightarrow> bool" where
  "arrival_ok = (\<lambda>(t, cfg, stop, src). if stop then e_Type (oc_Entry cfg) = EntryTypeOffer else good_offer cfg)"

lemma offer_key_heard: "offer_key (heard a) = arrival_key a"
  by (auto simp: offer_key_def heard_def arrival_key_def config_key_def entry_carried_def with_option_def split: prod.split)

lemma hear_eq:
  assumes "arrival_ok a"
  shows "hear ord b a = Some (b\<lparr>d_registry := apply_offer (d_registry b) (heard a)\<rparr>)"
proof -
  obtain t cfg stop src where a: "a = (t, cfg, stop, src)" by (cases a)
  show ?thesis
  proof (cases stop)
    case True
    let ?e = "(oc_Entry cfg)\<lparr>e_TTL := 0\<rparr>"
    have "known_entry_type (e_Type ?e)" using assms True by (simp add: a arrival_ok_def known_entry_type_def)
    moreover have "sd_frame FlagReboot ?e None 0 = Some (stop_frame cfg)"
      by (simp add: sd_frame_eq stop_frame_def with_option_def option_bytes_def)
    ultimately have "hear ord b a = handleEntry ord b t (entry_carried ?e) [] src"
      using handleFrame_sd_frame [of ?e FlagReboot None 0] True
      by (simp add: a hear_def announcement_def with_option_def option_list_def)
    then show ?thesis using assms True
      by (simp add: a handleEntry_def ResolveIPv4Endpoint_eq entry_carried_def arrival_ok_def apply_offer_def heard_def Offer_def)
  next
    case False
    then have g: "good_offer cfg" using assms by (simp add: a arrival_ok_def)
    let ?ep = "oc_Endpoint cfg" and ?e = "oc_Entry cfg"
    have "offer_frame cfg = answer_frame cfg" using g by (intro offer_frame_answer) (auto simp: good_offer_def)
    moreover have "known_entry_type (e_Type ?e)" using g by (simp add: good_offer_def known_entry_type_def)
    moreover have "sd_frame FlagReboot ?e (Some ?ep) OptionTypeIPv4Endpoint = Some (answer_frame cfg)"
      using g by (simp add: sd_frame_eq answer_frame_def good_offer_def)
    ultimately have "hear ord b a =
        handleEntry ord b t (entry_carried (with_option (Some ?ep) ?e)) (option_list OptionTypeIPv4Endpoint (Some ?ep)) src"
      using handleFrame_sd_frame False by (simp add: a hear_def announcement_def)
    then show ?thesis using g False unfolding good_offer_def handleEntry_def
      by (simp add: resolve_carried_option a heard_def apply_offer_def) (simp add: entry_carried_def with_option_def)
  qed
qed

lemma hear_all:
  "list_all arrival_ok arr \<Longrightarrow> run_all (hear ord) b arr = Some (b\<lparr>d_registry := foldl apply_offer (d_registry b) (map heard arr)\<rparr>)"
  by (induction arr arbitrary: b) (simp_all add: hear_eq)

text \<open>What \<open>Find\<close> returns under a key of a well-formed registry.\<close>

definition record_key :: "ServiceRecord \<Rightarrow> registryKey" where
  "record_key rec = (e_ServiceID (sr_Entry rec), e_InstanceID (sr_Entry rec))"

lemma Find_under_key:
  assumes "registry_ok r" "mset (ord r) = mset r"
  shows "rec \<in> set (Find ord r now (fst k)) \<and> record_key rec = k \<longleftrightarrow> map_of r k = Some rec \<and> now \<le> sr_Expires rec"
proof -
  have s: "set (ord r) = set r" using assms(2) by (metis set_mset_mset)
  have "rec \<in> snd ` set r \<and> record_key rec = k \<longleftrightarrow> map_of r k = Some rec"
    using assms(1) by (force simp: registry_ok_def record_key_def dest: map_of_SomeD)
  moreover have "record_key rec = k \<Longrightarrow> e_ServiceID (sr_Entry rec) = fst k" by (auto simp: record_key_def)
  ultimately show ?thesis unfolding Find_def find_loop_eq using s by auto
qed

lemma find_map_rev: "find P (rev (map f xs)) = map_option f (find (P \<circ> f) (rev xs))"
  by (induction xs rule: rev_induct) simp_all

lemma heard_registry:
  assumes "d_registry b = NewRegistry"
  shows "registry_ok (foldl apply_offer (d_registry b) (map heard arr))"
    and "map_of (foldl apply_offer (d_registry b) (map heard arr)) k =
      (case find (\<lambda>a. arrival_key a = k) (rev arr) of None \<Rightarrow> None | Some a \<Rightarrow> offer_record (heard a))"
proof -
  have ok0: "registry_ok NewRegistry" by (simp add: registry_ok_def NewRegistry_def)
  then show "registry_ok (foldl apply_offer (d_registry b) (map heard arr))" unfolding assms by (rule sd_registry.inv_history)
  show "map_of (foldl apply_offer (d_registry b) (map heard arr)) k =
      (case find (\<lambda>a. arrival_key a = k) (rev arr) of None \<Rightarrow> None | Some a \<Rightarrow> offer_record (heard a))"
    unfolding assms sd_registry.entry_history [OF ok0] find_map_rev
    by (auto simp: NewRegistry_def comp_def offer_key_heard split: option.split)
qed

lemma heard_record:
  assumes "arrival_ok (t, cfg, stop, src)"
  shows "if stop then offer_record (heard (t, cfg, stop, src)) = None
    else \<exists>rec. offer_record (heard (t, cfg, stop, src)) = Some rec \<and> announced cfg t rec"
proof (cases stop)
  case True
  then show ?thesis by (simp add: offer_record_def heard_def entry_carried_def)
next
  case False
  then have g: "good_offer cfg" using assms by (simp add: arrival_ok_def)
  then have "take_bit 24 (e_TTL (oc_Entry cfg)) = e_TTL (oc_Entry cfg)" by (intro take_bit_24_id) (simp add: good_offer_def)
  then show ?thesis using g False
    by (simp add: offer_record_def heard_def announced_def entry_carried_def with_option_def good_offer_def is_subscribe_def entry_types)
qed

section \<open>What is found at any moment\<close>

lemma discoverable:
  assumes "d_registry b = NewRegistry" "list_all arrival_ok arr" "\<And>r. mset (ord2 r) = mset r"
  shows "\<exists>b'. run_all (hear ord) b arr = Some b' \<and>
    (case find (\<lambda>a. arrival_key a = k) (rev arr) of
       None \<Rightarrow> \<nexists>rec. rec \<in> set (Find ord2 (d_registry b') now (fst k)) \<and> record_key rec = k
     | Some (t, cfg, stop, src) \<Rightarrow>
         if stop \<or> t + uint (e_TTL (oc_Entry cfg)) * 1000000000 < now
         then \<nexists>rec. rec \<in> set (Find ord2 (d_registry b') now (fst k)) \<and> record_key rec = k
         else \<exists>rec. announced cfg t rec \<and>
           (\<forall>rec'. rec' \<in> set (Find ord2 (d_registry b') now (fst k)) \<and> record_key rec' = k \<longleftrightarrow> rec' = rec))"
proof -
  let ?r = "foldl apply_offer (d_registry b) (map heard arr)"
  note r = heard_registry [OF assms(1), of arr]
  note f = Find_under_key [where ord = ord2, OF r(1) assms(3), where now = now and k = k]
  show ?thesis
  proof (cases "find (\<lambda>a. arrival_key a = k) (rev arr)")
    case None
    then show ?thesis using f r(2) [of k] by (simp add: hear_all [OF assms(2)])
  next
    case (Some a)
    obtain t cfg stop src where a: "a = (t, cfg, stop, src)" by (cases a)
    have "arrival_ok a" using Some assms(2) by (auto simp: find_Some_iff list_all_length rev_nth)
    note h = heard_record [OF this [unfolded a]]
    have e: "sr_Expires rec = t + uint (e_TTL (oc_Entry cfg)) * 1000000000" if "announced cfg t rec" for rec
      using that by (simp add: announced_def)
    show ?thesis
    proof (cases stop)
      case True
      then show ?thesis using f r(2) [of k] h Some a by (simp add: hear_all [OF assms(2)])
    next
      case False
      then obtain rec where rec: "offer_record (heard a) = Some rec" "announced cfg t rec" using h a by auto
      then have "(rec' \<in> set (Find ord2 ?r now (fst k)) \<and> record_key rec' = k) = (rec' = rec \<and> now \<le> sr_Expires rec)" for rec'
        using f [of rec'] r(2) [of k] Some by auto
      then show ?thesis using False rec e [OF rec(2)] Some a by (auto simp: hear_all [OF assms(2)])
    qed
  qed
qed

text \<open>The last announcement before \<open>now\<close> is not too old, when no two in a row are further apart than a lifetime.\<close>

lemma last_before:
  "ts \<noteq> [] \<Longrightarrow> hd ts \<le> now \<Longrightarrow> now \<le> last ts + (life :: int) \<Longrightarrow> sorted ts \<Longrightarrow> successively (\<lambda>t u. u \<le> t + life) ts \<Longrightarrow>
   now \<le> last (filter (\<lambda>t. t \<le> now) ts) + life"
proof (induction ts)
  case (Cons t ts)
  show ?case
  proof (cases "ts \<noteq> [] \<and> hd ts \<le> now")
    case True
    then have "filter (\<lambda>t. t \<le> now) ts \<noteq> []" by (cases ts) auto
    then show ?thesis using Cons True by (auto simp: successively_Cons)
  next
    case False
    then have "filter (\<lambda>t. t \<le> now) ts = []" using Cons.prems(4) by (cases ts) (force simp: filter_empty_conv)+
    then show ?thesis using Cons.prems False by (auto simp: successively_Cons)
  qed
qed simp

lemma find_rev_last: "find P (rev xs) = (if filter P xs = [] then None else Some (last (filter P xs)))"
  by (induction xs rule: rev_induct) auto

lemma heard_until:
  assumes "sorted (map fst arr)"
  shows "takeWhile (\<lambda>a. fst a \<le> now) arr = filter (\<lambda>a. fst a \<le> (now :: int)) arr"
  using assms
proof (induction arr)
  case (Cons a arr)
  show ?case
  proof (cases "fst a \<le> now")
    case False
    then have "filter (\<lambda>a. fst a \<le> now) arr = []" using Cons.prems by (force simp: filter_empty_conv)
    then show ?thesis using False by simp
  qed (use Cons in simp)
qed simp

section \<open>Ticks that race with Close\<close>

text \<open>The goroutine of an offer tests \<open>closed\<close> and sends in two steps, where \<open>offer_tick\<close> takes both at once; \<open>Close\<close>
  withdraws in between. A configuration is a daemon and the offers whose test has passed and whose frame is not sent yet.
  The socket is closed after the withdrawals, so it still sends.\<close>

inductive announce_step :: "((registryKey \<times> offerRecord) list \<Rightarrow> (registryKey \<times> offerRecord) list) \<Rightarrow>
    Daemon \<times> OfferConfig list \<Rightarrow> (Daemon \<times> OfferConfig list) option \<Rightarrow> bool" for ord where
  an_offer: "announce_step ord (d, ts) (map_option (\<lambda>d'. (d', ts)) (Daemon_Offer d cfg))"
| an_test: "(k, rec) \<in> set (d_offers d) \<Longrightarrow> or_done rec \<notin> d_closed_dones d \<Longrightarrow> \<not> d_closed d \<Longrightarrow>
    announce_step ord (d, ts) (Some (d, ts @ [or_cfg rec]))"
| an_send: "announce_step ord (d, ts @ cfg # us) (map_option (\<lambda>d'. (d', ts @ us)) (sendOffer d cfg False))"
| an_close: "announce_step ord (d, ts) (map_option (\<lambda>d'. (d', ts)) (Daemon_Close ord d))"

inductive announce_runs :: "((registryKey \<times> offerRecord) list \<Rightarrow> (registryKey \<times> offerRecord) list) \<Rightarrow>
    Daemon \<times> OfferConfig list \<Rightarrow> Daemon \<times> OfferConfig list \<Rightarrow> bool" for ord where
  announce_refl: "announce_runs ord s s"
| announce_trans: "announce_step ord s (Some t) \<Longrightarrow> announce_runs ord t u \<Longrightarrow> announce_runs ord s u"

text \<open>A closed daemon with no test passed before stays silent.\<close>

lemma closed_silent:
  "announce_runs ord s s' \<Longrightarrow> d_closed (fst s) \<Longrightarrow> snd s = [] \<Longrightarrow> s' = s"
proof (induction rule: announce_runs.induct)
  case (announce_trans s t u)
  from announce_trans.hyps(1) have "t = s"
    by cases (use announce_trans.prems in \<open>auto simp: Daemon_Offer_def Daemon_Close_def\<close>)
  then show ?case using announce_trans by simp
qed simp

section \<open>Properties\<close>

text \<open>C14: a service stays discoverable. A daemon hears the announcements of an offer, among any announcements and
  withdrawals of other services, in the order of their times. If no two of the offer in a row are further apart than its
  lifetime, then at every moment from the first to a lifetime after the last, \<open>Find\<close> returns exactly one record
  for it, with its endpoint and versions. (By default it is announced every second and lives for three.)\<close>

theorem sd_stays_discoverable:
  assumes "d_registry b = NewRegistry" "list_all arrival_ok arr" "sorted (map fst arr)" "\<And>r. mset (ord2 r) = mset r"
    and own: "filter (\<lambda>a. arrival_key a = config_key cfg) arr = map (\<lambda>t. (t, cfg, False, src)) ts" "ts \<noteq> []"
    and gaps: "successively (\<lambda>t u. u \<le> t + uint (e_TTL (oc_Entry cfg)) * 1000000000) ts"
    and now: "hd ts \<le> now" "now \<le> last ts + uint (e_TTL (oc_Entry cfg)) * 1000000000"
  shows "\<exists>b' t rec. run_all (hear ord) b (takeWhile (\<lambda>a. fst a \<le> now) arr) = Some b' \<and> t \<in> set ts \<and> announced cfg t rec \<and>
    (\<forall>rec'. rec' \<in> set (Find ord2 (d_registry b') now (fst (config_key cfg))) \<and> record_key rec' = config_key cfg \<longleftrightarrow> rec' = rec)"
proof -
  let ?k = "config_key cfg" and ?life = "uint (e_TTL (oc_Entry cfg)) * 1000000000"
  let ?arr = "takeWhile (\<lambda>a. fst a \<le> now) arr" and ?ts = "filter (\<lambda>t. t \<le> now) ts"
  have "filter (\<lambda>a. arrival_key a = ?k) ?arr = filter (\<lambda>a. fst a \<le> now) (filter (\<lambda>a. arrival_key a = ?k) arr)"
    unfolding heard_until [OF assms(3)] by (simp add: conj_commute)
  also have "\<dots> = map (\<lambda>t. (t, cfg, False, src)) ?ts" unfolding own(1) by (simp add: filter_map comp_def)
  finally have f: "filter (\<lambda>a. arrival_key a = ?k) ?arr = map (\<lambda>t. (t, cfg, False, src)) ?ts" .
  have ne: "?ts \<noteq> []" using own(2) now(1) by (cases ts) auto
  have "sorted (map fst (filter (\<lambda>a. arrival_key a = ?k) arr))" using assms(3) by (rule sorted_filter)
  then have "sorted ts" unfolding own(1) by (simp add: comp_def)
  from last_before [OF own(2) now this gaps] have l: "now \<le> last ?ts + ?life" .
  have "last ?ts \<in> set ts" using last_in_set [OF ne] by simp
  moreover have "find (\<lambda>a. arrival_key a = ?k) (rev ?arr) = Some (last ?ts, cfg, False, src)"
    unfolding find_rev_last f using ne by (simp add: last_map)
  moreover have "list_all arrival_ok ?arr" using assms(2) by (auto simp: list_all_iff dest: set_takeWhileD)
  ultimately show ?thesis
    using discoverable [where ord = ord and k = ?k and now = now, OF assms(1) _ assms(4), of ?arr] l by auto
qed

definition sample_offered :: OfferConfig where
  "sample_offered = offer_config sample_config"

lemma sample_good: "good_offer sample_offered" "e_TTL (oc_Entry sample_offered) = 3" "config_key sample_offered = (0x1234, 1)"
  by (simp_all add: sample_offered_def good_offer_def offer_config_def sample_config_def config_key_def zero_entry_def
      DefaultTTL_def OptionTypeIPv4Endpoint_def)

theorem sd_stays_discoverable_witness:
  "\<exists>b' rec. run_all (hear id) sample_daemon [(0, sample_offered, False, sample_group), (2500000000, sample_offered, False, sample_group)] = Some b'
     \<and> (\<forall>rec'. rec' \<in> set (Find rev (d_registry b') 5000000000 0x1234) \<and> record_key rec' = (0x1234, 1) \<longleftrightarrow> rec' = rec)"
proof -
  let ?arr = "[(0, sample_offered, False, sample_group), (2500000000, sample_offered, False, sample_group)] :: arrival list"
  have "\<exists>b' t rec. run_all (hear id) sample_daemon (takeWhile (\<lambda>a. fst a \<le> 5000000000) ?arr) = Some b' \<and> t \<in> set [0, 2500000000]
     \<and> announced sample_offered t rec \<and> (\<forall>rec'. rec' \<in> set (Find rev (d_registry b') 5000000000 (fst (config_key sample_offered)))
        \<and> record_key rec' = config_key sample_offered \<longleftrightarrow> rec' = rec)"
    by (rule sd_stays_discoverable [where src = sample_group])
      (simp_all add: sample_daemon_def arrival_ok_def sample_good arrival_key_def)
  then show ?thesis by (auto simp: sample_good)
qed

text \<open>A tick that overtakes \<open>Close\<close>. The goroutine of an offer tests \<open>closed\<close>; \<open>Close\<close> multicasts the withdrawals; the
  goroutine sends its announcement all the same. A daemon that hears these frames in this order takes the service for
  offered, although it was withdrawn and its daemon is closed.\<close>

theorem sd_late_tick:
  assumes "daemon_ok a" "\<not> d_closed a" "mset (ord (d_offers a)) = mset (d_offers a)"
    and "(k, r) \<in> set (d_offers a)" "good_offer (or_cfg r)"
  shows "\<exists>a' stops. announce_runs ord (a, []) (a', []) \<and> d_closed a' \<and> length stops = length (d_offers a)
    \<and> d_log a' = d_log a @ map (Sent (d_mcAddr a)) (map (\<lambda>cfg. announcement cfg True) stops @ [announcement (or_cfg r) False])
    \<and> (\<forall>ord2 b t src. \<exists>b' rec. run_all (hear ord2) b (map (\<lambda>cfg. (t, cfg, True, src)) stops @ [(t, or_cfg r, False, src)]) = Some b'
        \<and> map_of (d_registry b') k = Some rec \<and> announced (or_cfg r) t rec)"
proof -
  let ?stops = "map (or_cfg \<circ> snd) (ord (d_offers a))"
  obtain a1 where a1: "Daemon_Close ord a = Some a1" "d_closed a1" "d_mcAddr a1 = d_mcAddr a"
    "d_log a1 = d_log a @ map (\<lambda>(k, r). Sent (d_mcAddr a) (stop_frame (or_cfg r))) (ord (d_offers a))"
    using Daemon_Close_eq [where ord = ord, OF assms(1-3)] by simp
  let ?a' = "write_to a1 (d_mcAddr a1) (offer_frame (or_cfg r))"
  have s1: "announce_step ord (a, []) (Some (a, [or_cfg r]))"
    using an_test [of k r a ord "[]"] assms(1,2,4) by (auto simp: daemon_ok_def)
  have s2: "announce_step ord (a, [or_cfg r]) (Some (a1, [or_cfg r]))" using an_close [of ord a "[or_cfg r]"] a1(1) by simp
  have s3: "announce_step ord (a1, [or_cfg r]) (Some (?a', []))"
    using an_send [of ord a1 "[]" "or_cfg r" "[]"] by (simp add: sendOffer_frames)
  have run: "announce_runs ord (a, []) (?a', [])" using s1 s2 s3 by (meson announce_refl announce_trans)
  have log: "d_log ?a' = d_log a @ map (Sent (d_mcAddr a)) (map (\<lambda>cfg. announcement cfg True) ?stops @ [announcement (or_cfg r) False])"
    by (simp add: write_to_def a1 announcement_def comp_def split_beta)
  have len: "length ?stops = length (d_offers a)" using mset_eq_length [OF assms(3)] by simp
  have ty: "\<forall>cfg \<in> set ?stops. e_Type (oc_Entry cfg) = EntryTypeOffer"
    using assms(1) mset_eq_setD [OF assms(3)] by (auto simp: daemon_ok_def)
  have "\<exists>b' rec. run_all (hear ord2) b (map (\<lambda>cfg. (t, cfg, True, src)) ?stops @ [(t, or_cfg r, False, src)]) = Some b'
        \<and> map_of (d_registry b') k = Some rec \<and> announced (or_cfg r) t rec" for ord2 b t src
  proof -
    let ?arr = "map (\<lambda>cfg. (t, cfg, True, src)) ?stops @ [(t, or_cfg r, False, src)]"
    have ok: "list_all arrival_ok ?arr" using ty assms(5) by (auto simp: list_all_iff arrival_ok_def)
    obtain rec where rec: "offer_record (heard (t, or_cfg r, False, src)) = Some rec" "announced (or_cfg r) t rec"
      using heard_record [of t "or_cfg r" False src] assms(5) by (auto simp: arrival_ok_def)
    have "offer_key (heard (t, or_cfg r, False, src)) = k"
      using assms(1,4) by (auto simp: offer_key_heard arrival_key_def daemon_ok_def)
    then have "map_of (apply_offer r' (heard (t, or_cfg r, False, src))) k = Some rec" for r'
      using rec(1) by (auto simp: apply_offer_def Offer_def offer_key_def offer_record_def AList.update_conv' split: prod.splits if_splits)
    then show ?thesis unfolding hear_all [OF ok] using rec(2) by (simp del: map_map)
  qed
  then show ?thesis using run log len a1(2) by (intro exI [of _ ?a'] exI [of _ ?stops]) (simp add: write_to_def)
qed

theorem sd_late_tick_witness:
  "\<exists>a a' stops. Daemon_Offer sample_daemon sample_config = Some a \<and> announce_runs rev (a, []) (a', []) \<and> d_closed a'
    \<and> length stops = 1
    \<and> d_log a' = d_log a @ map (Sent sample_group) (map (\<lambda>cfg. announcement cfg True) stops @ [announcement sample_offered False])"
proof -
  have i: "0 < interval_of sample_daemon sample_config"
    by (simp add: interval_of_def sample_config_def sample_daemon_def DefaultOfferInterval_def)
  obtain a j where a: "Daemon_Offer sample_daemon sample_config = Some a" "daemon_ok a" "\<not> d_closed a"
    "d_mcAddr a = d_mcAddr sample_daemon"
    "map_of (d_offers a) = (map_of (d_offers sample_daemon))(config_key sample_config \<mapsto> \<lparr>or_cfg = sample_offered, or_done = j\<rparr>)"
    using Daemon_Offer_ok [OF sample_daemon_ok(1) i sample_daemon_ok(2)] unfolding sample_offered_def by blast
  have m: "map_of (d_offers a) = [config_key sample_config \<mapsto> \<lparr>or_cfg = sample_offered, or_done = j\<rparr>]"
    using a(5) by (simp add: sample_daemon_def)
  have dist: "distinct (map fst (d_offers a))" using a(2) by (simp add: daemon_ok_def)
  have "set (map fst (d_offers a)) = {config_key sample_config}" using m dom_map_of_conv_image_fst [of "d_offers a"] by simp
  then have "length (map fst (d_offers a)) = 1" using distinct_card [OF dist] by simp
  moreover have "(config_key sample_config, \<lparr>or_cfg = sample_offered, or_done = j\<rparr>) \<in> set (d_offers a)"
    using m by (intro map_of_SomeD) simp
  moreover have "d_mcAddr a = sample_group" using a(4) by (simp add: sample_daemon_def)
  ultimately show ?thesis
    using sd_late_tick [OF a(2,3), of rev "config_key sample_config" "\<lparr>or_cfg = sample_offered, or_done = j\<rparr>"] a(1) sample_good(1)
    by auto
qed

end
