(* ===== verification/Mock.thy ===== *)
theory Mock
  imports SomeIP Net
begin

text \<open>
  The in-process transport: \<open>src/mock/mock.go\<close>. Servers, services and subscriptions are shared by
  reference (a service keeps its server after the bus has forgotten it), so they live in stores indexed
  by number, and an operation maps the whole state to the whole state. A map the code iterates over is an
  association list, visited in the order an \<open>ord\<close> argument gives.
\<close>

definition defaultChanDepth :: int where "defaultChanDepth = 64"

section \<open>State\<close>

record server =
  ms_key :: "u16 \<times> u16"
  ms_handlers :: "u16 \<rightharpoonup> handler"
  ms_subs :: "(u16 \<times> nat list) list"
  ms_sessionSeq :: u16
  ms_closed :: bool

record service =
  mc_srv :: nat
  mc_sessionID :: u16
  mc_closed :: bool

record subscription =
  mu_srv :: nat
  mu_eventID :: u16
  mu_ch :: "message chan"
  mu_once :: bool
  mu_closed :: bool

datatype mock_event = Handled u16 message

record Bus =
  b_servers :: "u16 \<times> u16 \<rightharpoonup> nat"
  h_servers :: "nat \<Rightarrow> server"
  h_services :: "nat \<Rightarrow> service"
  h_subs :: "nat \<Rightarrow> subscription"
  n_servers :: nat
  n_services :: nat
  n_subs :: nat
  b_log :: "mock_event list"

definition new_server :: "u16 \<times> u16 \<Rightarrow> server" where
  "new_server key = \<lparr>ms_key = key, ms_handlers = Map.empty, ms_subs = [], ms_sessionSeq = 1, ms_closed = False\<rparr>"

definition NewBus :: Bus where
  "NewBus = \<lparr>b_servers = Map.empty, h_servers = (\<lambda>_. new_server (0, 0)),
     h_services = (\<lambda>_. \<lparr>mc_srv = 0, mc_sessionID = 0, mc_closed = False\<rparr>),
     h_subs = (\<lambda>_. \<lparr>mu_srv = 0, mu_eventID = 0, mu_ch = \<lparr>ch_queue = [], ch_cap = 0, ch_closed = False\<rparr>,
       mu_once = False, mu_closed = False\<rparr>),
     n_servers = 0, n_services = 0, n_subs = 0, b_log = []\<rparr>"

definition NewServer :: "Bus \<Rightarrow> u16 \<Rightarrow> u16 \<Rightarrow> Bus \<times> (goerr + nat)" where
  "NewServer b serviceID instanceID =
     (let key = (serviceID, instanceID); s = n_servers b
      in (b\<lparr>h_servers := (h_servers b)(s := new_server key), n_servers := s + 1, b_servers := (b_servers b)(key \<mapsto> s)\<rparr>,
          Inr s))"

definition NewService :: "Bus \<Rightarrow> u16 \<Rightarrow> u16 \<Rightarrow> Bus \<times> (goerr + nat)" where
  "NewService b serviceID instanceID =
     (case b_servers b (serviceID, instanceID) of
        None \<Rightarrow> (b, Inl (Errorf ''service not found on bus'' ErrUnknownService))
      | Some srv \<Rightarrow>
          let svc = n_services b
          in (b\<lparr>h_services := (h_services b)(svc := \<lparr>mc_srv = srv, mc_sessionID = 0, mc_closed = False\<rparr>),
                n_services := svc + 1\<rparr>, Inr svc))"

section \<open>Subscriptions\<close>

definition upd_server :: "Bus \<Rightarrow> nat \<Rightarrow> (server \<Rightarrow> server) \<Rightarrow> Bus" where
  "upd_server b s f = b\<lparr>h_servers := (h_servers b)(s := f (h_servers b s))\<rparr>"

definition addSub :: "Bus \<Rightarrow> nat \<Rightarrow> u16 \<Rightarrow> nat \<Rightarrow> Bus" where
  "addSub b s eventID su = upd_server b s (\<lambda>srv.
     let srv = (case map_of (ms_subs srv) eventID of
                  None \<Rightarrow> srv\<lparr>ms_subs := AList.update eventID [] (ms_subs srv)\<rparr> | Some _ \<Rightarrow> srv)
     in case map_of (ms_subs srv) eventID of
          None \<Rightarrow> srv
        | Some subs \<Rightarrow> srv\<lparr>ms_subs := AList.update eventID (if su \<in> set subs then subs else subs @ [su]) (ms_subs srv)\<rparr>)"

definition removeSub :: "Bus \<Rightarrow> nat \<Rightarrow> u16 \<Rightarrow> nat \<Rightarrow> Bus" where
  "removeSub b s eventID su = upd_server b s (\<lambda>srv.
     case map_of (ms_subs srv) eventID of
       None \<Rightarrow> srv
     | Some subs \<Rightarrow> srv\<lparr>ms_subs := AList.update eventID (filter (\<lambda>x. x \<noteq> su) subs) (ms_subs srv)\<rparr>)"

definition closeOnce :: "Bus \<Rightarrow> nat \<Rightarrow> Bus option" where
  "closeOnce b su =
     (let u = h_subs b su
      in if mu_once u then Some b
         else do {
           c \<leftarrow> close_chan (mu_ch u);
           Some (b\<lparr>h_subs := (h_subs b)(su := u\<lparr>mu_once := True, mu_closed := True, mu_ch := c\<rparr>)\<rparr>)
         })"

definition Unsubscribe :: "Bus \<Rightarrow> nat \<Rightarrow> Bus" where
  "Unsubscribe b su = removeSub b (mu_srv (h_subs b su)) (mu_eventID (h_subs b su)) su"

definition Sub_Close :: "Bus \<Rightarrow> nat \<Rightarrow> Bus option" where
  "Sub_Close b su = (let b = Unsubscribe b su in closeOnce b su)"

section \<open>The server\<close>

definition RegisterMethod :: "Bus \<Rightarrow> nat \<Rightarrow> u16 \<Rightarrow> handler \<Rightarrow> Bus \<times> goerr option" where
  "RegisterMethod b s methodID h =
     (if ms_closed (h_servers b s) then (b, Some ErrClosed)
      else (upd_server b s (\<lambda>srv. srv\<lparr>ms_handlers := (ms_handlers srv)(methodID \<mapsto> h)\<rparr>), None))"

text \<open>\<open>Emit\<close>: the subscriptions it collects under the lock, the message, and its loop, in which the test of
  \<open>closed\<close> and the send are two steps.\<close>

definition emit_snapshot :: "(nat list \<Rightarrow> nat list) \<Rightarrow> Bus \<Rightarrow> nat \<Rightarrow> u16 \<Rightarrow> nat list" where
  "emit_snapshot ord b s eventID = (case map_of (ms_subs (h_servers b s)) eventID of None \<Rightarrow> [] | Some subs \<Rightarrow> ord subs)"

definition emit_message :: "Bus \<Rightarrow> nat \<Rightarrow> u16 \<Rightarrow> byte list \<Rightarrow> message" where
  "emit_message b s eventID payload = zero_message\<lparr>ServiceID := fst (ms_key (h_servers b s)), MethodID := eventID,
     ProtocolVersion := 0x01, MessageType := MsgTypeNotification, ReturnCode := RetOK, Payload := payload\<rparr>"

definition emit_send :: "Bus \<Rightarrow> nat \<Rightarrow> message \<Rightarrow> Bus option" where
  "emit_send b su msg = do {
     c \<leftarrow> try_send (mu_ch (h_subs b su)) msg;
     Some (b\<lparr>h_subs := (h_subs b)(su := (h_subs b su)\<lparr>mu_ch := c\<rparr>)\<rparr>)
   }"

fun emit_loop :: "Bus \<Rightarrow> nat list \<Rightarrow> message \<Rightarrow> Bus option" where
  "emit_loop b [] msg = Some b"
| "emit_loop b (su # subs) msg =
     (if mu_closed (h_subs b su) then emit_loop b subs msg
      else do { b \<leftarrow> emit_send b su msg; emit_loop b subs msg })"

definition Emit :: "(nat list \<Rightarrow> nat list) \<Rightarrow> Bus \<Rightarrow> nat \<Rightarrow> u16 \<Rightarrow> byte list \<Rightarrow> (Bus \<times> goerr option) option" where
  "Emit ord b s eventID payload =
     (if ms_closed (h_servers b s) then Some (b, Some ErrClosed)
      else do {
        let subs = emit_snapshot ord b s eventID;
        b \<leftarrow> emit_loop b subs (emit_message b s eventID payload);
        Some (b, None)
      })"

fun close_subs :: "Bus \<Rightarrow> nat list \<Rightarrow> Bus option" where
  "close_subs b [] = Some b"
| "close_subs b (su # subs) = do { b \<leftarrow> closeOnce b su; close_subs b subs }"

fun close_sets :: "(nat list \<Rightarrow> nat list) \<Rightarrow> Bus \<Rightarrow> (u16 \<times> nat list) list \<Rightarrow> Bus option" where
  "close_sets ord b [] = Some b"
| "close_sets ord b ((_, subs) # rest) = do { b \<leftarrow> close_subs b (ord subs); close_sets ord b rest }"

definition Server_Close :: "(nat list \<Rightarrow> nat list) \<Rightarrow> ((u16 \<times> nat list) list \<Rightarrow> (u16 \<times> nat list) list) \<Rightarrow> Bus \<Rightarrow> nat \<Rightarrow> Bus option" where
  "Server_Close ord ords b s =
     (if ms_closed (h_servers b s) then Some b
      else
        let b = upd_server b s (\<lambda>srv. srv\<lparr>ms_closed := True\<rparr>);
            b = b\<lparr>b_servers := (b_servers b)(ms_key (h_servers b s) := None)\<rparr>
        in close_sets ord b (ords (ms_subs (h_servers b s))))"

text \<open>\<open>call\<close> returns a message and an error, both at once when the handler fails.\<close>

definition server_call :: "Bus \<Rightarrow> nat \<Rightarrow> u16 \<Rightarrow> u16 \<Rightarrow> u16 \<Rightarrow> byte list \<Rightarrow> message \<times> goerr option" where
  "server_call b s methodID clientID sessionID payload =
     (if ms_closed (h_servers b s) then (zero_message, Some ErrClosed)
      else (case ms_handlers (h_servers b s) methodID of
          None \<Rightarrow> (zero_message, Some (Errorf ''method'' ErrUnknownMethod))
        | Some h \<Rightarrow>
            let req = zero_message\<lparr>ServiceID := fst (ms_key (h_servers b s)), MethodID := methodID, ClientID := clientID,
                        SessionID := sessionID, ProtocolVersion := 0x01, MessageType := MsgTypeRequest,
                        ReturnCode := RetOK, Payload := payload\<rparr>
            in case h req of
                 Inl err \<Rightarrow> (zero_message\<lparr>ServiceID := fst (ms_key (h_servers b s)), MethodID := methodID, ClientID := clientID,
                     SessionID := sessionID, ProtocolVersion := 0x01, MessageType := MsgTypeError,
                     ReturnCode := RetNotOK\<rparr>, Some err)
               | Inr respPayload \<Rightarrow> (zero_message\<lparr>ServiceID := fst (ms_key (h_servers b s)), MethodID := methodID,
                     ClientID := clientID, SessionID := sessionID, ProtocolVersion := 0x01,
                     MessageType := MsgTypeResponse, ReturnCode := RetOK, Payload := respPayload\<rparr>, None)))"

section \<open>The service\<close>

definition nextSession :: "Bus \<Rightarrow> nat \<Rightarrow> Bus \<times> u16" where
  "nextSession b svc =
     (let id = mc_sessionID (h_services b svc) + 1
      in (b\<lparr>h_services := (h_services b)(svc := (h_services b svc)\<lparr>mc_sessionID := id\<rparr>)\<rparr>, id))"

definition Call :: "Bus \<Rightarrow> nat \<Rightarrow> u16 \<Rightarrow> byte list \<Rightarrow> Bus \<times> message \<times> goerr option" where
  "Call b svc methodID payload =
     (if mc_closed (h_services b svc) then (b, zero_message, Some ErrClosed)
      else let (b, sessionID) = nextSession b svc
           in (b, server_call b (mc_srv (h_services b svc)) methodID 0x0001 sessionID payload))"

definition CallNoReturn :: "Bus \<Rightarrow> nat \<Rightarrow> u16 \<Rightarrow> byte list \<Rightarrow> Bus \<times> goerr option" where
  "CallNoReturn b svc methodID payload =
     (let s = mc_srv (h_services b svc)
      in if mc_closed (h_services b svc) then (b, Some ErrClosed)
         else if ms_closed (h_servers b s) then (b, Some ErrClosed)
         else (case ms_handlers (h_servers b s) methodID of
             None \<Rightarrow> (b, Some (Errorf ''method'' ErrUnknownMethod))
           | Some _ \<Rightarrow>
               let (b, sessionID) = nextSession b svc;
                   req = zero_message\<lparr>ServiceID := fst (ms_key (h_servers b s)), MethodID := methodID, ClientID := 0x0001,
                     SessionID := sessionID, ProtocolVersion := 0x01, MessageType := MsgTypeRequestNoReturn,
                     ReturnCode := RetOK, Payload := payload\<rparr>
               in (b\<lparr>b_log := b_log b @ [Handled methodID req]\<rparr>, None)))"

text \<open>\<open>Subscribe\<close>; \<open>depth\<close> is what the RELAY module makes of the options and the default.\<close>

definition Subscribe :: "Bus \<Rightarrow> nat \<Rightarrow> u16 \<Rightarrow> int \<Rightarrow> (Bus \<times> (goerr + nat)) option" where
  "Subscribe b svc eventID depth =
     (if mc_closed (h_services b svc) then Some (b, Inl ErrClosed)
      else do {
        c \<leftarrow> make_chan depth;
        let s = mc_srv (h_services b svc);
        let su = n_subs b;
        let b = b\<lparr>h_subs := (h_subs b)(su := \<lparr>mu_srv = s, mu_eventID = eventID, mu_ch = c, mu_once = False, mu_closed = False\<rparr>),
                    n_subs := su + 1\<rparr>;
        let b = addSub b s eventID su;
        Some (b, Inr su)
      })"

definition Service_Close :: "Bus \<Rightarrow> nat \<Rightarrow> Bus" where
  "Service_Close b svc = b\<lparr>h_services := (h_services b)(svc := (h_services b svc)\<lparr>mc_closed := True\<rparr>)\<rparr>"

section \<open>Whole operations\<close>

text \<open>What a user may do with a bus and the handles it was given. A subscription depth below zero panics in \<open>make\<close>.\<close>

datatype mock_op =
  Do_NewServer u16 u16 | Do_NewService u16 u16 | Do_RegisterMethod nat u16 handler | Do_Emit nat u16 "byte list"
  | Do_Server_Close nat | Do_Call nat u16 "byte list" | Do_CallNoReturn nat u16 "byte list" | Do_Subscribe nat u16 int
  | Do_Service_Close nat | Do_Unsubscribe nat | Do_Sub_Close nat

fun mock_do :: "(nat list \<Rightarrow> nat list) \<Rightarrow> ((u16 \<times> nat list) list \<Rightarrow> (u16 \<times> nat list) list) \<Rightarrow> Bus \<Rightarrow> mock_op \<Rightarrow> Bus option" where
  "mock_do ord ords b (Do_NewServer sid iid) = Some (fst (NewServer b sid iid))"
| "mock_do ord ords b (Do_NewService sid iid) = Some (fst (NewService b sid iid))"
| "mock_do ord ords b (Do_RegisterMethod s m h) = Some (fst (RegisterMethod b s m h))"
| "mock_do ord ords b (Do_Emit s ev p) = map_option fst (Emit ord b s ev p)"
| "mock_do ord ords b (Do_Server_Close s) = Server_Close ord ords b s"
| "mock_do ord ords b (Do_Call svc m p) = Some (fst (Call b svc m p))"
| "mock_do ord ords b (Do_CallNoReturn svc m p) = Some (fst (CallNoReturn b svc m p))"
| "mock_do ord ords b (Do_Subscribe svc ev depth) = map_option fst (Subscribe b svc ev depth)"
| "mock_do ord ords b (Do_Service_Close svc) = Some (Service_Close b svc)"
| "mock_do ord ords b (Do_Unsubscribe u) = Some (Unsubscribe b u)"
| "mock_do ord ords b (Do_Sub_Close u) = Sub_Close b u"

fun bad_depth :: "Bus \<Rightarrow> mock_op \<Rightarrow> bool" where
  "bad_depth b (Do_Subscribe svc ev depth) = (depth < 0 \<and> \<not> mc_closed (h_services b svc))"
| "bad_depth b _ = False"

lemma mock_do_bad_depth: "bad_depth b op \<Longrightarrow> mock_do ord ords b op = None"
  by (cases op) (simp_all add: Subscribe_def make_chan_def)

text \<open>The invariant behind panic freedom: a channel is closed exactly when its \<open>once\<close> has run, and then the
  \<open>closed\<close> flag is set.\<close>

definition subs_ok :: "(nat \<Rightarrow> subscription) \<Rightarrow> bool" where
  "subs_ok h \<longleftrightarrow> (\<forall>u. ch_closed (mu_ch (h u)) = mu_once (h u) \<and> mu_closed (h u) = mu_once (h u))"

lemma upd_server_subs [simp]:
  "h_subs (upd_server b s f) = h_subs b" "h_subs (addSub b s ev u) = h_subs b" "h_subs (removeSub b s ev u) = h_subs b"
  "h_subs (Unsubscribe b u) = h_subs b"
  by (simp_all add: upd_server_def addSub_def removeSub_def Unsubscribe_def)

definition closed_sub :: "subscription \<Rightarrow> subscription" where
  "closed_sub u = u\<lparr>mu_once := True, mu_closed := True, mu_ch := (mu_ch u)\<lparr>ch_closed := True\<rparr>\<rparr>"

lemma closed_sub_id: "subs_ok h \<Longrightarrow> mu_once (h u) \<Longrightarrow> closed_sub (h u) = h u"
  by (simp add: subs_ok_def closed_sub_def)

lemma subs_ok_closed: "subs_ok h \<Longrightarrow> subs_ok (h(u := closed_sub (h u)))"
  by (simp add: subs_ok_def closed_sub_def)

lemma closeOnce_eq: "subs_ok (h_subs b) \<Longrightarrow> closeOnce b u = Some (b\<lparr>h_subs := (h_subs b)(u := closed_sub (h_subs b u))\<rparr>)"
proof (cases "mu_once (h_subs b u)")
  case True
  assume "subs_ok (h_subs b)"
  with True show ?thesis by (simp add: closeOnce_def Let_def closed_sub_id)
qed (simp add: closeOnce_def Let_def close_chan_def closed_sub_def subs_ok_def)

lemma close_subs_eq:
  "subs_ok (h_subs b) \<Longrightarrow> close_subs b us =
     Some (b\<lparr>h_subs := (\<lambda>u. if u \<in> set us then closed_sub (h_subs b u) else h_subs b u)\<rparr>)
   \<and> subs_ok (\<lambda>u. if u \<in> set us then closed_sub (h_subs b u) else h_subs b u)"
proof (induction us arbitrary: b)
  case (Cons u us)
  let ?b = "b\<lparr>h_subs := (h_subs b)(u := closed_sub (h_subs b u))\<rparr>"
  have ok: "subs_ok (h_subs ?b)" using subs_ok_closed [OF Cons.prems] by simp
  have "(\<lambda>x. if x \<in> set us then closed_sub (h_subs ?b x) else h_subs ?b x)
      = (\<lambda>x. if x \<in> set (u # us) then closed_sub (h_subs b x) else h_subs b x)"
    by (auto simp: fun_eq_iff closed_sub_def)
  then show ?case using Cons.IH [OF ok] closeOnce_eq [OF Cons.prems] by simp
qed simp

lemma close_sets_eq:
  "subs_ok (h_subs b) \<Longrightarrow> (\<And>xs. mset (ord xs) = mset xs) \<Longrightarrow> close_sets ord b sets =
     Some (b\<lparr>h_subs := (\<lambda>u. if u \<in> \<Union> (set ` snd ` set sets) then closed_sub (h_subs b u) else h_subs b u)\<rparr>)
   \<and> subs_ok (\<lambda>u. if u \<in> \<Union> (set ` snd ` set sets) then closed_sub (h_subs b u) else h_subs b u)"
proof (induction sets arbitrary: b)
  case (Cons st sets)
  obtain ev us where st: "st = (ev, us)" by (cases st)
  have so: "set (ord us) = set us" using Cons.prems(2) by (metis set_mset_mset)
  let ?b = "b\<lparr>h_subs := (\<lambda>u. if u \<in> set us then closed_sub (h_subs b u) else h_subs b u)\<rparr>"
  have cs: "close_subs b (ord us) = Some ?b" and ok: "subs_ok (h_subs ?b)"
    using close_subs_eq [OF Cons.prems(1), of "ord us"] by (simp_all add: so)
  have "(\<lambda>u. if u \<in> \<Union> (set ` snd ` set sets) then closed_sub (h_subs ?b u) else h_subs ?b u)
      = (\<lambda>u. if u \<in> \<Union> (set ` snd ` set (st # sets)) then closed_sub (h_subs b u) else h_subs b u)"
    by (auto simp: fun_eq_iff closed_sub_def st)
  then show ?case using Cons.IH [OF ok Cons.prems(2)] cs by (simp add: st)
qed simp

text \<open>What \<open>Emit\<close> does to one subscription: a non-blocking send, unless it is closed.\<close>

definition offered :: "message \<Rightarrow> subscription \<Rightarrow> subscription" where
  "offered msg u = (if mu_closed u then u else u\<lparr>mu_ch := the (try_send (mu_ch u) msg)\<rparr>)"

lemma subs_ok_offered: "subs_ok h \<Longrightarrow> subs_ok (h(u := offered msg (h u)))"
  by (auto simp: subs_ok_def offered_def try_send_def)

lemma emit_loop_step:
  "subs_ok (h_subs b) \<Longrightarrow> emit_loop b (u # us) msg = emit_loop (b\<lparr>h_subs := (h_subs b)(u := offered msg (h_subs b u))\<rparr>) us msg"
  by (auto simp: offered_def emit_send_def subs_ok_def try_send_def)

lemma mock_emit_loop_eq:
  "subs_ok (h_subs b) \<Longrightarrow> distinct us \<Longrightarrow> emit_loop b us msg =
     Some (b\<lparr>h_subs := (\<lambda>u. if u \<in> set us then offered msg (h_subs b u) else h_subs b u)\<rparr>)
   \<and> subs_ok (\<lambda>u. if u \<in> set us then offered msg (h_subs b u) else h_subs b u)"
proof (induction us arbitrary: b)
  case (Cons u us)
  let ?b = "b\<lparr>h_subs := (h_subs b)(u := offered msg (h_subs b u))\<rparr>"
  have ok: "subs_ok (h_subs ?b)" using subs_ok_offered [OF Cons.prems(1)] by simp
  have "(\<lambda>x. if x \<in> set us then offered msg (h_subs ?b x) else h_subs ?b x)
      = (\<lambda>x. if x \<in> set (u # us) then offered msg (h_subs b x) else h_subs b x)"
    using Cons.prems(2) by (auto simp: fun_eq_iff)
  then show ?case using Cons.IH [OF ok] Cons.prems emit_loop_step [OF Cons.prems(1)] by (simp del: emit_loop.simps)
qed simp

lemma emit_loop_defined: "subs_ok (h_subs b) \<Longrightarrow> \<exists>b'. emit_loop b us msg = Some b' \<and> subs_ok (h_subs b')"
proof (induction us arbitrary: b)
  case (Cons u us)
  let ?b = "b\<lparr>h_subs := (h_subs b)(u := offered msg (h_subs b u))\<rparr>"
  have "subs_ok (h_subs ?b)" using subs_ok_offered [OF Cons.prems] by simp
  from Cons.IH [OF this] show ?case unfolding emit_loop_step [OF Cons.prems] .
qed simp

lemma Server_Close_eq:
  assumes "subs_ok (h_subs b)" "\<And>xs. mset (ord xs) = mset xs" "\<And>xs. mset (ords xs) = mset xs"
  shows "Server_Close ord ords b s = Some (if ms_closed (h_servers b s) then b
    else (upd_server b s (\<lambda>srv. srv\<lparr>ms_closed := True\<rparr>))
      \<lparr>b_servers := (b_servers b)(ms_key (h_servers b s) := None),
       h_subs := (\<lambda>u. if u \<in> \<Union> (set ` snd ` set (ms_subs (h_servers b s))) then closed_sub (h_subs b u) else h_subs b u)\<rparr>)
    \<and> subs_ok (\<lambda>u. if u \<in> \<Union> (set ` snd ` set (ms_subs (h_servers b s))) then closed_sub (h_subs b u) else h_subs b u)"
proof -
  let ?b = "(upd_server b s (\<lambda>srv. srv\<lparr>ms_closed := True\<rparr>))\<lparr>b_servers := (b_servers b)(ms_key (h_servers b s) := None)\<rparr>"
  have so: "set (ords xs) = set xs" for xs using assms(3) by (metis set_mset_mset)
  have hs: "h_subs ?b = h_subs b" by simp
  then have "subs_ok (h_subs ?b)" using assms(1) by (simp only:)
  from close_sets_eq [OF this assms(2), where sets = "ords (ms_subs (h_servers ?b s))"]
  show ?thesis unfolding hs
    by (cases "ms_closed (h_servers b s)") (simp_all add: Server_Close_def so upd_server_def Let_def)
qed

lemma mock_do_ok:
  assumes "subs_ok (h_subs b)" "\<And>xs. mset (ord xs) = mset xs" "\<And>xs. mset (ords xs) = mset xs"
    and "\<not> bad_depth b op"
  shows "\<exists>b'. mock_do ord ords b op = Some b' \<and> subs_ok (h_subs b')"
proof (cases op)
  case (Do_Emit s ev p)
  then show ?thesis
    using assms(1) emit_loop_defined [OF assms(1), of "emit_snapshot ord b s ev" "emit_message b s ev p"]
    by (auto simp: Emit_def Let_def)
next
  case (Do_Server_Close s)
  then show ?thesis using assms(1) Server_Close_eq [OF assms(1-3), of s] by auto
next
  case (Do_Sub_Close u)
  then show ?thesis
    using closeOnce_eq [of "Unsubscribe b u" u] subs_ok_closed [OF assms(1), of u] assms(1) by (simp add: Sub_Close_def Let_def)
next
  case (Do_Subscribe svc ev depth)
  then show ?thesis
    using assms(1,4) by (auto simp: Subscribe_def make_chan_def Let_def subs_ok_def)
qed (use assms(1) in \<open>simp_all add: NewServer_def NewService_def RegisterMethod_def Call_def CallNoReturn_def nextSession_def
  Service_Close_def Let_def split: option.split prod.split\<close>)

section \<open>Concurrent use\<close>

text \<open>
  \<open>Emit\<close> runs its loop without a lock, so that other operations take place between its steps. The state of
  the machine is the bus and the running emitters: the subscriptions left, the message, and whether the first
  of them has been tested and found open. A panic leads to \<^term>\<open>None\<close>; the one a \<open>Subscribe\<close> of a negative depth brings
  about ends the program and is no step here.
\<close>

type_synonym emitter = "nat list \<times> message \<times> bool"

inductive mock_step :: "(nat list \<Rightarrow> nat list) \<Rightarrow> ((u16 \<times> nat list) list \<Rightarrow> (u16 \<times> nat list) list) \<Rightarrow>
    Bus \<times> (nat \<rightharpoonup> emitter) \<Rightarrow> (Bus \<times> (nat \<rightharpoonup> emitter)) option \<Rightarrow> bool" for ord ords where
  ms_op: "\<not> bad_depth b op \<Longrightarrow> mock_step ord ords (b, es) (map_option (\<lambda>b. (b, es)) (mock_do ord ords b op))"
| ms_emit: "es t = None \<Longrightarrow> \<not> ms_closed (h_servers b s) \<Longrightarrow>
    mock_step ord ords (b, es) (Some (b, es(t \<mapsto> (emit_snapshot ord b s ev, emit_message b s ev p, False))))"
| ms_skip: "es t = Some (u # us, msg, False) \<Longrightarrow> mu_closed (h_subs b u) \<Longrightarrow>
    mock_step ord ords (b, es) (Some (b, es(t \<mapsto> (us, msg, False))))"
| ms_test: "es t = Some (u # us, msg, False) \<Longrightarrow> \<not> mu_closed (h_subs b u) \<Longrightarrow>
    mock_step ord ords (b, es) (Some (b, es(t \<mapsto> (u # us, msg, True))))"
| ms_send: "es t = Some (u # us, msg, True) \<Longrightarrow>
    mock_step ord ords (b, es) (map_option (\<lambda>b. (b, es(t \<mapsto> (us, msg, False)))) (emit_send b u msg))"
| ms_done: "es t = Some ([], msg, False) \<Longrightarrow> mock_step ord ords (b, es) (Some (b, es(t := None)))"

inductive mock_reachable :: "(nat list \<Rightarrow> nat list) \<Rightarrow> ((u16 \<times> nat list) list \<Rightarrow> (u16 \<times> nat list) list) \<Rightarrow>
    Bus \<times> (nat \<rightharpoonup> emitter) \<Rightarrow> bool" for ord ords where
  mr_new: "mock_reachable ord ords (NewBus, Map.empty)"
| mr_step: "mock_reachable ord ords y \<Longrightarrow> mock_step ord ords y (Some y') \<Longrightarrow> mock_reachable ord ords y'"

lemma emit_send_eq: "subs_ok (h_subs b) \<Longrightarrow> emit_send b u msg =
    (if mu_closed (h_subs b u) then None else Some (b\<lparr>h_subs := (h_subs b)(u := offered msg (h_subs b u))\<rparr>))"
  by (simp add: emit_send_def offered_def subs_ok_def try_send_def)

lemma subs_ok_send: "subs_ok (h_subs b) \<Longrightarrow> emit_send b u msg = Some b' \<Longrightarrow> subs_ok (h_subs b')"
  using subs_ok_offered [of "h_subs b" u msg] by (auto simp: emit_send_eq split: if_splits)

lemma mock_reachable_ok:
  assumes "\<And>xs. mset (ord xs) = mset xs" "\<And>xs. mset (ords xs) = mset xs"
  shows "mock_reachable ord ords y \<Longrightarrow> subs_ok (h_subs (fst y))"
proof (induction rule: mock_reachable.induct)
  case mr_new
  then show ?case by (simp add: NewBus_def subs_ok_def)
next
  case (mr_step y y')
  from mr_step.hyps(2) show ?case
  proof (cases rule: mock_step.cases)
    case (ms_op b op es)
    obtain b' where "mock_do ord ords b op = Some b'" "subs_ok (h_subs b')"
      using mock_do_ok [OF _ assms, of b op] mr_step.IH ms_op by auto
    then show ?thesis using ms_op by simp
  next
    case (ms_send es t u us msg b)
    then obtain b' where "emit_send b u msg = Some b'" "fst y' = b'" by (cases "emit_send b u msg") auto
    then show ?thesis using mr_step.IH ms_send subs_ok_send [of b u msg b'] by simp
  qed (use mr_step.IH in auto)
qed

text \<open>The server's sets of subscriptions are sets: no entry lists a subscription twice.\<close>

definition sets_ok :: "(nat \<Rightarrow> server) \<Rightarrow> bool" where
  "sets_ok h \<longleftrightarrow> (\<forall>s. \<forall>x \<in> set (ms_subs (h s)). distinct (snd x))"

lemma AList_update_mem: "x \<in> set (AList.update k v al) \<Longrightarrow> x = (k, v) \<or> x \<in> set al"
  by (induction al) (auto split: if_splits)

lemma sets_ok_update:
  assumes "sets_ok h" "distinct us"
  shows "sets_ok (h(s := (h s)\<lparr>ms_subs := AList.update ev us (ms_subs (h s))\<rparr>))"
  using assms AList_update_mem by (fastforce simp: sets_ok_def)

lemma sets_ok_lookup: "sets_ok h \<Longrightarrow> map_of (ms_subs (h s)) ev = Some us \<Longrightarrow> distinct us"
  by (fastforce simp: sets_ok_def dest!: map_of_SomeD)

lemma addSub_servers:
  "h_servers (addSub b s ev u) = (let h = h_servers b;
     h = (case map_of (ms_subs (h s)) ev of None \<Rightarrow> h(s := (h s)\<lparr>ms_subs := AList.update ev [] (ms_subs (h s))\<rparr>) | Some _ \<Rightarrow> h);
     us = the (map_of (ms_subs (h s)) ev)
     in h(s := (h s)\<lparr>ms_subs := AList.update ev (if u \<in> set us then us else us @ [u]) (ms_subs (h s))\<rparr>))"
  by (auto simp: addSub_def upd_server_def Let_def fun_eq_iff update_conv' split: option.split)

lemma sets_ok_addSub: assumes "sets_ok (h_servers b)" shows "sets_ok (h_servers (addSub b s ev u))"
  unfolding addSub_servers Let_def
proof (intro sets_ok_update)
  let ?h = "case map_of (ms_subs (h_servers b s)) ev of
      None \<Rightarrow> (h_servers b)(s := (h_servers b s)\<lparr>ms_subs := AList.update ev [] (ms_subs (h_servers b s))\<rparr>) | Some _ \<Rightarrow> h_servers b"
  show h: "sets_ok ?h" using assms by (auto intro: sets_ok_update split: option.split)
  have "map_of (ms_subs (?h s)) ev \<noteq> None" by (simp add: update_conv' split: option.split)
  then have "distinct (the (map_of (ms_subs (?h s)) ev))" using sets_ok_lookup [OF h] by force
  then show "distinct (if u \<in> set (the (map_of (ms_subs (?h s)) ev)) then the (map_of (ms_subs (?h s)) ev)
      else the (map_of (ms_subs (?h s)) ev) @ [u])" by simp
qed

lemma sets_ok_removeSub: assumes "sets_ok (h_servers b)" shows "sets_ok (h_servers (removeSub b s ev u))"
  using assms sets_ok_lookup [OF assms, of s ev]
  by (auto simp: removeSub_def upd_server_def intro: sets_ok_update split: option.split)

lemma emit_send_servers: "emit_send b u msg = Some b' \<Longrightarrow> h_servers b' = h_servers b"
  by (auto simp: emit_send_def split: bind_splits)

lemma emit_loop_servers: "emit_loop b us msg = Some b' \<Longrightarrow> h_servers b' = h_servers b"
proof (induction us arbitrary: b)
  case (Cons u us)
  then show ?case by (auto dest: emit_send_servers split: if_splits bind_splits)
qed simp

lemma closeOnce_servers: "closeOnce b u = Some b' \<Longrightarrow> h_servers b' = h_servers b"
  by (auto simp: closeOnce_def Let_def split: if_splits bind_splits)

lemma close_sets_servers:
  "close_subs b us = Some b' \<Longrightarrow> h_servers b' = h_servers b"
  "close_sets ord b sets = Some b' \<Longrightarrow> h_servers b' = h_servers b"
proof -
  show sub: "h_servers b' = h_servers b" if "close_subs b us = Some b'" for b us b'
    using that by (induction us arbitrary: b) (auto dest: closeOnce_servers split: bind_splits)
  show "h_servers b' = h_servers b" if "close_sets ord b sets = Some b'"
    using that
  proof (induction sets arbitrary: b)
    case (Cons st sets)
    obtain ev us b1 where "st = (ev, us)" "close_subs b (ord us) = Some b1" "close_sets ord b1 sets = Some b'"
      using Cons.prems by (cases st) (auto split: bind_splits)
    then show ?case using Cons.IH [of b1] sub [of b "ord us" b1] by simp
  qed simp
qed

lemma mock_do_sets:
  assumes "sets_ok (h_servers b)" "mock_do ord ords b op = Some b'"
  shows "sets_ok (h_servers b')"
proof (cases op)
  case (Do_NewServer sid iid)
  then show ?thesis using assms by (fastforce simp: NewServer_def new_server_def sets_ok_def Let_def split: if_splits)
next
  case (Do_RegisterMethod s m h)
  then show ?thesis using assms by (fastforce simp: RegisterMethod_def sets_ok_def upd_server_def split: if_splits)
next
  case (Do_Emit s ev p)
  then show ?thesis using assms by (auto simp: Emit_def Let_def dest: emit_loop_servers split: if_splits bind_splits)
next
  case (Do_Server_Close s)
  have "sets_ok (h_servers (upd_server b s (\<lambda>srv. srv\<lparr>ms_closed := True\<rparr>)))" using assms(1) by (simp add: sets_ok_def upd_server_def)
  then show ?thesis using assms Do_Server_Close by (auto simp: Server_Close_def Let_def dest!: close_sets_servers(2) split: if_splits)
next
  case (Do_Subscribe svc ev depth)
  then show ?thesis
    using assms by (auto simp: Subscribe_def make_chan_def Let_def intro!: sets_ok_addSub split: if_splits)
next
  case (Do_Unsubscribe u)
  then show ?thesis using assms by (auto simp: Unsubscribe_def sets_ok_removeSub)
next
  case (Do_Sub_Close u)
  then show ?thesis using assms by (auto simp: Sub_Close_def Unsubscribe_def Let_def sets_ok_removeSub dest!: closeOnce_servers)
qed (use assms in \<open>auto simp: NewService_def Call_def CallNoReturn_def nextSession_def Service_Close_def Let_def
  split: option.splits if_splits\<close>)

lemma mock_reachable_sets: "mock_reachable ord ords y \<Longrightarrow> sets_ok (h_servers (fst y))"
proof (induction rule: mock_reachable.induct)
  case mr_new
  then show ?case by (simp add: NewBus_def sets_ok_def new_server_def)
next
  case (mr_step y y')
  from mr_step.hyps(2) show ?case
  proof (cases rule: mock_step.cases)
    case (ms_op b op es)
    then obtain b' where "mock_do ord ords b op = Some b'" "fst y' = b'" by (cases "mock_do ord ords b op") auto
    then show ?thesis using mr_step.IH ms_op mock_do_sets [of b ord ords op b'] by simp
  next
    case (ms_send es t u us msg b)
    then obtain b' where "emit_send b u msg = Some b'" "fst y' = b'" by (cases "emit_send b u msg") auto
    then show ?thesis using mr_step.IH ms_send emit_send_servers [of b u msg b'] by simp
  qed (use mr_step.IH in auto)
qed

section \<open>Properties\<close>

text \<open>C21: the invariant of the in-process bus, and where it can panic. In every state that operations and emitters can bring
  about, however they interleave, the channel of a subscription is closed exactly when its \<open>once\<close> has run and its flag
  is set, and no set of a server lists a subscription twice. There every complete operation either returns, and
  keeps this, or panics because it is a \<open>Subscribe\<close> of a negative depth at an open service. Of the steps of
  concurrent emitters and the other operations one alone can panic, the send of an \<open>Emit\<close>, and it does exactly when
  the subscription was closed after \<open>Emit\<close> had tested it.\<close>

theorem mock_panics_only_in_race:
  assumes "\<And>xs. mset (ord xs) = mset xs" "\<And>xs. mset (ords xs) = mset xs" "mock_reachable ord ords (b, es)"
  shows "subs_ok (h_subs b) \<and> sets_ok (h_servers b) \<and>
    (\<forall>op. case mock_do ord ords b op of
        None \<Rightarrow> (\<exists>svc ev depth. op = Do_Subscribe svc ev depth \<and> depth < 0 \<and> \<not> mc_closed (h_services b svc))
      | Some b' \<Rightarrow> subs_ok (h_subs b') \<and> sets_ok (h_servers b')
          \<and> (\<forall>svc ev depth. op = Do_Subscribe svc ev depth \<and> depth < 0 \<longrightarrow> mc_closed (h_services b svc))) \<and>
    (\<forall>y. mock_step ord ords (b, es) (Some y) \<longrightarrow> subs_ok (h_subs (fst y)) \<and> sets_ok (h_servers (fst y))) \<and>
    (mock_step ord ords (b, es) None \<longleftrightarrow> (\<exists>t u us msg. es t = Some (u # us, msg, True) \<and> mu_closed (h_subs b u)))"
proof (intro conjI allI impI)
  show ok: "subs_ok (h_subs b)" using mock_reachable_ok [OF assms] by simp
  show sets: "sets_ok (h_servers b)" using mock_reachable_sets [OF assms(3)] by simp
  have bad: "bad_depth b op \<longleftrightarrow> (\<exists>svc ev depth. op = Do_Subscribe svc ev depth \<and> depth < 0 \<and> \<not> mc_closed (h_services b svc))" for op
    by (cases op) auto
  show "case mock_do ord ords b op of
        None \<Rightarrow> (\<exists>svc ev depth. op = Do_Subscribe svc ev depth \<and> depth < 0 \<and> \<not> mc_closed (h_services b svc))
      | Some b' \<Rightarrow> subs_ok (h_subs b') \<and> sets_ok (h_servers b')
          \<and> (\<forall>svc ev depth. op = Do_Subscribe svc ev depth \<and> depth < 0 \<longrightarrow> mc_closed (h_services b svc))" for op
    using mock_do_ok [OF ok assms(1,2), of op] mock_do_sets [OF sets, of ord ords op] mock_do_bad_depth [of b op ord ords] bad [of op]
    by (cases "bad_depth b op") auto
  show "subs_ok (h_subs (fst y))" "sets_ok (h_servers (fst y))" if "mock_step ord ords (b, es) (Some y)" for y
    using mock_reachable_ok [OF assms(1,2)] mock_reachable_sets mr_step [OF assms(3) that] by blast+
  have ops: "mock_do ord ords b op \<noteq> None" if "\<not> bad_depth b op" for op using mock_do_ok [OF ok assms(1,2) that] by fastforce
  show "mock_step ord ords (b, es) None \<longleftrightarrow> (\<exists>t u us msg. es t = Some (u # us, msg, True) \<and> mu_closed (h_subs b u))"
  proof
    assume "mock_step ord ords (b, es) None"
    then show "\<exists>t u us msg. es t = Some (u # us, msg, True) \<and> mu_closed (h_subs b u)"
      by (cases rule: mock_step.cases) (use ops emit_send_eq [OF ok] in \<open>auto split: if_splits\<close>)
  next
    assume "\<exists>t u us msg. es t = Some (u # us, msg, True) \<and> mu_closed (h_subs b u)"
    then obtain t u us msg where t: "es t = Some (u # us, msg, True)" "emit_send b u msg = None" by (auto simp: emit_send_eq [OF ok])
    from ms_send [where es = es and b = b and ord = ord and ords = ords, OF t(1)] show "mock_step ord ords (b, es) None" unfolding t(2) by simp
  qed
qed

lemma mock_reachable_run:
  "run_all (mock_do ord ords) b ops = Some b' \<Longrightarrow> mock_reachable ord ords (b, es) \<Longrightarrow> mock_reachable ord ords (b', es)"
proof (induction ops arbitrary: b)
  case (Cons op ops)
  then obtain b1 where b1: "mock_do ord ords b op = Some b1" "run_all (mock_do ord ords) b1 ops = Some b'"
    by (auto split: bind_splits)
  have "\<not> bad_depth b op" using mock_do_bad_depth [of b op ord ords] b1(1) by auto
  from ms_op [OF this, of ord ords es] b1(1) have "mock_step ord ords (b, es) (Some (b1, es))" by simp
  then show ?case using Cons b1(2) mr_step by blast
qed simp

definition race_setup :: "mock_op list" where
  "race_setup = [Do_NewServer 1 1, Do_NewService 1 1, Do_Subscribe 0 7 4]"

definition race_bus :: Bus where "race_bus = the (run_all (mock_do id id) NewBus race_setup)"

lemma race_bus_facts:
  "run_all (mock_do id id) NewBus race_setup = Some race_bus" "emit_snapshot id race_bus 0 7 = [0]"
  "mu_closed (h_subs race_bus 0) = False" "ms_closed (h_servers race_bus 0) = False" "subs_ok (h_subs race_bus)"
proof -
  have s: "\<exists>b. run_all (mock_do id id) NewBus race_setup = Some b"
    by (simp add: race_setup_def Subscribe_def NewServer_def NewService_def NewBus_def make_chan_def Let_def)
  then show e: "run_all (mock_do id id) NewBus race_setup = Some race_bus" by (auto simp: race_bus_def)
  show "emit_snapshot id race_bus 0 7 = [0]" "mu_closed (h_subs race_bus 0) = False" "ms_closed (h_servers race_bus 0) = False"
    by (simp_all add: race_bus_def race_setup_def Subscribe_def NewServer_def NewService_def NewBus_def make_chan_def Let_def
        addSub_def upd_server_def emit_snapshot_def new_server_def)
  show "subs_ok (h_subs race_bus)"
    using mock_reachable_ok [OF _ _ mock_reachable_run [OF e mr_new]] by simp
qed

theorem mock_panics_only_in_race_witness:
  "\<exists>b. mock_reachable id id (b, Map.empty) \<and> subs_ok (h_subs b) \<and> \<not> mock_step id id (b, Map.empty) None \<and>
     (\<forall>s. mock_do id id b (Do_Server_Close s) \<noteq> None) \<and> mock_do id id b (Do_Subscribe 0 7 (-1)) = None"
proof -
  have r: "mock_reachable id id (race_bus, Map.empty)" by (rule mock_reachable_run [OF race_bus_facts(1) mr_new])
  note p = mock_panics_only_in_race [OF _ _ r, simplified]
  have "mock_do id id race_bus (Do_Server_Close s) \<noteq> None" for s
    using spec [OF p [THEN conjunct2, THEN conjunct2, THEN conjunct1], of "Do_Server_Close s"] by (auto split: option.splits)
  moreover have "\<not> mc_closed (h_services race_bus 0)"
    by (simp add: race_bus_def race_setup_def Subscribe_def NewServer_def NewService_def NewBus_def make_chan_def Let_def addSub_def upd_server_def)
  ultimately show ?thesis using r p by (intro exI [of _ race_bus]) (auto simp: mock_do_bad_depth simp del: mock_do.simps)
qed

text \<open>The race exists. A subscription that is closed while the server emits to it can make \<open>Emit\<close> send on
  a closed channel, which panics, although the code tests \<open>closed\<close> before every send.\<close>

theorem mock_emit_close_race:
  "\<exists>y. mock_reachable id id y \<and> mock_step id id y None"
proof -
  let ?msg = "emit_message race_bus 0 7 [5]"
  let ?e1 = "[0 \<mapsto> ([0], ?msg, False)]" and ?e2 = "[0 \<mapsto> ([0], ?msg, True)]"
  have r0: "mock_reachable id id (race_bus, Map.empty)" by (rule mock_reachable_run [OF race_bus_facts(1) mr_new])
  have "mock_step id id (race_bus, Map.empty) (Some (race_bus, ?e1))"
    using ms_emit [of Map.empty 0 race_bus 0 id id 7 "[5]"] race_bus_facts(2,4) by simp
  with r0 have r1: "mock_reachable id id (race_bus, ?e1)" by (rule mr_step)
  have "mock_step id id (race_bus, ?e1) (Some (race_bus, ?e2))"
    using ms_test [of ?e1 0 0 "[]" ?msg race_bus id id] race_bus_facts(3) by simp
  with r1 have r2: "mock_reachable id id (race_bus, ?e2)" by (rule mr_step)
  obtain b where b: "mock_do id id race_bus (Do_Sub_Close 0) = Some b" "mu_closed (h_subs b 0)" "subs_ok (h_subs b)"
    using closeOnce_eq [of "Unsubscribe race_bus 0" 0] subs_ok_closed [OF race_bus_facts(5), of 0] race_bus_facts(5)
    by (simp add: Sub_Close_def Let_def) (simp add: closed_sub_def)
  have "mock_step id id (race_bus, ?e2) (Some (b, ?e2))" using ms_op [of race_bus "Do_Sub_Close 0" id id ?e2] b(1) by simp
  with r2 have r3: "mock_reachable id id (b, ?e2)" by (rule mr_step)
  have "mock_step id id (b, ?e2) None"
    using ms_send [of ?e2 0 0 "[]" ?msg id id b] b(2,3) by (simp add: emit_send_eq)
  with r3 show ?thesis by blast
qed

text \<open>What \<open>Emit\<close> delivers. Whatever was done to the bus before, every subscription the server holds for the event, and no other, is offered the
  notification once: an open one with room gets it at the end of its channel, a full one drops it, a closed
  one is left alone; the order of the map does not matter. A closed server emits nothing.\<close>

theorem mock_emit_delivers:
  assumes "mock_reachable ord ords (b, es)" "\<And>xs. mset (ord xs) = mset xs" "\<And>xs. mset (ords xs) = mset xs"
  shows "\<exists>b' err. Emit ord b s ev p = Some (b', err) \<and> (err = None \<longleftrightarrow> \<not> ms_closed (h_servers b s))
    \<and> (\<forall>u. h_subs b' u = (if err = None \<and> u \<in> set (emit_snapshot id b s ev) \<and> \<not> mu_closed (h_subs b u)
            \<and> int (length (ch_queue (mu_ch (h_subs b u)))) < ch_cap (mu_ch (h_subs b u))
          then (h_subs b u)\<lparr>mu_ch := (mu_ch (h_subs b u))\<lparr>ch_queue := ch_queue (mu_ch (h_subs b u)) @ [emit_message b s ev p]\<rparr>\<rparr>
          else h_subs b u))"
proof (cases "ms_closed (h_servers b s)")
  case True
  then show ?thesis by (simp add: Emit_def ErrClosed_def)
next
  case False
  have ok: "subs_ok (h_subs b)" "sets_ok (h_servers b)"
    using mock_reachable_ok [OF assms(2,3,1)] mock_reachable_sets [OF assms(1)] by simp_all
  let ?us = "emit_snapshot ord b s ev" and ?msg = "emit_message b s ev p"
  have perm: "mset ?us = mset (emit_snapshot id b s ev)"
    using assms(2) by (simp add: emit_snapshot_def split: option.split)
  have "distinct (emit_snapshot id b s ev)"
    using sets_ok_lookup [OF ok(2)] by (auto simp: emit_snapshot_def split: option.split)
  then have d: "distinct ?us" using perm by (metis mset_eq_imp_distinct_iff)
  have st: "set ?us = set (emit_snapshot id b s ev)" using perm by (rule mset_eq_setD)
  obtain b' where b': "emit_loop b ?us ?msg = Some b'"
    "h_subs b' = (\<lambda>u. if u \<in> set (emit_snapshot id b s ev) then offered ?msg (h_subs b u) else h_subs b u)"
    using mock_emit_loop_eq [OF ok(1) d, of ?msg] unfolding st by auto
  have off: "offered ?msg (h_subs b u) = (if \<not> mu_closed (h_subs b u)
            \<and> int (length (ch_queue (mu_ch (h_subs b u)))) < ch_cap (mu_ch (h_subs b u))
          then (h_subs b u)\<lparr>mu_ch := (mu_ch (h_subs b u))\<lparr>ch_queue := ch_queue (mu_ch (h_subs b u)) @ [?msg]\<rparr>\<rparr>
          else h_subs b u)" for u
    using ok(1) by (simp add: offered_def try_send_def subs_ok_def)
  show ?thesis
    using False b'(1) by (simp add: Emit_def b'(2) off)
qed

theorem mock_emit_delivers_witness:
  "\<exists>b'. Emit id race_bus 0 7 [5] = Some (b', None) \<and> map Payload (ch_queue (mu_ch (h_subs b' 0))) = [[5]]"
proof -
  have q: "ch_queue (mu_ch (h_subs race_bus 0)) = []" "ch_cap (mu_ch (h_subs race_bus 0)) = 4"
    by (simp_all add: race_bus_def race_setup_def Subscribe_def NewServer_def NewService_def NewBus_def make_chan_def Let_def
        addSub_def upd_server_def new_server_def)
  obtain b' err where b': "Emit id race_bus 0 7 [5] = Some (b', err)" "err = None \<longleftrightarrow> \<not> ms_closed (h_servers race_bus 0)"
    "\<forall>u. h_subs b' u = (if err = None \<and> u \<in> set (emit_snapshot id race_bus 0 7) \<and> \<not> mu_closed (h_subs race_bus u)
            \<and> int (length (ch_queue (mu_ch (h_subs race_bus u)))) < ch_cap (mu_ch (h_subs race_bus u))
          then (h_subs race_bus u)\<lparr>mu_ch := (mu_ch (h_subs race_bus u))\<lparr>ch_queue := ch_queue (mu_ch (h_subs race_bus u))
            @ [emit_message race_bus 0 7 [5]]\<rparr>\<rparr> else h_subs race_bus u)"
    using mock_emit_delivers [OF mock_reachable_run [OF race_bus_facts(1) mr_new], of 0 7 "[5]"] by auto
  have e: "err = None" using b'(2) race_bus_facts(4) by simp
  have "ch_queue (mu_ch (h_subs b' 0)) = [emit_message race_bus 0 7 [5]]"
    using b'(3) race_bus_facts(2,3) q by (simp add: e)
  then show ?thesis using b'(1) by (simp add: e emit_message_def)
qed

text \<open>Closing a server. \<open>Close\<close> never panics, closes the channel of every subscription the server holds and of
  no other, keeping what is still in it, and takes the server off the bus; afterwards every operation on the
  server is refused with \<open>ErrClosed\<close>, also through a service that was connected before, and a second \<open>Close\<close>
  does nothing.\<close>

theorem mock_server_close:
  assumes "subs_ok (h_subs b)" "\<And>xs. mset (ord xs) = mset xs" "\<And>xs. mset (ords xs) = mset xs" "\<not> ms_closed (h_servers b s)"
  shows "\<exists>b'. Server_Close ord ords b s = Some b' \<and> Server_Close ord ords b' s = Some b'
    \<and> b_servers b' (ms_key (h_servers b s)) = None
    \<and> (\<forall>u. if \<exists>(ev, us) \<in> set (ms_subs (h_servers b s)). u \<in> set us
         then ch_closed (mu_ch (h_subs b' u)) \<and> ch_queue (mu_ch (h_subs b' u)) = ch_queue (mu_ch (h_subs b u))
         else h_subs b' u = h_subs b u)
    \<and> RegisterMethod b' s m h = (b', Some ErrClosed) \<and> Emit ord b' s ev p = Some (b', Some ErrClosed)
    \<and> (mc_srv (h_services b svc) = s \<longrightarrow> snd (snd (Call b' svc m p)) = Some ErrClosed \<and> snd (CallNoReturn b' svc m p) = Some ErrClosed)"
proof -
  let ?us = "\<Union> (set ` snd ` set (ms_subs (h_servers b s)))"
  let ?b = "(upd_server b s (\<lambda>srv. srv\<lparr>ms_closed := True\<rparr>))
      \<lparr>b_servers := (b_servers b)(ms_key (h_servers b s) := None),
       h_subs := (\<lambda>u. if u \<in> ?us then closed_sub (h_subs b u) else h_subs b u)\<rparr>"
  have cl: "Server_Close ord ords b s = Some ?b" using Server_Close_eq [OF assms(1-3), of s] assms(4) by simp
  have closed: "ms_closed (h_servers ?b s)" by (simp add: upd_server_def)
  have keep: "h_services ?b = h_services b" by (simp add: upd_server_def)
  have mem: "(\<exists>(ev, us) \<in> set (ms_subs (h_servers b s)). u \<in> set us) \<longleftrightarrow> u \<in> ?us" for u by force
  have "mc_srv (h_services b svc) = s \<longrightarrow> snd (snd (Call ?b svc m p)) = Some ErrClosed \<and> snd (CallNoReturn ?b svc m p) = Some ErrClosed"
    using closed keep by (simp add: Call_def CallNoReturn_def nextSession_def server_call_def Let_def)
  then show ?thesis
    using cl closed unfolding mem
    by (intro exI [of _ ?b]) (simp add: Server_Close_def RegisterMethod_def Emit_def closed_sub_def)
qed

theorem mock_server_close_witness:
  "\<exists>b'. Server_Close id id race_bus 0 = Some b' \<and> ch_closed (mu_ch (h_subs b' 0))"
proof -
  have mem: "\<exists>(ev, us) \<in> set (ms_subs (h_servers race_bus 0)). 0 \<in> set us"
    by (simp add: race_bus_def race_setup_def Subscribe_def NewServer_def NewService_def NewBus_def make_chan_def Let_def
        addSub_def upd_server_def new_server_def)
  have opn: "\<not> ms_closed (h_servers race_bus 0)" using race_bus_facts(4) by simp
  obtain b' where b': "Server_Close id id race_bus 0 = Some b'"
    "\<forall>u. if \<exists>(ev, us) \<in> set (ms_subs (h_servers race_bus 0)). u \<in> set us
         then ch_closed (mu_ch (h_subs b' u)) \<and> ch_queue (mu_ch (h_subs b' u)) = ch_queue (mu_ch (h_subs race_bus u))
         else h_subs b' u = h_subs race_bus u"
    using mock_server_close [OF race_bus_facts(5) _ _ opn, of id id] by (metis id_apply)
  have "ch_closed (mu_ch (h_subs b' 0))" using spec [OF b'(2), of 0] unfolding if_P [OF mem] by blast
  then show ?thesis using b'(1) by blast
qed

text \<open>A server that was replaced. \<open>NewServer\<close> with a key that is taken replaces the entry of the bus and leaves
  the old server running; closing the old server then takes the new one off the bus, so that no service can be
  connected to it any more, although it is open.\<close>

theorem mock_replaced_server_unreachable:
  assumes "subs_ok (h_subs b)" "\<And>xs. mset (ord xs) = mset xs" "\<And>xs. mset (ords xs) = mset xs"
  shows "\<exists>b1 old b2 new b3. NewServer b sid iid = (b1, Inr old) \<and> NewServer b1 sid iid = (b2, Inr new)
    \<and> snd (NewService b2 sid iid) = Inr (n_services b2) \<and> Server_Close ord ords b2 old = Some b3
    \<and> \<not> ms_closed (h_servers b3 new) \<and> NewService b3 sid iid = (b3, Inl (Errorf ''service not found on bus'' ErrUnknownService))"
proof -
  let ?b1 = "fst (NewServer b sid iid)" and ?old = "n_servers b"
  let ?b2 = "fst (NewServer ?b1 sid iid)" and ?new = "n_servers b + 1"
  have n: "NewServer b sid iid = (?b1, Inr ?old)" "NewServer ?b1 sid iid = (?b2, Inr ?new)"
    by (simp_all add: NewServer_def Let_def)
  have f: "h_subs ?b2 = h_subs b" "\<not> ms_closed (h_servers ?b2 ?old)" "ms_key (h_servers ?b2 ?old) = (sid, iid)"
    "\<not> ms_closed (h_servers ?b2 ?new)" "b_servers ?b2 (sid, iid) = Some ?new"
    by (simp_all add: NewServer_def Let_def new_server_def)
  obtain b3 where b3: "Server_Close ord ords ?b2 ?old = Some b3" "b_servers b3 = (b_servers ?b2)((sid, iid) := None)"
    "\<not> ms_closed (h_servers b3 ?new)"
    using Server_Close_eq [of ?b2 ord ords ?old] assms f by (simp add: upd_server_def)
  have "snd (NewService ?b2 sid iid) = Inr (n_services ?b2)" using f(5) by (simp add: NewService_def Let_def)
  moreover have "NewService b3 sid iid = (b3, Inl (Errorf ''service not found on bus'' ErrUnknownService))"
    by (simp add: NewService_def b3(2))
  ultimately show ?thesis using n b3(1,3) by blast
qed

theorem mock_replaced_server_unreachable_witness:
  "\<exists>b3 new. \<not> ms_closed (h_servers b3 new) \<and> NewService b3 1 2 = (b3, Inl (Errorf ''service not found on bus'' ErrUnknownService))"
proof -
  have "subs_ok (h_subs NewBus)" by (simp add: NewBus_def subs_ok_def)
  from mock_replaced_server_unreachable [OF this, of id id 1 2] show ?thesis by auto
qed

end
