(* ===== verification/UDP.thy ===== *)
theory UDP
  imports Codec Net
begin

text \<open>
  The UDP transport: \<open>src/udp/udp.go\<close>. Server and Service are records; a datagram written and a
  handler started on its own goroutine are appended to the log. The server's log is what it writes: the code ignores what
  \<open>WriteToUDP\<close> returns, and whether a datagram leaves the host is the socket's matter, which \<open>Goroutines\<close> tells apart (a write
  fails after \<open>Close\<close>, and for more than 65507 bytes). The channels of a Service live in a
  store indexed by number, as calls, subscriptions and the read loop share them by reference. An
  operation is one definition up to where it blocks; \<open>Call_Sections\<close> and \<open>Server_Goroutines\<close> cut the operations into their
  critical sections and let others step in between.
\<close>

definition defaultTimeout :: int where "defaultTimeout = 5 * 1000000000"
definition maxUDPFrameSize :: int where "maxUDPFrameSize = 65507"
definition sdPayloadHeaderSize :: int where "sdPayloadHeaderSize = 4 + 4"
definition subscribeTTL :: u32 where "subscribeTTL = 3600"

datatype udp_event = Datagram udp_addr "byte list" | Invoked u16 message

section \<open>Subscribe frames on the data socket\<close>

definition encodeSDEntryFrame :: "u8 \<Rightarrow> u16 \<Rightarrow> u16 \<Rightarrow> u16 \<Rightarrow> u32 \<Rightarrow> byte list option" where
  "encodeSDEntryFrame entryType serviceID instanceID eventID ttl = do {
     entryBuf \<leftarrow> EncodeEntry [] (zero_entry\<lparr>e_Type := entryType, e_ServiceID := serviceID, e_InstanceID := instanceID,
       e_MajorVersion := 0xFF, e_TTL := ttl, e_EventgroupID := eventID\<rparr>);
     let payload = [0x00, 0x00, 0x00, 0x00];
     let payload = payload @ bytes32 (word_of_int (int (length entryBuf)));
     let payload = payload @ entryBuf;
     let payload = payload @ bytes32 0;
     encode_frame (zero_message\<lparr>ServiceID := SDServiceID, MethodID := SDMethodID, SessionID := 1,
       ProtocolVersion := SOMEIPProtocolVersion, InterfaceVersion := 0x01,
       MessageType := MsgTypeNotification, ReturnCode := RetOK, Payload := payload\<rparr>)
   }"

text \<open>The result is the entry, or \<^term>\<open>None\<close> inside for \<open>ok = false\<close>; outside for a panic.\<close>

definition decodeSubscribeEntry :: "nat \<Rightarrow> byte list \<Rightarrow> Entry option option" where
  "decodeSubscribeEntry w payload =
     (if int (length payload) < sdPayloadHeaderSize then Some None
      else do {
        len32 \<leftarrow> Option.bind (sub payload 4 8) be32;
        let entriesLen = goint w (uint len32);
        if entriesLen < EntrySize \<or> sdPayloadHeaderSize + EntrySize > int (length payload) then Some None
        else do {
          tl \<leftarrow> sub_from payload sdPayloadHeaderSize;
          x \<leftarrow> DecodeEntry tl;
          (case x of Inl _ \<Rightarrow> Some None
           | Inr e \<Rightarrow> if e_Type e \<noteq> EntryTypeSubscribe \<and> e_Type e \<noteq> EntryTypeSubscribeAck
               then Some None else Some (Some e))
        }
      })"

section \<open>The server\<close>

record Server =
  us_ServiceID :: u16
  us_InstanceID :: u16
  us_InterfaceVersion :: u8
  us_handlers :: "u16 \<rightharpoonup> handler"
  us_subs :: "u16 \<Rightarrow> udp_addr list"
  us_closed :: bool
  us_log :: "udp_event list"

definition NewServer :: "(string \<Rightarrow> goerr + udp_addr) \<Rightarrow> (udp_addr \<Rightarrow> goerr option) \<Rightarrow>
    string \<Rightarrow> u16 \<Rightarrow> u16 \<Rightarrow> u8 \<Rightarrow> goerr + Server" where
  "NewServer resolve listen addr sid iid ver =
     (case resolve addr of Inl e \<Rightarrow> Inl (Errorf ''udp: resolve'' e)
      | Inr a \<Rightarrow> (case listen a of Some e \<Rightarrow> Inl (Errorf ''udp: listen'' e)
          | None \<Rightarrow> Inr \<lparr>us_ServiceID = sid, us_InstanceID = iid, us_InterfaceVersion = ver,
              us_handlers = Map.empty, us_subs = (\<lambda>_. []), us_closed = False, us_log = []\<rparr>))"

definition write_udp :: "Server \<Rightarrow> udp_addr \<Rightarrow> byte list \<Rightarrow> Server" where
  "write_udp s addr frame = s\<lparr>us_log := us_log s @ [Datagram addr frame]\<rparr>"

definition RegisterMethod :: "Server \<Rightarrow> u16 \<Rightarrow> handler \<Rightarrow> Server \<times> goerr option" where
  "RegisterMethod s methodID h =
     (if us_closed s then (s, Some ErrClosed)
      else (s\<lparr>us_handlers := (us_handlers s)(methodID \<mapsto> h)\<rparr>, None))"

fun emit_loop :: "Server \<Rightarrow> udp_addr list \<Rightarrow> byte list \<Rightarrow> Server" where
  "emit_loop s [] frame = s"
| "emit_loop s (a # as) frame = emit_loop (write_udp s a frame) as frame"

definition Emit :: "Server \<Rightarrow> u16 \<Rightarrow> byte list \<Rightarrow> (Server \<times> goerr option) option" where
  "Emit s eventID payload =
     (if us_closed s then Some (s, Some ErrClosed)
      else do {
        frame \<leftarrow> encode_frame (zero_message\<lparr>ServiceID := us_ServiceID s, MethodID := eventID, ProtocolVersion := 0x01,
          InterfaceVersion := us_InterfaceVersion s, MessageType := MsgTypeNotification, ReturnCode := RetOK,
          Payload := payload\<rparr>);
        Some (emit_loop s (us_subs s eventID) frame, None)
      })"

definition RegisterSubscriber :: "Server \<Rightarrow> u16 \<Rightarrow> udp_addr \<Rightarrow> Server \<times> goerr option" where
  "RegisterSubscriber s eventID addr =
     (if us_closed s then (s, Some ErrClosed)
      else if list_ex (\<lambda>x. addr_text x = addr_text addr) (us_subs s eventID) then (s, None)
      else (s\<lparr>us_subs := (us_subs s)(eventID := us_subs s eventID @ [addr])\<rparr>, None))"

definition UnregisterSubscriber :: "Server \<Rightarrow> u16 \<Rightarrow> udp_addr \<Rightarrow> Server" where
  "UnregisterSubscriber s eventID addr =
     s\<lparr>us_subs := (us_subs s)(eventID := filter (\<lambda>a. addr_text a \<noteq> addr_text addr) (us_subs s eventID))\<rparr>"

definition Server_Close :: "(Server \<Rightarrow> goerr option) \<Rightarrow> Server \<Rightarrow> Server \<times> goerr option" where
  "Server_Close conn_close s =
     (if us_closed s then (s, None) else (s\<lparr>us_closed := True\<rparr>, conn_close s))"

definition handleSubscribeFrame :: "nat \<Rightarrow> Server \<Rightarrow> message \<Rightarrow> udp_addr \<Rightarrow> Server option" where
  "handleSubscribeFrame w s msg addr = do {
     x \<leftarrow> decodeSubscribeEntry w (Payload msg);
     (case x of None \<Rightarrow> Some s
      | Some entry \<Rightarrow> do {
          let eventID = e_EventgroupID entry;
          let s = (if e_TTL entry = 0 then UnregisterSubscriber s eventID addr
                   else fst (RegisterSubscriber s eventID addr));
          ack \<leftarrow> encodeSDEntryFrame EntryTypeSubscribeAck (us_ServiceID s) (us_InstanceID s) eventID (e_TTL entry);
          Some (write_udp s addr ack)
        })
   }"

definition handleFrame :: "nat \<Rightarrow> Server \<Rightarrow> byte list \<Rightarrow> udp_addr \<Rightarrow> Server option" where
  "handleFrame w s frame addr = do {
     x \<leftarrow> Decode frame;
     (case x of Inl _ \<Rightarrow> Some s
      | Inr msg \<Rightarrow>
          if ServiceID msg = SDServiceID \<and> MethodID msg = SDMethodID then handleSubscribeFrame w s msg addr
          else if MessageType msg = MsgTypeRequestNoReturn then
            (case us_handlers s (MethodID msg) of
               Some h \<Rightarrow> Some (s\<lparr>us_log := us_log s @ [Invoked (MethodID msg) msg]\<rparr>)
             | None \<Rightarrow> Some s)
          else do {
            let resp = zero_message\<lparr>ServiceID := us_ServiceID s, MethodID := MethodID msg, ClientID := ClientID msg,
                         SessionID := SessionID msg, ProtocolVersion := 0x01, InterfaceVersion := us_InterfaceVersion s\<rparr>;
            (case us_handlers s (MethodID msg) of
               None \<Rightarrow> do {
                 frame \<leftarrow> encode_frame (resp\<lparr>MessageType := MsgTypeError, ReturnCode := RetUnknownMethod\<rparr>);
                 Some (write_udp s addr frame)
               }
             | Some h \<Rightarrow> do {
                 let resp = (case h msg of
                     Inl _ \<Rightarrow> resp\<lparr>MessageType := MsgTypeError, ReturnCode := RetNotOK\<rparr>
                   | Inr p \<Rightarrow> resp\<lparr>MessageType := MsgTypeResponse, ReturnCode := RetOK, Payload := p\<rparr>);
                 frame2 \<leftarrow> encode_frame resp;
                 Some (write_udp s addr frame2)
               })
          })
   }"

section \<open>The service\<close>

record Service =
  sv_ServiceID :: u16
  sv_InstanceID :: u16
  sv_serverAddr :: udp_addr
  sv_timeout :: int
  sv_sessionID :: u16
  sv_pending :: "u16 \<rightharpoonup> nat"
  sv_subs :: "u16 \<Rightarrow> nat list"
  sv_closed :: bool
  sv_chans :: "nat \<Rightarrow> message chan"
  sv_next :: nat
  sv_once :: "nat set"
  sv_log :: "udp_event list"

definition NewService :: "(string \<Rightarrow> goerr + udp_addr) \<Rightarrow> goerr option \<Rightarrow> string \<Rightarrow> u16 \<Rightarrow> u16 \<Rightarrow> int \<Rightarrow> goerr + Service" where
  "NewService resolve listen addr sid iid timeout =
     (case resolve addr of Inl e \<Rightarrow> Inl (Errorf ''udp: resolve server'' e)
      | Inr a \<Rightarrow> (case listen of Some e \<Rightarrow> Inl (Errorf ''udp: dial'' e)
          | None \<Rightarrow> Inr \<lparr>sv_ServiceID = sid, sv_InstanceID = iid, sv_serverAddr = a,
              sv_timeout = (if timeout = 0 then defaultTimeout else timeout), sv_sessionID = 0,
              sv_pending = Map.empty, sv_subs = (\<lambda>_. []), sv_closed = False,
              sv_chans = (\<lambda>_. \<lparr>ch_queue = [], ch_cap = 0, ch_closed = False\<rparr>), sv_next = 0,
              sv_once = {}, sv_log = []\<rparr>))"

definition new_chan :: "Service \<Rightarrow> int \<Rightarrow> (Service \<times> nat) option" where
  "new_chan svc n = do {
     c \<leftarrow> make_chan n;
     Some (svc\<lparr>sv_chans := (sv_chans svc)(sv_next svc := c), sv_next := sv_next svc + 1\<rparr>, sv_next svc)
   }"

definition nextSession :: "Service \<Rightarrow> Service \<times> u16" where
  "nextSession svc = (let id = sv_sessionID svc + 1 in (svc\<lparr>sv_sessionID := id\<rparr>, id))"

definition send_udp :: "Service \<Rightarrow> byte list \<Rightarrow> Service" where
  "send_udp svc frame = svc\<lparr>sv_log := sv_log svc @ [Datagram (sv_serverAddr svc) frame]\<rparr>"

text \<open>\<open>Call\<close> up to its \<open>select\<close>: \<open>write\<close> is the result of the socket write. It returns the session and
  the channel it waits on, or the error; \<open>Call_end\<close> is the deferred removal from the pending table.\<close>

definition Call_end :: "Service \<Rightarrow> u16 \<Rightarrow> Service" where
  "Call_end svc sessionID = svc\<lparr>sv_pending := (sv_pending svc)(sessionID := None)\<rparr>"

definition Call_begin :: "Service \<Rightarrow> u16 \<Rightarrow> byte list \<Rightarrow> (byte list \<Rightarrow> goerr option) \<Rightarrow>
    (Service \<times> (goerr + u16 \<times> nat)) option" where
  "Call_begin svc methodID payload write =
     (if sv_closed svc then Some (svc, Inl ErrClosed)
      else do {
        let (svc, sessionID) = nextSession svc;
        (svc, ch) \<leftarrow> new_chan svc 1;
        let svc = svc\<lparr>sv_pending := (sv_pending svc)(sessionID \<mapsto> ch)\<rparr>;
        frame \<leftarrow> encode_frame (zero_message\<lparr>ServiceID := sv_ServiceID svc, MethodID := methodID, SessionID := sessionID,
          ClientID := 0x0001, MessageType := MsgTypeRequest, ReturnCode := RetOK, Payload := payload\<rparr>);
        case write frame of
          Some e \<Rightarrow> Some (Call_end svc sessionID, Inl (Errorf ''udp: send'' e))
        | None \<Rightarrow> Some (send_udp svc frame, Inr (sessionID, ch))
      })"

text \<open>The \<open>select\<close> of \<open>Call\<close>: what woke it (\<open>Net\<close>). \<^term>\<open>None\<close> when that case is not ready.\<close>

definition Call_select :: "Service \<Rightarrow> u16 \<Rightarrow> nat \<Rightarrow> wake \<Rightarrow> (Service \<times> (goerr + message)) option" where
  "Call_select svc sessionID ch w =
     (case w of
        Woken_by_response \<Rightarrow> (case recv (sv_chans svc ch) of
            Some (resp, c) \<Rightarrow> Some (Call_end (svc\<lparr>sv_chans := (sv_chans svc)(ch := c)\<rparr>) sessionID, Inr resp)
          | None \<Rightarrow> None)
      | Woken_by_deadline \<Rightarrow> Some (Call_end svc sessionID, Inl ErrTimeout)
      | Woken_by_context e \<Rightarrow> Some (Call_end svc sessionID, Inl e))"

definition CallNoReturn :: "Service \<Rightarrow> u16 \<Rightarrow> byte list \<Rightarrow> (byte list \<Rightarrow> goerr option) \<Rightarrow> (Service \<times> goerr option) option" where
  "CallNoReturn svc methodID payload write =
     (if sv_closed svc then Some (svc, Some ErrClosed)
      else do {
        let (svc, sessionID) = nextSession svc;
        frame \<leftarrow> encode_frame (zero_message\<lparr>ServiceID := sv_ServiceID svc, MethodID := methodID, SessionID := sessionID,
          ClientID := 0x0001, MessageType := MsgTypeRequestNoReturn, ReturnCode := RetOK, Payload := payload\<rparr>);
        Some (case write frame of None \<Rightarrow> (send_udp svc frame, None) | Some e \<Rightarrow> (svc, Some e))
      })"

text \<open>A subscription is known by its channel. \<open>Unsubscribe\<close> is its locked section and then its frame.\<close>

definition unsubscribe_locked :: "Service \<Rightarrow> u16 \<Rightarrow> nat \<Rightarrow> Service" where
  "unsubscribe_locked svc eventID ch =
     svc\<lparr>sv_subs := (sv_subs svc)(eventID := filter (\<lambda>c. c \<noteq> ch) (sv_subs svc eventID))\<rparr>"

definition Unsubscribe :: "Service \<Rightarrow> u16 \<Rightarrow> nat \<Rightarrow> Service option" where
  "Unsubscribe svc eventID ch = do {
     let svc = unsubscribe_locked svc eventID ch;
     frame \<leftarrow> encodeSDEntryFrame EntryTypeSubscribe (sv_ServiceID svc) (sv_InstanceID svc) eventID 0;
     Some (send_udp svc frame)
   }"

text \<open>\<open>Subscribe\<close>; the channel depth comes from the caller's options, which the RELAY module merges.\<close>

definition Subscribe :: "Service \<Rightarrow> u16 \<Rightarrow> int \<Rightarrow> (byte list \<Rightarrow> goerr option) \<Rightarrow> (Service \<times> (goerr + nat)) option" where
  "Subscribe svc eventID depth write =
     (if sv_closed svc then Some (svc, Inl ErrClosed)
      else do {
        (svc, ch) \<leftarrow> new_chan svc depth;
        let svc = svc\<lparr>sv_subs := (sv_subs svc)(eventID := sv_subs svc eventID @ [ch])\<rparr>;
        frame \<leftarrow> encodeSDEntryFrame EntryTypeSubscribe (sv_ServiceID svc) (sv_InstanceID svc) eventID subscribeTTL;
        case write frame of
          Some e \<Rightarrow> do { svc \<leftarrow> Unsubscribe svc eventID ch; Some (svc, Inl (Errorf ''udp: send subscribe'' e)) }
        | None \<Rightarrow> Some (send_udp svc frame, Inr ch)
      })"

text \<open>The second half of a subscription's \<open>Close\<close>: \<open>once.Do\<close> closes the channel the first time.\<close>

definition close_once :: "Service \<Rightarrow> nat \<Rightarrow> Service option" where
  "close_once svc ch =
     (if ch \<in> sv_once svc then Some svc
      else do {
        c \<leftarrow> close_chan (sv_chans svc ch);
        Some (svc\<lparr>sv_once := insert ch (sv_once svc), sv_chans := (sv_chans svc)(ch := c)\<rparr>)
      })"

definition Sub_Close :: "Service \<Rightarrow> u16 \<Rightarrow> nat \<Rightarrow> Service option" where
  "Sub_Close svc eventID ch = do { svc \<leftarrow> Unsubscribe svc eventID ch; close_once svc ch }"

definition Service_Close :: "(Service \<Rightarrow> goerr option) \<Rightarrow> Service \<Rightarrow> Service \<times> goerr option" where
  "Service_Close conn_close svc =
     (if sv_closed svc then (svc, None) else (svc\<lparr>sv_closed := True\<rparr>, conn_close svc))"

definition send_chan :: "Service \<Rightarrow> nat \<Rightarrow> message \<Rightarrow> Service option" where
  "send_chan svc ch msg = do {
     c \<leftarrow> try_send (sv_chans svc ch) msg;
     Some (svc\<lparr>sv_chans := (sv_chans svc)(ch := c)\<rparr>)
   }"

fun notify_loop :: "Service \<Rightarrow> nat list \<Rightarrow> message \<Rightarrow> Service option" where
  "notify_loop svc [] msg = Some svc"
| "notify_loop svc (ch # chs) msg = do { svc \<leftarrow> send_chan svc ch msg; notify_loop svc chs msg }"

definition dispatchFrame :: "Service \<Rightarrow> byte list \<Rightarrow> Service option" where
  "dispatchFrame svc frame = do {
     x \<leftarrow> Decode frame;
     (case x of Inl _ \<Rightarrow> Some svc
      | Inr msg \<Rightarrow>
          if ServiceID msg = SDServiceID \<and> MethodID msg = SDMethodID then Some svc
          else if MessageType msg = MsgTypeNotification then notify_loop svc (sv_subs svc (MethodID msg)) msg
          else if MessageType msg = MsgTypeResponse \<or> MessageType msg = MsgTypeError then
            (case sv_pending svc (SessionID msg) of
               Some ch \<Rightarrow> send_chan svc ch msg
             | None \<Rightarrow> Some svc)
          else Some svc)
   }"

section \<open>The read loops\<close>

text \<open>The server's loop starts a goroutine running \<open>handleFrame\<close> for each datagram; the client's dispatches
  each before it reads the next.\<close>

definition Server_readLoop :: "(byte list \<times> udp_addr) read list \<Rightarrow> (byte list \<times> udp_addr) list \<times> bool" where
  "Server_readLoop rs = serve_loop (\<lambda>(buf, addr). (take (nat maxUDPFrameSize) buf, addr)) rs"

fun Service_readLoop :: "Service \<Rightarrow> byte list read list \<Rightarrow> (Service \<times> bool) option" where
  "Service_readLoop svc [] = Some (svc, False)"
| "Service_readLoop svc (Read buf # rs) = do {
     svc \<leftarrow> dispatchFrame svc (take (nat maxUDPFrameSize) buf);
     Service_readLoop svc rs
   }"
| "Service_readLoop svc (Read_failed closed # rs) = (if closed then Some (svc, True) else Service_readLoop svc rs)"

section \<open>The operations as equations\<close>

definition sub_entry :: "u8 \<Rightarrow> u16 \<Rightarrow> u16 \<Rightarrow> u16 \<Rightarrow> u32 \<Rightarrow> Entry" where
  "sub_entry t sid iid ev ttl = zero_entry\<lparr>e_Type := t, e_ServiceID := sid, e_InstanceID := iid,
     e_MajorVersion := 0xFF, e_TTL := ttl, e_EventgroupID := ev\<rparr>"

definition sub_message :: "u8 \<Rightarrow> u16 \<Rightarrow> u16 \<Rightarrow> u16 \<Rightarrow> u32 \<Rightarrow> message" where
  "sub_message t sid iid ev ttl = zero_message\<lparr>ServiceID := SDServiceID, MethodID := SDMethodID, SessionID := 1,
     ProtocolVersion := 1, InterfaceVersion := 1, MessageType := MsgTypeNotification, ReturnCode := RetOK,
     Payload := [0, 0, 0, 0] @ bytes32 16 @ entry_wire (sub_entry t sid iid ev ttl) @ bytes32 0\<rparr>"

lemma encodeSDEntryFrame_eq: "encodeSDEntryFrame t sid iid ev ttl = Some (wire (sub_message t sid iid ev ttl))"
  by (simp add: encodeSDEntryFrame_def EncodeEntry_eq sub_message_def sub_entry_def SOMEIPProtocolVersion_def)

text \<open>\<open>decodeSubscribeEntry\<close> on every payload: the bounds keep every index inside, at either width of \<open>int\<close>.\<close>

lemma decodeSubscribeEntry_eq:
  "decodeSubscribeEntry w payload = Some
     (if length payload < 24 \<or> goint w (uint (join32 (payload ! 4) (payload ! 5) (payload ! 6) (payload ! 7))) < 16
         \<or> \<not> is_subscribe (payload ! 8)
      then None else Some (read_entry (drop 8 payload)))"
proof (cases "length payload < 8")
  case False
  then obtain b0 b1 b2 b3 b4 b5 b6 b7 r where p: "payload = b0 # b1 # b2 # b3 # b4 # b5 # b6 # b7 # r"
    using length_ge_8 [of payload] by auto
  show ?thesis
  proof (cases "length r < 16")
    case True
    then show ?thesis
      by (simp add: p decodeSubscribeEntry_def sdPayloadHeaderSize_def EntrySize_def sub_def)
  next
    case False
    have k: "known_entry_type t" if "is_subscribe t" for t using that by (simp add: known_entry_type_def)
    show ?thesis
      using False k
      by (auto simp: p decodeSubscribeEntry_def sdPayloadHeaderSize_def EntrySize_def sub_def sub_from_def
          DecodeEntry_eq is_subscribe_def read_entry_def)
  qed
qed (simp add: decodeSubscribeEntry_def sdPayloadHeaderSize_def)

lemma goint_16: "w = 32 \<or> w = 64 \<Longrightarrow> goint w 16 = 16"
  by (auto simp: goint_id)

lemma decode_sub_message:
  assumes "t = EntryTypeSubscribe \<or> t = EntryTypeSubscribeAck" and "w = 32 \<or> w = 64"
  shows "decodeSubscribeEntry w (Payload (sub_message t sid iid ev ttl)) =
    Some (Some (entry_carried (sub_entry t sid iid ev ttl)))"
proof -
  have "is_subscribe t" using assms by (simp add: is_subscribe_def)
  moreover have "entry_wire (sub_entry t sid iid ev ttl) ! 0 = t"
    using entry_wire_Type [of "sub_entry t sid iid ev ttl" "[]"] by (simp add: sub_entry_def)
  moreover have "join32 0 0 0 16 = 16" by (simp add: join32_def)
  ultimately show ?thesis
    using assms(2) read_entry_wire [of "sub_entry t sid iid ev ttl" "bytes32 0"]
    by (simp add: decodeSubscribeEntry_eq sub_message_def bytes32_def [of 16] goint_16 nth_append)
qed

lemma new_chan_eq: "0 \<le> n \<Longrightarrow> new_chan svc n =
  Some (svc\<lparr>sv_chans := (sv_chans svc)(sv_next svc := \<lparr>ch_queue = [], ch_cap = n, ch_closed = False\<rparr>),
    sv_next := sv_next svc + 1\<rparr>, sv_next svc)"
  by (simp add: new_chan_def make_chan_def)

definition request :: "Service \<Rightarrow> u16 \<Rightarrow> u16 \<Rightarrow> u8 \<Rightarrow> byte list \<Rightarrow> message" where
  "request svc methodID sessionID t payload = zero_message\<lparr>ServiceID := sv_ServiceID svc, MethodID := methodID,
     SessionID := sessionID, ClientID := 1, MessageType := t, ReturnCode := RetOK, Payload := payload\<rparr>"

definition called :: "Service \<Rightarrow> Service" where
  "called svc = svc\<lparr>sv_sessionID := sv_sessionID svc + 1,
     sv_chans := (sv_chans svc)(sv_next svc := \<lparr>ch_queue = [], ch_cap = 1, ch_closed = False\<rparr>),
     sv_next := sv_next svc + 1, sv_pending := (sv_pending svc)(sv_sessionID svc + 1 \<mapsto> sv_next svc)\<rparr>"

lemma Call_begin_eq:
  "Call_begin svc m p write = Some
     (if sv_closed svc then (svc, Inl ErrClosed)
      else let frame = wire (request svc m (sv_sessionID svc + 1) MsgTypeRequest p)
           in case write frame of
                Some e \<Rightarrow> (Call_end (called svc) (sv_sessionID svc + 1), Inl (Errorf ''udp: send'' e))
              | None \<Rightarrow> (send_udp (called svc) frame, Inr (sv_sessionID svc + 1, sv_next svc)))"
  by (simp add: Call_begin_def nextSession_def new_chan_eq called_def request_def Let_def split: option.split)

lemma CallNoReturn_eq:
  "CallNoReturn svc m p write = Some
     (if sv_closed svc then (svc, Some ErrClosed)
      else let frame = wire (request svc m (sv_sessionID svc + 1) MsgTypeRequestNoReturn p);
               svc' = svc\<lparr>sv_sessionID := sv_sessionID svc + 1\<rparr>
           in case write frame of None \<Rightarrow> (send_udp svc' frame, None) | Some e \<Rightarrow> (svc', Some e))"
  by (simp add: CallNoReturn_def nextSession_def request_def Let_def split: option.split)

definition sub_frame :: "Service \<Rightarrow> u16 \<Rightarrow> u32 \<Rightarrow> byte list" where
  "sub_frame svc ev ttl = wire (sub_message EntryTypeSubscribe (sv_ServiceID svc) (sv_InstanceID svc) ev ttl)"

lemma Unsubscribe_eq: "Unsubscribe svc ev ch = Some (send_udp (unsubscribe_locked svc ev ch) (sub_frame svc ev 0))"
  by (simp add: Unsubscribe_def encodeSDEntryFrame_eq sub_frame_def unsubscribe_locked_def Let_def)

definition subscribed :: "Service \<Rightarrow> u16 \<Rightarrow> int \<Rightarrow> Service" where
  "subscribed svc ev n = svc\<lparr>sv_chans := (sv_chans svc)(sv_next svc := \<lparr>ch_queue = [], ch_cap = n, ch_closed = False\<rparr>),
     sv_next := sv_next svc + 1, sv_subs := (sv_subs svc)(ev := sv_subs svc ev @ [sv_next svc])\<rparr>"

lemma Subscribe_eq:
  "0 \<le> n \<Longrightarrow> Subscribe svc ev n write = Some
     (if sv_closed svc then (svc, Inl ErrClosed)
      else case write (sub_frame svc ev subscribeTTL) of
          Some e \<Rightarrow> (send_udp (unsubscribe_locked (subscribed svc ev n) ev (sv_next svc)) (sub_frame svc ev 0),
                     Inl (Errorf ''udp: send subscribe'' e))
        | None \<Rightarrow> (send_udp (subscribed svc ev n) (sub_frame svc ev subscribeTTL), Inr (sv_next svc)))"
  by (simp add: Subscribe_def new_chan_eq subscribed_def encodeSDEntryFrame_eq sub_frame_def Unsubscribe_eq Let_def
      split: option.split)

lemma send_udp_simps [simp]:
  "sv_chans (send_udp svc f) = sv_chans svc" "sv_pending (send_udp svc f) = sv_pending svc"
  "sv_subs (send_udp svc f) = sv_subs svc" "sv_once (send_udp svc f) = sv_once svc"
  "sv_next (send_udp svc f) = sv_next svc" "sv_closed (send_udp svc f) = sv_closed svc"
  "sv_sessionID (send_udp svc f) = sv_sessionID svc"
  by (simp_all add: send_udp_def)

section \<open>A client and its goroutines\<close>

text \<open>
  A service, the calls in progress (by channel, with their session), the subscriptions handed out (by
  channel, with their event), and the subscriptions whose \<open>Close\<close> has unsubscribed and not yet closed the
  channel. Calls, subscriptions, the read loop and any number of closes interleave freely between the
  critical sections; a step that panics leads to \<^term>\<open>None\<close>.
\<close>

record client =
  cl_svc :: Service
  cl_calls :: "nat \<rightharpoonup> u16"
  cl_subs :: "nat \<rightharpoonup> u16"
  cl_closing :: "nat set"

fun after_call :: "client \<Rightarrow> Service \<times> (goerr + u16 \<times> nat) \<Rightarrow> client" where
  "after_call c (svc, Inl e) = c\<lparr>cl_svc := svc\<rparr>"
| "after_call c (svc, Inr (s, ch)) = c\<lparr>cl_svc := svc, cl_calls := (cl_calls c)(ch \<mapsto> s)\<rparr>"

fun after_subscribe :: "client \<Rightarrow> u16 \<Rightarrow> Service \<times> (goerr + nat) \<Rightarrow> client" where
  "after_subscribe c ev (svc, Inl e) = c\<lparr>cl_svc := svc\<rparr>"
| "after_subscribe c ev (svc, Inr ch) = c\<lparr>cl_svc := svc, cl_subs := (cl_subs c)(ch \<mapsto> ev)\<rparr>"

inductive client_step :: "client \<Rightarrow> client option \<Rightarrow> bool" where
  cs_call: "client_step c (map_option (after_call c) (Call_begin (cl_svc c) m p write))"
| cs_select: "cl_calls c ch = Some s \<Longrightarrow> Call_select (cl_svc c) s ch w = Some (svc, r) \<Longrightarrow>
    client_step c (Some (c\<lparr>cl_svc := svc\<rparr>))"
| cs_send: "client_step c (map_option (\<lambda>(svc, _). c\<lparr>cl_svc := svc\<rparr>) (CallNoReturn (cl_svc c) m p write))"
| cs_subscribe: "0 \<le> depth \<Longrightarrow> client_step c (map_option (after_subscribe c ev) (Subscribe (cl_svc c) ev depth write))"
| cs_unsubscribe: "cl_subs c ch = Some ev \<Longrightarrow>
    client_step c (map_option (\<lambda>svc. c\<lparr>cl_svc := svc\<rparr>) (Unsubscribe (cl_svc c) ev ch))"
| cs_sub_close: "cl_subs c ch = Some ev \<Longrightarrow>
    client_step c (map_option (\<lambda>svc. c\<lparr>cl_svc := svc, cl_closing := insert ch (cl_closing c)\<rparr>)
      (Unsubscribe (cl_svc c) ev ch))"
| cs_close_chan: "ch \<in> cl_closing c \<Longrightarrow>
    client_step c (map_option (\<lambda>svc. c\<lparr>cl_svc := svc\<rparr>) (close_once (cl_svc c) ch))"
| cs_read: "client_step c (map_option (\<lambda>svc. c\<lparr>cl_svc := svc\<rparr>) (dispatchFrame (cl_svc c) frame))"
| cs_close: "client_step c (Some (c\<lparr>cl_svc := fst (Service_Close cc (cl_svc c))\<rparr>))"

inductive client_reachable :: "client \<Rightarrow> bool" where
  client_new: "NewService resolve listen addr sid iid t = Inr svc \<Longrightarrow>
     client_reachable \<lparr>cl_svc = svc, cl_calls = Map.empty, cl_subs = Map.empty, cl_closing = {}\<rparr>"
| client_next: "client_reachable c \<Longrightarrow> client_step c (Some c') \<Longrightarrow> client_reachable c'"

inductive_cases client_stepE: "client_step c r"

text \<open>The invariant. Channels in the notification lists and the pending table are open and belong to a
  subscription of that event, or a call with that session; a call's channel only ever holds answers to
  its own session.\<close>

definition answers :: "message chan \<Rightarrow> u16 \<Rightarrow> bool" where
  "answers q s \<longleftrightarrow> (\<forall>m \<in> set (ch_queue q). SessionID m = s \<and> (MessageType m = MsgTypeResponse \<or> MessageType m = MsgTypeError))"

definition notifications :: "message chan \<Rightarrow> u16 \<Rightarrow> bool" where
  "notifications q ev \<longleftrightarrow> (\<forall>m \<in> set (ch_queue q). MethodID m = ev \<and> MessageType m = MsgTypeNotification)"

definition client_ok :: "client \<Rightarrow> bool" where
  "client_ok c \<longleftrightarrow>
     (\<forall>ch ev. ch \<in> set (sv_subs (cl_svc c) ev) \<longrightarrow> \<not> ch_closed (sv_chans (cl_svc c) ch)
        \<and> cl_subs c ch = Some ev \<and> ch \<notin> cl_closing c \<and> ch < sv_next (cl_svc c)) \<and>
     (\<forall>ch s. sv_pending (cl_svc c) s = Some ch \<longrightarrow> cl_calls c ch = Some s) \<and>
     (\<forall>ch s. cl_calls c ch = Some s \<longrightarrow> \<not> ch_closed (sv_chans (cl_svc c) ch) \<and> ch < sv_next (cl_svc c)
        \<and> cl_subs c ch = None \<and> answers (sv_chans (cl_svc c) ch) s) \<and>
     (\<forall>ch ev. cl_subs c ch = Some ev \<longrightarrow> ch < sv_next (cl_svc c) \<and> notifications (sv_chans (cl_svc c) ch) ev) \<and>
     (\<forall>ch. ch \<in> cl_closing c \<longrightarrow> cl_subs c ch \<noteq> None) \<and>
     (\<forall>ch. ch_closed (sv_chans (cl_svc c) ch) \<longrightarrow> ch \<in> sv_once (cl_svc c))"

lemma client_okI:
  assumes "\<And>ch ev. ch \<in> set (sv_subs (cl_svc c) ev) \<Longrightarrow> \<not> ch_closed (sv_chans (cl_svc c) ch)
        \<and> cl_subs c ch = Some ev \<and> ch \<notin> cl_closing c \<and> ch < sv_next (cl_svc c)"
    and "\<And>ch s. sv_pending (cl_svc c) s = Some ch \<Longrightarrow> cl_calls c ch = Some s"
    and "\<And>ch s. cl_calls c ch = Some s \<Longrightarrow> \<not> ch_closed (sv_chans (cl_svc c) ch) \<and> ch < sv_next (cl_svc c)
        \<and> cl_subs c ch = None \<and> answers (sv_chans (cl_svc c) ch) s"
    and "\<And>ch ev. cl_subs c ch = Some ev \<Longrightarrow> ch < sv_next (cl_svc c) \<and> notifications (sv_chans (cl_svc c) ch) ev"
    and "\<And>ch. ch \<in> cl_closing c \<Longrightarrow> cl_subs c ch \<noteq> None"
    and "\<And>ch. ch_closed (sv_chans (cl_svc c) ch) \<Longrightarrow> ch \<in> sv_once (cl_svc c)"
  shows "client_ok c"
  using assms unfolding client_ok_def by blast

lemma client_okD:
  assumes "client_ok c"
  shows "ch \<in> set (sv_subs (cl_svc c) ev) \<Longrightarrow> \<not> ch_closed (sv_chans (cl_svc c) ch)
        \<and> cl_subs c ch = Some ev \<and> ch \<notin> cl_closing c \<and> ch < sv_next (cl_svc c)"
    and "sv_pending (cl_svc c) s = Some ch \<Longrightarrow> cl_calls c ch = Some s"
    and "cl_calls c ch = Some s \<Longrightarrow> \<not> ch_closed (sv_chans (cl_svc c) ch) \<and> ch < sv_next (cl_svc c)
        \<and> cl_subs c ch = None \<and> answers (sv_chans (cl_svc c) ch) s"
    and "cl_subs c ch = Some ev \<Longrightarrow> ch < sv_next (cl_svc c) \<and> notifications (sv_chans (cl_svc c) ch) ev"
    and "ch \<in> cl_closing c \<Longrightarrow> cl_subs c ch \<noteq> None"
    and "ch_closed (sv_chans (cl_svc c) ch) \<Longrightarrow> ch \<in> sv_once (cl_svc c)"
  using assms unfolding client_ok_def by blast+

text \<open>Each operation keeps it and does not panic.\<close>

lemma answers_nil [simp]: "answers \<lparr>ch_queue = [], ch_cap = n, ch_closed = b\<rparr> s"
  by (simp add: answers_def)

lemma notifications_nil [simp]: "notifications \<lparr>ch_queue = [], ch_cap = n, ch_closed = b\<rparr> ev"
  by (simp add: notifications_def)

lemma ok_send [simp]: "client_ok (c\<lparr>cl_svc := send_udp svc f\<rparr>) = client_ok (c\<lparr>cl_svc := svc\<rparr>)"
  by (simp add: client_ok_def)

lemma ok_Call_end: "client_ok (c\<lparr>cl_svc := svc\<rparr>) \<Longrightarrow> client_ok (c\<lparr>cl_svc := Call_end svc s\<rparr>)"
  by (auto simp: client_ok_def Call_end_def split: if_splits)

lemma ok_fresh:
  assumes "client_ok c"
  shows "cl_subs c (sv_next (cl_svc c)) = None" "cl_calls c (sv_next (cl_svc c)) = None"
    "sv_next (cl_svc c) \<notin> set (sv_subs (cl_svc c) e)" "sv_next (cl_svc c) \<notin> cl_closing c"
proof -
  show s: "cl_subs c (sv_next (cl_svc c)) = None"
    using client_okD(4) [OF assms] by (cases "cl_subs c (sv_next (cl_svc c))") auto
  show "cl_calls c (sv_next (cl_svc c)) = None"
    using client_okD(3) [OF assms] by (cases "cl_calls c (sv_next (cl_svc c))") auto
  show "sv_next (cl_svc c) \<notin> set (sv_subs (cl_svc c) e)" using client_okD(1) [OF assms] by blast
  show "sv_next (cl_svc c) \<notin> cl_closing c" using client_okD(5) [OF assms] s by blast
qed

lemma ok_called:
  assumes "client_ok c"
  shows "client_ok (c\<lparr>cl_svc := called (cl_svc c), cl_calls := (cl_calls c)(sv_next (cl_svc c) \<mapsto> sv_sessionID (cl_svc c) + 1)\<rparr>)"
proof -
  note d = client_okD [OF assms]
  note fresh = ok_fresh [OF assms]
  show ?thesis
  proof (intro client_okI, goal_cases)
    case (1 ch ev)
    then have m: "ch \<in> set (sv_subs (cl_svc c) ev)" by (simp add: called_def)
    then have "ch \<noteq> sv_next (cl_svc c)" using fresh(3) by blast
    then show ?case using d(1) [OF m] by (simp add: called_def)
  next
    case (2 ch s)
    then show ?case using d(2) [of s ch] fresh(2) by (cases "s = sv_sessionID (cl_svc c) + 1") (auto simp: called_def)
  next
    case (3 ch s)
    then show ?case using d(3) [of ch s] fresh(1) by (cases "ch = sv_next (cl_svc c)") (auto simp: called_def)
  next
    case (4 ch ev)
    then have m: "cl_subs c ch = Some ev" by (simp add: called_def)
    then have "ch \<noteq> sv_next (cl_svc c)" using fresh(1) by auto
    then show ?case using d(4) [OF m] by (simp add: called_def)
  next
    case (5 ch)
    then show ?case using d(5) [of ch] by simp
  next
    case (6 ch)
    then show ?case using d(6) [of ch] by (cases "ch = sv_next (cl_svc c)") (auto simp: called_def)
  qed
qed

lemma ok_subscribed:
  assumes "client_ok c"
  shows "client_ok (c\<lparr>cl_svc := subscribed (cl_svc c) ev n, cl_subs := (cl_subs c)(sv_next (cl_svc c) \<mapsto> ev)\<rparr>)"
proof -
  note d = client_okD [OF assms]
  note fresh = ok_fresh [OF assms]
  show ?thesis
  proof (intro client_okI, goal_cases)
    case (1 ch e)
    then have "ch \<in> set (sv_subs (cl_svc c) e) \<or> ch = sv_next (cl_svc c) \<and> e = ev"
      by (cases "e = ev") (auto simp: subscribed_def)
    then show ?case
    proof
      assume m: "ch \<in> set (sv_subs (cl_svc c) e)"
      then have "ch \<noteq> sv_next (cl_svc c)" using fresh(3) by blast
      then show ?case using d(1) [OF m] by (simp add: subscribed_def)
    qed (use fresh(4) in \<open>simp add: subscribed_def\<close>)
  next
    case (2 ch s)
    then show ?case using d(2) [of s ch] by (simp add: subscribed_def)
  next
    case (3 ch s)
    then have m: "cl_calls c ch = Some s" by simp
    then have "ch \<noteq> sv_next (cl_svc c)" using fresh(2) by auto
    then show ?case using d(3) [OF m] by (simp add: subscribed_def)
  next
    case (4 ch e)
    then show ?case using d(4) [of ch e] by (cases "ch = sv_next (cl_svc c)") (auto simp: subscribed_def)
  next
    case (5 ch)
    then show ?case using d(5) [of ch] by simp
  next
    case (6 ch)
    then show ?case using d(6) [of ch] by (cases "ch = sv_next (cl_svc c)") (auto simp: subscribed_def)
  qed
qed

lemma ok_unsubscribe:
  assumes "client_ok (c\<lparr>cl_svc := svc\<rparr>)"
  shows "client_ok (c\<lparr>cl_svc := unsubscribe_locked svc ev ch\<rparr>)"
  using assms by (auto simp: client_ok_def unsubscribe_locked_def split: if_splits)

lemma ok_unsubscribe_closing:
  assumes "client_ok c" and "cl_subs c ch = Some ev"
  shows "client_ok (c\<lparr>cl_svc := unsubscribe_locked (cl_svc c) ev ch, cl_closing := insert ch (cl_closing c)\<rparr>)"
  using client_okD [OF assms(1)] assms(2)
  by (intro client_okI) (force simp: unsubscribe_locked_def split: if_splits)+

lemma ok_send_chan:
  assumes ok: "client_ok c" and op: "\<not> ch_closed (sv_chans (cl_svc c) ch)"
    and a: "\<And>s. cl_calls c ch = Some s \<Longrightarrow> SessionID m = s \<and> (MessageType m = MsgTypeResponse \<or> MessageType m = MsgTypeError)"
    and n: "\<And>ev. cl_subs c ch = Some ev \<Longrightarrow> MethodID m = ev \<and> MessageType m = MsgTypeNotification"
  shows "\<exists>svc. send_chan (cl_svc c) ch m = Some svc \<and> client_ok (c\<lparr>cl_svc := svc\<rparr>)
    \<and> sv_subs svc = sv_subs (cl_svc c) \<and> sv_pending svc = sv_pending (cl_svc c)"
proof -
  let ?q = "sv_chans (cl_svc c) ch"
  obtain q where q: "try_send ?q m = Some q" "ch_closed q = ch_closed ?q" "set (ch_queue q) \<subseteq> insert m (set (ch_queue ?q))"
    using op by (cases "int (length (ch_queue ?q)) < ch_cap ?q") (auto simp: try_send_def)
  let ?svc = "(cl_svc c)\<lparr>sv_chans := (sv_chans (cl_svc c))(ch := q)\<rparr>"
  note d = client_okD [OF ok]
  have "answers q s" if "cl_calls c ch = Some s" for s
    using d(3) [OF that] a [OF that] q(3) by (auto simp: answers_def)
  moreover have "notifications q ev" if "cl_subs c ch = Some ev" for ev
    using d(4) [OF that] n [OF that] q(3) by (auto simp: notifications_def)
  ultimately have "client_ok (c\<lparr>cl_svc := ?svc\<rparr>)"
    using d q(2) by (intro client_okI) (auto split: if_splits)
  then show ?thesis using q(1) by (simp add: send_chan_def)
qed

lemma ok_notify:
  "client_ok c \<Longrightarrow> MessageType m = MsgTypeNotification \<Longrightarrow> set chs \<subseteq> set (sv_subs (cl_svc c) (MethodID m)) \<Longrightarrow>
   \<exists>svc. notify_loop (cl_svc c) chs m = Some svc \<and> client_ok (c\<lparr>cl_svc := svc\<rparr>)"
proof (induction chs arbitrary: c)
  case (Cons ch chs)
  note d = client_okD [OF Cons.prems(1)]
  have ch: "\<not> ch_closed (sv_chans (cl_svc c) ch)" "cl_subs c ch = Some (MethodID m)"
    using d(1) [of ch "MethodID m"] Cons.prems(3) by auto
  have "cl_calls c ch = None" using d(3) [of ch] ch(2) by (cases "cl_calls c ch") auto
  then obtain svc where svc: "send_chan (cl_svc c) ch m = Some svc" "client_ok (c\<lparr>cl_svc := svc\<rparr>)"
    "sv_subs svc = sv_subs (cl_svc c)"
    using ok_send_chan [OF Cons.prems(1) ch(1), of m] ch(2) Cons.prems(2) by auto
  with Cons.IH [OF svc(2)] Cons.prems show ?case by simp
qed simp

lemma ok_dispatch:
  assumes ok: "client_ok c"
  shows "\<exists>svc. dispatchFrame (cl_svc c) frame = Some svc \<and> client_ok (c\<lparr>cl_svc := svc\<rparr>)"
proof -
  obtain x where x: "Decode frame = Some x" by (auto simp: Decode_eq)
  show ?thesis
  proof (cases x)
    case (Inr m)
    consider "ServiceID m = SDServiceID \<and> MethodID m = SDMethodID"
      | (noti) "\<not> (ServiceID m = SDServiceID \<and> MethodID m = SDMethodID)" "MessageType m = MsgTypeNotification"
      | (answer) "\<not> (ServiceID m = SDServiceID \<and> MethodID m = SDMethodID)" "MessageType m \<noteq> MsgTypeNotification"
          "MessageType m = MsgTypeResponse \<or> MessageType m = MsgTypeError"
      | "MessageType m \<noteq> MsgTypeNotification" "MessageType m \<noteq> MsgTypeResponse" "MessageType m \<noteq> MsgTypeError"
      by blast
    then show ?thesis
    proof cases
      case noti
      with ok_notify [OF ok, of m "sv_subs (cl_svc c) (MethodID m)"] show ?thesis
        by (auto simp: dispatchFrame_def x Inr)
    next
      case answer
      show ?thesis
      proof (cases "sv_pending (cl_svc c) (SessionID m)")
        case None
        with answer ok show ?thesis by (simp add: dispatchFrame_def x Inr)
      next
        case (Some ch)
        then have cl: "cl_calls c ch = Some (SessionID m)" using client_okD(2) [OF ok] by blast
        then have "\<not> ch_closed (sv_chans (cl_svc c) ch)" "cl_subs c ch = None"
          using client_okD(3) [OF ok cl] by auto
        from ok_send_chan [OF ok this(1), of m] answer cl this(2) Some show ?thesis
          by (auto simp: dispatchFrame_def x Inr)
      qed
    qed (use ok in \<open>auto simp: dispatchFrame_def x Inr\<close>)
  qed (use ok in \<open>simp add: dispatchFrame_def x\<close>)
qed

lemma ok_close_once:
  assumes ok: "client_ok c" and ch: "ch \<in> cl_closing c"
  shows "\<exists>svc. close_once (cl_svc c) ch = Some svc \<and> client_ok (c\<lparr>cl_svc := svc\<rparr>)"
proof (cases "ch \<in> sv_once (cl_svc c)")
  case True
  with ok show ?thesis by (simp add: close_once_def)
next
  case False
  note d = client_okD [OF ok]
  have op: "\<not> ch_closed (sv_chans (cl_svc c) ch)" using d(6) False by blast
  let ?q = "(sv_chans (cl_svc c) ch)\<lparr>ch_closed := True\<rparr>"
  let ?svc = "(cl_svc c)\<lparr>sv_once := insert ch (sv_once (cl_svc c)), sv_chans := (sv_chans (cl_svc c))(ch := ?q)\<rparr>"
  have "answers ?q s = answers (sv_chans (cl_svc c) ch) s" "notifications ?q ev = notifications (sv_chans (cl_svc c) ch) ev" for s ev
    by (simp_all add: answers_def notifications_def)
  then have "client_ok (c\<lparr>cl_svc := ?svc\<rparr>)"
    using d ch by (intro client_okI) (force split: if_splits)+
  with op False show ?thesis by (simp add: close_once_def close_chan_def)
qed

lemma ok_recv:
  assumes ok: "client_ok c" and call: "cl_calls c ch = Some s" and r: "recv (sv_chans (cl_svc c) ch) = Some (m, q)"
  shows "client_ok (c\<lparr>cl_svc := (cl_svc c)\<lparr>sv_chans := (sv_chans (cl_svc c))(ch := q)\<rparr>\<rparr>)"
    and "SessionID m = s" and "MessageType m = MsgTypeResponse \<or> MessageType m = MsgTypeError"
proof -
  let ?q = "sv_chans (cl_svc c) ch"
  note d = client_okD [OF ok]
  obtain xs where q: "ch_queue ?q = m # xs" "q = ?q\<lparr>ch_queue := xs\<rparr>" using r by (auto simp: recv_def split: list.splits)
  then have "answers q s" using d(3) [OF call] by (auto simp: answers_def)
  moreover have "cl_subs c ch = None" using d(3) [OF call] by simp
  ultimately show "client_ok (c\<lparr>cl_svc := (cl_svc c)\<lparr>sv_chans := (sv_chans (cl_svc c))(ch := q)\<rparr>\<rparr>)"
    using d call q(2) by (intro client_okI) (auto split: if_splits)
  show "SessionID m = s" "MessageType m = MsgTypeResponse \<or> MessageType m = MsgTypeError"
    using d(3) [OF call] q(1) by (simp_all add: answers_def)
qed

lemma ok_select:
  assumes ok: "client_ok c" and call: "cl_calls c ch = Some s"
    and sel: "Call_select (cl_svc c) s ch w = Some (svc, r)"
  shows "client_ok (c\<lparr>cl_svc := svc\<rparr>)"
    and "r = Inr m \<Longrightarrow> SessionID m = s \<and> (MessageType m = MsgTypeResponse \<or> MessageType m = MsgTypeError)"
proof -
  show "client_ok (c\<lparr>cl_svc := svc\<rparr>)"
    using sel ok_recv(1) [OF ok call, THEN ok_Call_end] ok_Call_end [where c = c and svc = "cl_svc c" and s = s] ok
    by (auto simp: Call_select_def split: wake.splits option.splits)
  show "SessionID m = s \<and> (MessageType m = MsgTypeResponse \<or> MessageType m = MsgTypeError)" if "r = Inr m"
    using that sel ok_recv(2,3) [OF ok call] by (auto simp: Call_select_def split: wake.splits option.splits)
qed

lemma ok_begin:
  assumes "client_ok c"
  shows "\<exists>y. Call_begin (cl_svc c) m p write = Some y \<and> client_ok (after_call c y)"
proof -
  have a: "client_ok (c\<lparr>cl_svc := Call_end (called (cl_svc c)) (sv_sessionID (cl_svc c) + 1)\<rparr>)"
  proof (intro client_okI, goal_cases)
    case (2 ch s)
    then have "s \<noteq> sv_sessionID (cl_svc c) + 1" "sv_pending (cl_svc c) s = Some ch"
      by (auto simp: Call_end_def called_def split: if_splits)
    then show ?case using client_okD(2) [OF assms] by simp
  next
    case (3 ch s)
    then show ?case using client_okD(3) [OF assms, of ch s] ok_fresh(2) [OF assms]
      by (cases "ch = sv_next (cl_svc c)") (auto simp: called_def Call_end_def)
  qed (use client_okD [OF ok_called [OF assms]] in \<open>auto simp: Call_end_def\<close>)
  have b: "client_ok (c\<lparr>cl_svc := send_udp (called (cl_svc c)) f,
      cl_calls := (cl_calls c)(sv_next (cl_svc c) \<mapsto> sv_sessionID (cl_svc c) + 1)\<rparr>)" for f
    using ok_called [OF assms] by (simp add: client_ok_def)
  show ?thesis using a b assms by (simp add: Call_begin_eq Let_def split: option.split)
qed

lemma ok_begin_subscribe:
  assumes ok: "client_ok c" and n: "0 \<le> n"
  shows "\<exists>y. Subscribe (cl_svc c) ev n write = Some y \<and> client_ok (after_subscribe c ev y)"
proof -
  have old: "sv_next (cl_svc c) \<notin> set (sv_subs (cl_svc c) e)" for e using ok_fresh [OF ok] by blast
  have "sv_subs (unsubscribe_locked (subscribed (cl_svc c) ev n) ev (sv_next (cl_svc c))) = sv_subs (cl_svc c)"
    using old [of ev] by (auto simp: subscribed_def unsubscribe_locked_def fun_eq_iff intro!: filter_True)
  then have "client_ok (c\<lparr>cl_svc := unsubscribe_locked (subscribed (cl_svc c) ev n) ev (sv_next (cl_svc c))\<rparr>)"
  proof (intro client_okI, goal_cases)
    case (1 ch e)
    then have m: "ch \<in> set (sv_subs (cl_svc c) e)" by simp
    then have "ch \<noteq> sv_next (cl_svc c)" using old by blast
    then show ?case using client_okD(1) [OF ok m] by (simp add: subscribed_def unsubscribe_locked_def)
  next
    case (4 ch e)
    then have m: "cl_subs c ch = Some e" by simp
    then have "ch \<noteq> sv_next (cl_svc c)" using ok_fresh(1) [OF ok] by auto
    then show ?case using client_okD(4) [OF ok m] by (simp add: subscribed_def unsubscribe_locked_def)
  next
    case (3 ch s)
    then have m: "cl_calls c ch = Some s" by simp
    then have "ch \<noteq> sv_next (cl_svc c)" using ok_fresh(2) [OF ok] by auto
    then show ?case using client_okD(3) [OF ok m] by (simp add: subscribed_def unsubscribe_locked_def)
  next
    case (5 ch)
    then show ?case using client_okD(5) [OF ok, of ch] by simp
  qed (use client_okD [OF ok_subscribed [OF ok]] in \<open>auto simp: unsubscribe_locked_def\<close>)
  moreover have "client_ok (c\<lparr>cl_svc := send_udp (subscribed (cl_svc c) ev n) f,
      cl_subs := (cl_subs c)(sv_next (cl_svc c) \<mapsto> ev)\<rparr>)" for f
    using ok_subscribed [OF ok] by (simp add: client_ok_def)
  ultimately show ?thesis using ok n by (simp add: Subscribe_eq split: option.split)
qed

lemma client_step_ok: "client_step c r \<Longrightarrow> client_ok c \<Longrightarrow> \<exists>c'. r = Some c' \<and> client_ok c'"
proof (induction rule: client_step.induct)
  case (cs_call c m p wr)
  with ok_begin [of c m p wr] show ?case by auto
next
  case (cs_select c ch s w svc x)
  then have "client_ok (c\<lparr>cl_svc := svc\<rparr>)" by (intro ok_select(1))
  then show ?case by simp
next
  case (cs_send c m p wr)
  have "client_ok (c\<lparr>cl_svc := (cl_svc c)\<lparr>sv_sessionID := s\<rparr>\<rparr>)" for s using cs_send by (simp add: client_ok_def)
  with cs_send show ?case by (simp add: CallNoReturn_eq Let_def split: option.split)
next
  case (cs_subscribe depth c ev wr)
  with ok_begin_subscribe [of c depth ev wr] show ?case by auto
next
  case (cs_unsubscribe c ch ev)
  then have "client_ok (c\<lparr>cl_svc := unsubscribe_locked (cl_svc c) ev ch\<rparr>)" by (intro ok_unsubscribe) simp
  then show ?case by (simp add: Unsubscribe_eq)
next
  case (cs_sub_close c ch ev)
  then have "client_ok (c\<lparr>cl_svc := unsubscribe_locked (cl_svc c) ev ch, cl_closing := insert ch (cl_closing c)\<rparr>)"
    by (intro ok_unsubscribe_closing)
  then show ?case by (simp add: Unsubscribe_eq client_ok_def)
next
  case (cs_close_chan ch c)
  with ok_close_once [of c ch] show ?case by auto
next
  case (cs_read c frame)
  with ok_dispatch [of c frame] show ?case by auto
next
  case (cs_close c cc)
  then have "client_ok (c\<lparr>cl_svc := fst (Service_Close cc (cl_svc c))\<rparr>)"
    by (cases "sv_closed (cl_svc c)") (simp_all add: Service_Close_def client_ok_def)
  then show ?case by simp
qed

lemma client_reachable_ok: "client_reachable c \<Longrightarrow> client_ok c"
proof (induction rule: client_reachable.induct)
  case client_new
  then show ?case by (auto simp: NewService_def client_ok_def split: sum.splits option.splits)
next
  case (client_next c c')
  then show ?case using client_step_ok by blast
qed

section \<open>The server's answers\<close>

definition server_answer :: "Server \<Rightarrow> message \<Rightarrow> message" where
  "server_answer s msg =
     (let resp = zero_message\<lparr>ServiceID := us_ServiceID s, MethodID := MethodID msg, ClientID := ClientID msg,
        SessionID := SessionID msg, ProtocolVersion := 1, InterfaceVersion := us_InterfaceVersion s\<rparr>
      in case us_handlers s (MethodID msg) of
           None \<Rightarrow> resp\<lparr>MessageType := MsgTypeError, ReturnCode := RetUnknownMethod\<rparr>
         | Some h \<Rightarrow> (case h msg of
               Inl _ \<Rightarrow> resp\<lparr>MessageType := MsgTypeError, ReturnCode := RetNotOK\<rparr>
             | Inr p \<Rightarrow> resp\<lparr>MessageType := MsgTypeResponse, ReturnCode := RetOK, Payload := p\<rparr>))"

definition is_sd :: "message \<Rightarrow> bool" where
  "is_sd msg \<longleftrightarrow> ServiceID msg = SDServiceID \<and> MethodID msg = SDMethodID"

lemma write_udp_simps [simp]:
  "us_subs (write_udp s a f) = us_subs s" "us_handlers (write_udp s a f) = us_handlers s"
  "us_closed (write_udp s a f) = us_closed s" "us_log (write_udp s a f) = us_log s @ [Datagram a f]"
  by (simp_all add: write_udp_def)

lemma handleFrame_request:
  assumes "Decode frame = Some (Inr msg)" and "\<not> is_sd msg"
  shows "handleFrame w s frame addr = Some
    (if MessageType msg = MsgTypeRequestNoReturn
     then (case us_handlers s (MethodID msg) of Some h \<Rightarrow> s\<lparr>us_log := us_log s @ [Invoked (MethodID msg) msg]\<rparr> | None \<Rightarrow> s)
     else write_udp s addr (wire (server_answer s msg)))"
  using assms
  by (auto simp: handleFrame_def is_sd_def server_answer_def Let_def split: option.split sum.split)

definition subscribe_effect :: "Server \<Rightarrow> Entry \<Rightarrow> udp_addr \<Rightarrow> Server" where
  "subscribe_effect s entry addr = write_udp
     (if e_TTL entry = 0 then UnregisterSubscriber s (e_EventgroupID entry) addr
      else fst (RegisterSubscriber s (e_EventgroupID entry) addr))
     addr (wire (sub_message EntryTypeSubscribeAck (us_ServiceID s) (us_InstanceID s) (e_EventgroupID entry) (e_TTL entry)))"

lemma handleFrame_sd:
  assumes "Decode frame = Some (Inr msg)" and "is_sd msg"
  shows "handleFrame w s frame addr =
    Some (case the (decodeSubscribeEntry w (Payload msg)) of None \<Rightarrow> s | Some e \<Rightarrow> subscribe_effect s e addr)"
proof -
  have ids: "us_ServiceID (if b then UnregisterSubscriber s ev addr else fst (RegisterSubscriber s ev addr)) = us_ServiceID s"
    "us_InstanceID (if b then UnregisterSubscriber s ev addr else fst (RegisterSubscriber s ev addr)) = us_InstanceID s" for b ev
    by (simp_all add: UnregisterSubscriber_def RegisterSubscriber_def)
  show ?thesis
    using assms ids
    by (simp add: handleFrame_def is_sd_def handleSubscribeFrame_def decodeSubscribeEntry_eq encodeSDEntryFrame_eq
        subscribe_effect_def Let_def)
qed

text \<open>One datagram handled: the server state, at most one answer, at most one handler started.\<close>

lemma handleFrame_defined: "\<exists>s'. handleFrame w s frame addr = Some s'"
proof -
  obtain x where x: "Decode frame = Some x" by (auto simp: Decode_eq)
  show ?thesis
  proof (cases x)
    case (Inl e)
    then show ?thesis by (simp add: handleFrame_def x)
  next
    case (Inr msg)
    then show ?thesis
      using handleFrame_sd [of frame msg w s addr] handleFrame_request [of frame msg w s addr] x
      by (cases "is_sd msg") auto
  qed
qed

definition server_ok :: "Server \<Rightarrow> bool" where
  "server_ok s \<longleftrightarrow> (\<forall>ev. distinct (map addr_text (us_subs s ev)))"

lemma server_ok_register: "server_ok s \<Longrightarrow> server_ok (fst (RegisterSubscriber s ev addr))"
  by (auto simp: server_ok_def RegisterSubscriber_def list_ex_iff)

lemma server_ok_unregister: "server_ok s \<Longrightarrow> server_ok (UnregisterSubscriber s ev addr)"
  by (auto simp: server_ok_def UnregisterSubscriber_def distinct_map_filter)

lemma server_ok_subscribe: "server_ok s \<Longrightarrow> server_ok (subscribe_effect s e addr)"
  using server_ok_register server_ok_unregister
  by (simp add: subscribe_effect_def server_ok_def)

lemma server_ok_handleFrame:
  assumes "server_ok s" and h: "handleFrame w s frame addr = Some s'"
  shows "server_ok s'"
proof -
  obtain x where x: "Decode frame = Some x" by (auto simp: Decode_eq)
  show ?thesis
  proof (cases x)
    case (Inl e)
    with assms show ?thesis by (simp add: handleFrame_def x)
  next
    case (Inr msg)
    show ?thesis
    proof (cases "is_sd msg")
      case True
      with h Inr x have "s' = (case the (decodeSubscribeEntry w (Payload msg)) of None \<Rightarrow> s | Some e \<Rightarrow> subscribe_effect s e addr)"
        using handleFrame_sd [of frame msg w s addr] by simp
      then show ?thesis using assms(1) server_ok_subscribe by (simp split: option.split)
    next
      case False
      with h Inr x handleFrame_request [of frame msg w s addr] assms(1) show ?thesis
        by (auto simp: server_ok_def split: if_splits option.splits)
    qed
  qed
qed

lemma emit_loop_eq: "emit_loop s as frame = s\<lparr>us_log := us_log s @ map (\<lambda>a. Datagram a frame) as\<rparr>"
  by (induction as arbitrary: s) (simp_all add: write_udp_def)

definition notification :: "Server \<Rightarrow> u16 \<Rightarrow> byte list \<Rightarrow> message" where
  "notification s ev payload = zero_message\<lparr>ServiceID := us_ServiceID s, MethodID := ev, ProtocolVersion := 1,
     InterfaceVersion := us_InterfaceVersion s, MessageType := MsgTypeNotification, ReturnCode := RetOK, Payload := payload\<rparr>"

lemma Emit_eq:
  "Emit s ev payload = Some (if us_closed s then (s, Some ErrClosed)
     else (s\<lparr>us_log := us_log s @ map (\<lambda>a. Datagram a (wire (notification s ev payload))) (us_subs s ev)\<rparr>, None))"
  by (simp add: Emit_def notification_def emit_loop_eq)

section \<open>Properties\<close>

text \<open>Whatever the calls, subscriptions, unsubscriptions, closes and received frames of a UDP client do,
  in any order and interleaved between their critical sections, no step panics: nothing is ever sent on a
  closed channel and no channel is closed twice.\<close>

theorem client_never_panics:
  assumes "client_reachable c" and "client_step c r"
  shows "\<exists>c'. r = Some c' \<and> (\<forall>ev. \<forall>ch \<in> set (sv_subs (cl_svc c') ev). \<not> ch_closed (sv_chans (cl_svc c') ch))
    \<and> (\<forall>s ch. sv_pending (cl_svc c') s = Some ch \<longrightarrow> \<not> ch_closed (sv_chans (cl_svc c') ch))"
proof -
  obtain c' where c': "r = Some c'" "client_ok c'"
    using client_step_ok [OF assms(2) client_reachable_ok [OF assms(1)]] by blast
  then show ?thesis using client_okD(1-3) [OF c'(2)] by blast
qed

definition sample_addr :: udp_addr where "sample_addr = \<lparr>a_IP = [10, 0, 0, 1], a_Port = 30509\<rparr>"

definition sample_service :: Service where
  "sample_service = \<lparr>sv_ServiceID = 0x1234, sv_InstanceID = 1, sv_serverAddr = sample_addr,
     sv_timeout = defaultTimeout, sv_sessionID = 0, sv_pending = Map.empty, sv_subs = (\<lambda>_. []), sv_closed = False,
     sv_chans = (\<lambda>_. \<lparr>ch_queue = [], ch_cap = 0, ch_closed = False\<rparr>), sv_next = 0, sv_once = {}, sv_log = []\<rparr>"

definition sample_client :: client where
  "sample_client = \<lparr>cl_svc = sample_service, cl_calls = Map.empty, cl_subs = Map.empty, cl_closing = {}\<rparr>"

lemma sample_client_reachable: "client_reachable sample_client"
  using client_new [of "\<lambda>_. Inr sample_addr" None "''''" "0x1234" 1 0]
  by (simp add: NewService_def sample_client_def sample_service_def)

theorem client_never_panics_witness:
  "\<exists>svc. dispatchFrame sample_service [1, 2, 3] = Some svc"
proof -
  have "client_step sample_client (map_option (\<lambda>svc. sample_client\<lparr>cl_svc := svc\<rparr>) (dispatchFrame (cl_svc sample_client) [1, 2, 3]))"
    by (rule cs_read)
  from client_never_panics [OF sample_client_reachable this] show ?thesis by (auto simp: sample_client_def)
qed

text \<open>C23: calls and subscriptions do not see each other's messages. In every reachable state a call that
  returns a message returns one whose SessionID is its own and that is a response or an error, and a
  subscription's channel holds only notifications of its own event.\<close>

theorem client_isolation:
  assumes "client_reachable c"
  shows "(\<forall>ch s w svc m. cl_calls c ch = Some s \<and> Call_select (cl_svc c) s ch w = Some (svc, Inr m) \<longrightarrow>
      SessionID m = s \<and> MessageType m \<in> {MsgTypeResponse, MsgTypeError})
    \<and> (\<forall>ch ev. cl_subs c ch = Some ev \<longrightarrow> (\<forall>m \<in> set (ch_queue (sv_chans (cl_svc c) ch)).
      MethodID m = ev \<and> MessageType m = MsgTypeNotification))"
proof -
  note ok = client_reachable_ok [OF assms]
  show ?thesis
    using ok_select(2) [OF ok] client_okD(4) [OF ok] by (fastforce simp: notifications_def)
qed

theorem client_isolation_witness:
  "\<exists>c f. client_reachable c \<and> cl_calls c 0 = Some 1 \<and> sv_log (cl_svc c) = [Datagram sample_addr f]
    \<and> (\<forall>w svc m. Call_select (cl_svc c) 1 0 w = Some (svc, Inr m) \<longrightarrow> SessionID m = 1)"
proof -
  let ?f = "wire (request sample_service 5 1 MsgTypeRequest [])"
  let ?c = "sample_client\<lparr>cl_svc := send_udp (called sample_service) ?f, cl_calls := [0 \<mapsto> 1]\<rparr>"
  have "client_step sample_client (Some ?c)"
    using cs_call [of sample_client 5 "[]" "\<lambda>_. None"]
    by (simp add: Call_begin_eq Let_def) (simp add: sample_client_def sample_service_def)
  then have r: "client_reachable ?c" by (rule client_next [OF sample_client_reachable])
  have "\<forall>w svc m. Call_select (cl_svc ?c) 1 0 w = Some (svc, Inr m) \<longrightarrow> SessionID m = 1"
  proof (intro allI impI)
    fix w svc m
    assume "Call_select (cl_svc ?c) 1 0 w = Some (svc, Inr m)"
    then have "cl_calls ?c 0 = Some 1 \<and> Call_select (cl_svc ?c) 1 0 w = Some (svc, Inr m)" by simp
    from client_isolation [OF r, THEN conjunct1, rule_format, OF this] show "SessionID m = 1" ..
  qed
  with r show ?thesis by (intro exI [of _ ?c] exI [of _ ?f]) (simp add: send_udp_def called_def sample_service_def)
qed

text \<open>C5: a call over UDP, end to end. The request \<open>Call\<close> sends makes the server write one datagram back;
  the frame wakes the call, which returns the registered handler's output as a response, its failure as
  E_NOT_OK, or E_UNKNOWN_METHOD when none is registered, under the call's own session and with the
  server's identity, and leaves no trace in the pending table. Both datagrams arrive; those of at most 65507 bytes, as many as
  a datagram holds, pass the read loops uncut.\<close>

theorem udp_call_end_to_end:
  assumes "\<not> sv_closed svc" and "length p + 8 < 2 ^ 32"
    and "\<not> (sv_ServiceID svc = SDServiceID \<and> m = SDMethodID)" "\<not> (us_ServiceID s = SDServiceID \<and> m = SDMethodID)"
    and req: "req = (request svc m (sv_sessionID svc + 1) MsgTypeRequest p)\<lparr>ProtocolVersion := 1\<rparr>"
    and small: "length (Payload (server_answer s req)) + 8 < 2 ^ 32"
  shows "\<exists>svc1 ch frame resp svc2 svc3. Call_begin svc m p (\<lambda>_. None) = Some (svc1, Inr (sv_sessionID svc + 1, ch))
    \<and> sv_log svc1 = sv_log svc @ [Datagram (sv_serverAddr svc) frame]
    \<and> handleFrame w s frame src = Some (s\<lparr>us_log := us_log s @ [Datagram src resp]\<rparr>)
    \<and> dispatchFrame svc1 resp = Some svc2
    \<and> (16 + length p \<le> 65507 \<longrightarrow> Server_readLoop [Read (frame, src)] = ([(frame, src)], False))
    \<and> (16 + length (Payload (server_answer s req)) \<le> 65507 \<longrightarrow> Service_readLoop svc1 [Read resp] = Some (svc2, False))
    \<and> Call_select svc2 (sv_sessionID svc + 1) ch Woken_by_response = Some (svc3, Inr (server_answer s req))
    \<and> sv_pending svc3 (sv_sessionID svc + 1) = None
    \<and> (case us_handlers s m of
         None \<Rightarrow> ReturnCode (server_answer s req) = RetUnknownMethod \<and> MessageType (server_answer s req) = MsgTypeError
       | Some h \<Rightarrow> (case h req of
           Inl _ \<Rightarrow> ReturnCode (server_answer s req) = RetNotOK \<and> MessageType (server_answer s req) = MsgTypeError
         | Inr out \<Rightarrow> ReturnCode (server_answer s req) = RetOK \<and> MessageType (server_answer s req) = MsgTypeResponse
             \<and> Payload (server_answer s req) = out))"
proof -
  let ?sess = "sv_sessionID svc + 1" and ?ch = "sv_next svc"
  let ?rq = "request svc m (sv_sessionID svc + 1) MsgTypeRequest p"
  let ?a = "server_answer s req"
  let ?svc1 = "send_udp (called svc) (wire ?rq)"
  let ?svc2 = "?svc1\<lparr>sv_chans := (sv_chans ?svc1)(?ch := \<lparr>ch_queue = [?a], ch_cap = 1, ch_closed = False\<rparr>)\<rparr>"
  let ?svc3 = "Call_end (?svc2\<lparr>sv_chans := (sv_chans ?svc2)(?ch := \<lparr>ch_queue = [], ch_cap = 1, ch_closed = False\<rparr>)\<rparr>) ?sess"
  have beg: "Call_begin svc m p (\<lambda>_. None) = Some (?svc1, Inr (?sess, ?ch))"
    using assms(1) by (simp add: Call_begin_eq Let_def)
  have "Decode (wire ?rq) = Some (Inr req)"
    unfolding req using assms(2) by (intro Decode_wire) (simp add: fits_def request_def)
  moreover have "\<not> is_sd req" "MessageType req \<noteq> MsgTypeRequestNoReturn"
    using assms(3) by (auto simp: req is_sd_def request_def msg_types)
  ultimately have handle: "handleFrame w s (wire ?rq) src = Some (s\<lparr>us_log := us_log s @ [Datagram src (wire ?a)]\<rparr>)"
    by (simp add: handleFrame_request) (simp add: write_udp_def)
  have a: "ProtocolVersion ?a = 1" "ServiceID ?a = us_ServiceID s" "MethodID ?a = m" "SessionID ?a = ?sess"
    "MessageType ?a = MsgTypeResponse \<or> MessageType ?a = MsgTypeError"
    by (auto simp: server_answer_def req request_def zero_message_def Let_def split: option.split sum.split)
  have "Decode (wire ?a) = Some (Inr (?a\<lparr>ProtocolVersion := 1\<rparr>))"
    using small by (intro Decode_wire) (simp add: fits_def)
  then have dec: "Decode (wire ?a) = Some (Inr ?a)" using a(1) by simp
  have nn: "MessageType ?a \<noteq> MsgTypeNotification" using a(5) by (auto simp: msg_types)
  have dispatch: "dispatchFrame ?svc1 (wire ?a) = Some ?svc2"
    using a nn assms(4) by (auto simp: dispatchFrame_def dec called_def send_chan_def try_send_def)
  have select: "Call_select ?svc2 ?sess ?ch Woken_by_response = Some (?svc3, Inr ?a)"
    by (simp add: Call_select_def recv_def)
  have "length (wire ?rq) = 16 + length p" by (simp add: request_def)
  then have "16 + length p \<le> 65507 \<longrightarrow> Server_readLoop [Read (wire ?rq, src)] = ([(wire ?rq, src)], False)"
    by (simp add: Server_readLoop_def maxUDPFrameSize_def)
  moreover have "16 + length (Payload ?a) \<le> 65507 \<longrightarrow> Service_readLoop ?svc1 [Read (wire ?a)] = Some (?svc2, False)"
    using dispatch by (simp add: maxUDPFrameSize_def)
  moreover have "case us_handlers s m of
         None \<Rightarrow> ReturnCode ?a = RetUnknownMethod \<and> MessageType ?a = MsgTypeError
       | Some h \<Rightarrow> (case h req of
           Inl _ \<Rightarrow> ReturnCode ?a = RetNotOK \<and> MessageType ?a = MsgTypeError
         | Inr out \<Rightarrow> ReturnCode ?a = RetOK \<and> MessageType ?a = MsgTypeResponse \<and> Payload ?a = out)"
    by (simp add: server_answer_def req request_def Let_def split: option.split sum.split)
  moreover have "sv_log ?svc1 = sv_log svc @ [Datagram (sv_serverAddr svc) (wire ?rq)]"
    by (simp add: send_udp_def called_def)
  moreover have "sv_pending ?svc3 ?sess = None" by (simp add: Call_end_def)
  ultimately show ?thesis using beg handle dispatch select by blast
qed

definition sample_server :: Server where
  "sample_server = \<lparr>us_ServiceID = 0x1234, us_InstanceID = 1, us_InterfaceVersion = 2,
     us_handlers = [1 \<mapsto> (\<lambda>req. Inr (Payload req @ [33]))], us_subs = (\<lambda>_. []), us_closed = False, us_log = []\<rparr>"

theorem udp_call_end_to_end_witness:
  "\<exists>svc1 ch frame resp svc2 svc3 a. Call_begin sample_service 1 [7] (\<lambda>_. None) = Some (svc1, Inr (1, ch))
    \<and> sv_log svc1 = [Datagram sample_addr frame]
    \<and> handleFrame 64 sample_server frame sample_addr = Some (sample_server\<lparr>us_log := [Datagram sample_addr resp]\<rparr>)
    \<and> dispatchFrame svc1 resp = Some svc2 \<and> Call_select svc2 1 ch Woken_by_response = Some (svc3, Inr a)
    \<and> Payload a = [7, 33] \<and> ReturnCode a = RetOK"
proof -
  let ?req = "(request sample_service 1 1 MsgTypeRequest [7])\<lparr>ProtocolVersion := 1\<rparr>"
  have c: "\<not> sv_closed sample_service" "length [7 :: byte] + 8 < 2 ^ 32"
    "\<not> (sv_ServiceID sample_service = SDServiceID \<and> 1 = SDMethodID)"
    "\<not> (us_ServiceID sample_server = SDServiceID \<and> 1 = SDMethodID)"
    by (simp_all add: sample_service_def sample_server_def SDServiceID_def)
  have a: "Payload (server_answer sample_server ?req) = [7, 33]" "ReturnCode (server_answer sample_server ?req) = RetOK"
    by (simp_all add: server_answer_def request_def sample_server_def Let_def)
  have r: "?req = (request sample_service 1 (sv_sessionID sample_service + 1) MsgTypeRequest [7])\<lparr>ProtocolVersion := 1\<rparr>"
    by (simp add: sample_service_def)
  have "length (Payload (server_answer sample_server ?req)) + 8 < 2 ^ 32" by (simp add: a)
  note e = udp_call_end_to_end [OF c r this, where w = 64 and src = sample_addr]
  have f: "sv_sessionID sample_service + 1 = 1" "us_log sample_server = []" "sv_log sample_service = []"
    "sv_serverAddr sample_service = sample_addr"
    by (simp_all add: sample_service_def sample_server_def)
  show ?thesis using e a unfolding f append_Nil by blast
qed

lemma Service_readLoop_eq:
  "Service_readLoop svc rs = map_option (\<lambda>svc. (svc, Read_failed True \<in> set rs))
     (run_all dispatchFrame svc (map (take (nat maxUDPFrameSize)) (reads rs)))"
proof (induction rs arbitrary: svc rule: reads.induct)
  case (2 x rs)
  then show ?case by (cases "dispatchFrame svc (take (nat maxUDPFrameSize) x)") simp_all
qed simp_all

lemma client_reads:
  "client_reachable c \<Longrightarrow> \<exists>svc. run_all dispatchFrame (cl_svc c) frames = Some svc \<and> client_reachable (c\<lparr>cl_svc := svc\<rparr>)"
proof (induction frames arbitrary: c)
  case (Cons f frames)
  obtain svc where svc: "dispatchFrame (cl_svc c) f = Some svc"
    using client_step_ok [OF cs_read [of c f] client_reachable_ok [OF Cons.prems]] by auto
  then have "client_step c (Some (c\<lparr>cl_svc := svc\<rparr>))" using cs_read [of c f] by simp
  from Cons.IH [OF client_next [OF Cons.prems this]] show ?case using svc by simp
qed simp

text \<open>The life of the client's read loop. In whatever state of a client it starts and whatever it reads, the
  loop never panics; it returns exactly at the first read that fails once the client is closed, it survives every
  error before that, and it has dispatched exactly the datagrams read until then, in order.\<close>

theorem client_read_loop:
  assumes "client_reachable c"
  shows "\<exists>svc. Service_readLoop (cl_svc c) rs = Some (svc, Read_failed True \<in> set rs)
    \<and> run_all dispatchFrame (cl_svc c) (map (take 65507) (reads rs)) = Some svc \<and> client_reachable (c\<lparr>cl_svc := svc\<rparr>)"
proof -
  have "nat maxUDPFrameSize = 65507" by (simp add: maxUDPFrameSize_def)
  then show ?thesis
    using client_reads [OF assms, of "map (take 65507) (reads rs)"] by (auto simp: Service_readLoop_eq)
qed

theorem client_read_loop_witness:
  "\<exists>svc. Service_readLoop sample_service [Read [1], Read_failed False, Read [2], Read_failed True, Read [3]] = Some (svc, True)
    \<and> run_all dispatchFrame sample_service [[1], [2]] = Some svc"
  using client_read_loop [OF sample_client_reachable, of "[Read [1], Read_failed False, Read [2], Read_failed True, Read [3]]"]
  by (auto simp: sample_client_def maxUDPFrameSize_def)

section \<open>Events\<close>

lemma sub_frame_handled:
  assumes w: "w = 32 \<or> w = 64"
  shows "handleFrame w s (sub_frame svc ev ttl) addr =
    Some (subscribe_effect s (entry_carried (sub_entry EntryTypeSubscribe (sv_ServiceID svc) (sv_InstanceID svc) ev ttl)) addr)"
proof -
  let ?m = "sub_message EntryTypeSubscribe (sv_ServiceID svc) (sv_InstanceID svc) ev ttl"
  have "Decode (wire ?m) = Some (Inr (?m\<lparr>ProtocolVersion := 1\<rparr>))"
    by (intro Decode_wire) (simp add: fits_def sub_message_def)
  then have "Decode (sub_frame svc ev ttl) = Some (Inr ?m)"
    by (simp add: sub_frame_def) (simp add: sub_message_def zero_message_def)
  moreover have "is_sd ?m" by (simp add: is_sd_def sub_message_def)
  ultimately show ?thesis using decode_sub_message [OF _ w] by (simp add: handleFrame_sd)
qed

lemma sub_entry_carried:
  "e_EventgroupID (entry_carried (sub_entry EntryTypeSubscribe sid iid ev ttl)) = ev"
  "e_TTL (entry_carried (sub_entry EntryTypeSubscribe sid iid ev subscribeTTL)) = subscribeTTL"
  "e_TTL (entry_carried (sub_entry EntryTypeSubscribe sid iid ev 0)) = 0"
  by (simp_all add: entry_carried_def sub_entry_def is_subscribe_def subscribeTTL_def take_bit_eq_mod)

lemma ack_ignored: "dispatchFrame svc (wire (sub_message EntryTypeSubscribeAck sid iid ev ttl)) = Some svc"
proof -
  let ?m = "sub_message EntryTypeSubscribeAck sid iid ev ttl"
  have "Decode (wire ?m) = Some (Inr (?m\<lparr>ProtocolVersion := 1\<rparr>))"
    by (intro Decode_wire) (simp add: fits_def sub_message_def)
  moreover have "ServiceID ?m = SDServiceID" "MethodID ?m = SDMethodID" by (simp_all add: sub_message_def)
  ultimately show ?thesis by (simp add: dispatchFrame_def)
qed

lemma registered_once:
  assumes "server_ok s" "\<not> us_closed s"
  shows "length (filter (\<lambda>a. addr_text a = addr_text addr) (us_subs (fst (RegisterSubscriber s ev addr)) ev)) = 1"
proof -
  let ?s = "fst (RegisterSubscriber s ev addr)"
  have d: "distinct (map addr_text (us_subs ?s ev))"
    using server_ok_register [OF assms(1)] by (simp add: server_ok_def)
  have m: "addr_text addr \<in> addr_text ` set (us_subs ?s ev)"
    using assms(2) by (auto simp: RegisterSubscriber_def list_ex_iff intro: image_eqI [OF sym])
  have "distinct (map f xs) \<Longrightarrow> y \<in> f ` set xs \<Longrightarrow> length (filter (\<lambda>x. f x = y) xs) = 1" for f :: "udp_addr \<Rightarrow> _" and xs y
  proof (induction xs)
    case (Cons x xs)
    show ?case
    proof (cases "f x = y")
      case True
      then have "filter (\<lambda>x. f x = y) xs = []" using Cons.prems(1) by (auto simp: filter_empty_conv dest: image_eqI [OF sym])
      with True show ?thesis by simp
    qed (use Cons in auto)
  qed simp
  from this [OF d m] show ?thesis .
qed

lemma notify_delivers:
  "distinct chs \<Longrightarrow> (\<forall>ch \<in> set chs. \<not> ch_closed (sv_chans svc ch)) \<Longrightarrow>
   \<exists>svc'. notify_loop svc chs m = Some svc' \<and> sv_subs svc' = sv_subs svc \<and>
     (\<forall>ch. sv_chans svc' ch = (if ch \<in> set chs then the (try_send (sv_chans svc ch) m) else sv_chans svc ch))"
proof (induction chs arbitrary: svc)
  case (Cons ch chs)
  let ?svc = "svc\<lparr>sv_chans := (sv_chans svc)(ch := the (try_send (sv_chans svc ch) m))\<rparr>"
  have "send_chan svc ch m = Some ?svc" using Cons.prems(2) by (simp add: send_chan_def try_send_def)
  moreover have "\<exists>svc'. notify_loop ?svc chs m = Some svc' \<and> sv_subs svc' = sv_subs ?svc \<and>
     (\<forall>c. sv_chans svc' c = (if c \<in> set chs then the (try_send (sv_chans ?svc c) m) else sv_chans ?svc c))"
    using Cons.prems by (intro Cons.IH) auto
  ultimately show ?case using Cons.prems(1) by fastforce
qed simp

text \<open>Two subscriptions of one service to the same event share one registration at the server. When either
  is unsubscribed the server forgets the address, so that the other, which is still open, gets no further
  event.\<close>

theorem udp_unsubscribe_starves_other:
  assumes "\<not> sv_closed svc" "\<not> us_closed s" "server_ok s" "w = 32 \<or> w = 64"
    and "\<forall>ch \<in> set (sv_subs svc ev). ch < sv_next svc"
  shows "\<exists>svc1 ch1 svc2 ch2 svc3 f1 f2 f3 s1 s2 s3. Subscribe svc ev 64 (\<lambda>_. None) = Some (svc1, Inr ch1)
    \<and> Subscribe svc1 ev 64 (\<lambda>_. None) = Some (svc2, Inr ch2) \<and> Unsubscribe svc2 ev ch1 = Some svc3
    \<and> sv_log svc3 = sv_log svc @ map (Datagram (sv_serverAddr svc)) [f1, f2, f3]
    \<and> handleFrame w s f1 src = Some s1 \<and> handleFrame w s1 f2 src = Some s2 \<and> handleFrame w s2 f3 src = Some s3
    \<and> ch2 \<in> set (sv_subs svc3 ev) \<and> (\<forall>a \<in> set (us_subs s3 ev). addr_text a \<noteq> addr_text src)"
proof -
  let ?svc1 = "send_udp (subscribed svc ev 64) (sub_frame svc ev subscribeTTL)"
  let ?svc2 = "send_udp (subscribed ?svc1 ev 64) (sub_frame ?svc1 ev subscribeTTL)"
  let ?svc3 = "send_udp (unsubscribe_locked ?svc2 ev (sv_next svc)) (sub_frame ?svc2 ev 0)"
  have s: "Subscribe svc ev 64 (\<lambda>_. None) = Some (?svc1, Inr (sv_next svc))"
    "Subscribe ?svc1 ev 64 (\<lambda>_. None) = Some (?svc2, Inr (sv_next svc + 1))"
    "Unsubscribe ?svc2 ev (sv_next svc) = Some ?svc3"
    using assms(1) by (simp_all add: Subscribe_eq Unsubscribe_eq) (simp_all add: subscribed_def send_udp_def)
  have log: "sv_log ?svc3 = sv_log svc @ map (Datagram (sv_serverAddr svc))
      [sub_frame svc ev subscribeTTL, sub_frame ?svc1 ev subscribeTTL, sub_frame ?svc2 ev 0]"
    by (simp add: send_udp_def subscribed_def unsubscribe_locked_def)
  have live: "sv_next svc + 1 \<in> set (sv_subs ?svc3 ev)"
    by (simp add: unsubscribe_locked_def subscribed_def)
  have gone: "\<forall>a \<in> set (us_subs (subscribe_effect x (entry_carried (sub_entry EntryTypeSubscribe sid iid ev 0)) src) ev).
      addr_text a \<noteq> addr_text src" for x sid iid
    by (simp add: subscribe_effect_def sub_entry_carried) (simp add: UnregisterSubscriber_def)
  show ?thesis
    using s log live gone sub_frame_handled [OF assms(4)] by blast
qed

theorem udp_unsubscribe_starves_other_witness:
  "\<exists>svc1 ch1 svc2 ch2 svc3. Subscribe sample_service 0x8001 64 (\<lambda>_. None) = Some (svc1, Inr ch1)
    \<and> Subscribe svc1 0x8001 64 (\<lambda>_. None) = Some (svc2, Inr ch2) \<and> Unsubscribe svc2 0x8001 ch1 = Some svc3
    \<and> ch2 \<in> set (sv_subs svc3 0x8001)"
proof -
  have c: "\<not> sv_closed sample_service" "\<not> us_closed sample_server" "server_ok sample_server"
    "64 = (32 :: nat) \<or> 64 = (64 :: nat)" "\<forall>ch \<in> set (sv_subs sample_service 0x8001). ch < sv_next sample_service"
    by (simp_all add: sample_service_def sample_server_def server_ok_def)
  show ?thesis using udp_unsubscribe_starves_other [OF c, of sample_addr] by blast
qed

text \<open>What a datagram does to a server. It never panics; a datagram adds at most one datagram to the wire,
  always to its sender, or starts at most one handler for a request without return, which is never
  answered; and an event never has the same subscriber twice.\<close>

theorem server_outcome:
  assumes "server_ok s"
  shows "\<exists>s' out. handleFrame w s frame src = Some s' \<and> us_log s' = us_log s @ out \<and> length out \<le> 1
    \<and> (\<forall>x \<in> set out. (\<exists>f. x = Datagram src f) \<or> (\<exists>m. x = Invoked (MethodID m) m \<and> MessageType m = MsgTypeRequestNoReturn
          \<and> Decode frame = Some (Inr m)))
    \<and> us_handlers s' = us_handlers s \<and> (\<forall>ev. distinct (map addr_text (us_subs s' ev)))"
proof -
  obtain s' where s': "handleFrame w s frame src = Some s'" using handleFrame_defined by blast
  have "server_ok s'" using server_ok_handleFrame [OF assms s'] .
  moreover obtain x where x: "Decode frame = Some x" by (auto simp: Decode_eq)
  have "\<exists>out. us_log s' = us_log s @ out \<and> length out \<le> 1 \<and> us_handlers s' = us_handlers s
    \<and> (\<forall>x \<in> set out. (\<exists>f. x = Datagram src f) \<or> (\<exists>m. x = Invoked (MethodID m) m \<and> MessageType m = MsgTypeRequestNoReturn
          \<and> Decode frame = Some (Inr m)))"
  proof (cases x)
    case (Inl e)
    with s' x show ?thesis by (simp add: handleFrame_def)
  next
    case (Inr m)
    have reg: "us_log (fst (RegisterSubscriber s ev a)) = us_log s" "us_handlers (fst (RegisterSubscriber s ev a)) = us_handlers s"
      "us_log (UnregisterSubscriber s ev a) = us_log s" "us_handlers (UnregisterSubscriber s ev a) = us_handlers s" for ev a
      by (simp_all add: RegisterSubscriber_def UnregisterSubscriber_def)
    show ?thesis
      using s' x Inr handleFrame_sd [of frame m w s src] handleFrame_request [of frame m w s src] reg
      by (cases "is_sd m") (auto simp: subscribe_effect_def split: if_splits option.splits)
  qed
  ultimately show ?thesis using s' by (auto simp: server_ok_def)
qed

theorem server_outcome_witness:
  "\<exists>s' out. handleFrame 64 sample_server (wire (request sample_service 1 1 MsgTypeRequest [])) sample_addr = Some s'
    \<and> us_log s' = out \<and> length out \<le> 1"
proof -
  have ok: "server_ok sample_server" "us_log sample_server = []" by (simp_all add: server_ok_def sample_server_def)
  show ?thesis
    using server_outcome [OF ok(1), of 64 "wire (request sample_service 1 1 MsgTypeRequest [])" sample_addr]
    unfolding ok(2) by auto
qed

section \<open>Many calls over a lossy network\<close>

definition start_udp :: "Service \<Rightarrow> u16 \<times> byte list \<Rightarrow> Service option" where
  "start_udp svc q = (case Call_begin svc (fst q) (snd q) (\<lambda>_. None) of Some (svc', Inr _) \<Rightarrow> Some svc' | _ \<Rightarrow> None)"

definition udp_ready :: "Service \<Rightarrow> bool" where
  "udp_ready svc \<longleftrightarrow> \<not> sv_closed svc \<and>
     (\<forall>k c. sv_pending svc k = Some c \<longrightarrow> c < sv_next svc \<and> ch_cap (sv_chans svc c) = 1 \<and> \<not> ch_closed (sv_chans svc c))"

text \<open>The messages \<open>dispatchFrame\<close> takes for responses.\<close>

definition response_frame :: "message \<Rightarrow> bool" where
  "response_frame m \<longleftrightarrow> fits m \<and> ProtocolVersion m = 1 \<and> \<not> is_sd m \<and> MessageType m \<in> {MsgTypeResponse, MsgTypeError}"

lemma start_udp_eq:
  "udp_ready svc \<Longrightarrow> start_udp svc q = Some (send_udp (called svc)
     (wire (request svc (fst q) (sv_sessionID svc + 1) MsgTypeRequest (snd q))))"
  by (simp add: start_udp_def Call_begin_eq udp_ready_def Let_def)

lemma dispatchFrame_response:
  assumes "response_frame m"
  shows "dispatchFrame svc (wire m) = (case sv_pending svc (SessionID m) of Some ch \<Rightarrow> send_chan svc ch m | None \<Rightarrow> Some svc)"
proof -
  have "Decode (wire m) = Some (Inr (m\<lparr>ProtocolVersion := 1\<rparr>))" using assms by (intro Decode_wire) (simp add: response_frame_def)
  moreover have "m\<lparr>ProtocolVersion := 1\<rparr> = m" using assms by (simp add: response_frame_def)
  ultimately show ?thesis
    using assms by (auto simp: dispatchFrame_def response_frame_def is_sd_def msg_types)
qed

interpretation udp_calls: call_table start_udp "\<lambda>s m. dispatchFrame s (wire m)" sv_sessionID sv_next sv_pending
  "\<lambda>s c. ch_queue (sv_chans s c)" SessionID response_frame udp_ready
proof unfold_locales
  fix s :: Service and q :: "u16 \<times> byte list"
  assume "udp_ready s"
  moreover from this have "udp_ready (send_udp (called s) f)" for f by (fastforce simp: udp_ready_def called_def)
  ultimately show "\<exists>s'. start_udp s q = Some s' \<and> udp_ready s' \<and> sv_sessionID s' = sv_sessionID s + 1 \<and> sv_next s' = Suc (sv_next s)
      \<and> sv_pending s' = (sv_pending s)(sv_sessionID s + 1 \<mapsto> sv_next s)
      \<and> (\<lambda>c. ch_queue (sv_chans s' c)) = (\<lambda>c. ch_queue (sv_chans s c))(sv_next s := [])"
    by (simp add: start_udp_eq) (auto simp: called_def)
next
  fix s m
  assume r: "udp_ready s" and m: "response_frame m"
  show "\<exists>s'. dispatchFrame s (wire m) = Some s' \<and> udp_ready s' \<and> sv_pending s' = sv_pending s
      \<and> (\<lambda>c. ch_queue (sv_chans s' c)) = (\<lambda>c. if sv_pending s (SessionID m) = Some c \<and> ch_queue (sv_chans s c) = []
          then [m] else ch_queue (sv_chans s c))"
  proof (cases "sv_pending s (SessionID m)")
    case (Some c)
    then have c: "ch_cap (sv_chans s c) = 1" "\<not> ch_closed (sv_chans s c)" using r by (auto simp: udp_ready_def)
    let ?s = "s\<lparr>sv_chans := (sv_chans s)(c := the (try_send (sv_chans s c) m))\<rparr>"
    have "dispatchFrame s (wire m) = Some ?s" using Some c by (simp add: dispatchFrame_response [OF m] send_chan_def try_send_def)
    moreover have "udp_ready ?s" using r c by (auto simp: udp_ready_def try_send_def)
    moreover have "(\<lambda>x. ch_queue (sv_chans ?s x)) = (\<lambda>x. if sv_pending s (SessionID m) = Some x \<and> ch_queue (sv_chans s x) = []
          then [m] else ch_queue (sv_chans s x))"
      using Some c by (auto simp: try_send_def fun_eq_iff Suc_le_eq)
    ultimately show ?thesis by auto
  qed (use r m in \<open>simp add: dispatchFrame_response\<close>)
qed (auto simp: udp_ready_def)

definition requests :: "Service \<Rightarrow> (u16 \<times> byte list) list \<Rightarrow> message list" where
  "requests svc qs = map (\<lambda>(i, m, p). request svc m (sv_sessionID svc + 1 + of_nat i) MsgTypeRequest p) (enumerate 0 qs)"

lemma udp_request_nth: "i < length qs \<Longrightarrow>
  requests svc qs ! i = request svc (fst (qs ! i)) (sv_sessionID svc + 1 + of_nat i) MsgTypeRequest (snd (qs ! i))"
  by (simp add: requests_def nth_enumerate_eq split: prod.split)

lemma udp_requests_snoc: "requests svc (qs @ [q]) = requests svc qs
  @ [request svc (fst q) (sv_sessionID svc + 1 + of_nat (length qs)) MsgTypeRequest (snd q)]"
  by (simp add: requests_def enumerate_append_eq split: prod.split)

lemma start_udp_log:
  "udp_ready svc \<Longrightarrow> length qs \<le> 2 ^ 16 \<Longrightarrow> \<exists>svc1. run_all start_udp svc qs = Some svc1 \<and> udp_ready svc1 \<and>
     sv_sessionID svc1 = sv_sessionID svc + of_nat (length qs) \<and> sv_ServiceID svc1 = sv_ServiceID svc \<and>
     sv_serverAddr svc1 = sv_serverAddr svc \<and>
     sv_log svc1 = sv_log svc @ map (\<lambda>m. Datagram (sv_serverAddr svc) (wire m)) (requests svc qs)"
proof (induction qs rule: rev_induct)
  case Nil
  then show ?case by (simp add: requests_def)
next
  case (snoc q qs)
  from snoc.prems(2) have "length qs \<le> 2 ^ 16" by simp
  with snoc obtain svc1 where svc1: "run_all start_udp svc qs = Some svc1" "udp_ready svc1"
    "sv_sessionID svc1 = sv_sessionID svc + of_nat (length qs)" "sv_ServiceID svc1 = sv_ServiceID svc"
    "sv_serverAddr svc1 = sv_serverAddr svc"
    "sv_log svc1 = sv_log svc @ map (\<lambda>m. Datagram (sv_serverAddr svc) (wire m)) (requests svc qs)" by blast
  obtain svc2 where svc2: "start_udp svc1 q = Some svc2" "udp_ready svc2" using udp_calls.start_call [OF svc1(2)] by blast
  then have eq: "svc2 = send_udp (called svc1) (wire (request svc1 (fst q) (sv_sessionID svc1 + 1) MsgTypeRequest (snd q)))"
    using start_udp_eq [OF svc1(2)] by simp
  have "request svc1 (fst q) (sv_sessionID svc1 + 1) MsgTypeRequest (snd q)
      = request svc (fst q) (sv_sessionID svc + 1 + of_nat (length qs)) MsgTypeRequest (snd q)"
    by (simp add: request_def svc1(3,4))
  then show ?case
    using svc1 svc2 by (simp add: run_all_append udp_requests_snoc eq) (simp add: called_def send_udp_def)
qed

lemma udp_answer_simps:
  "ServiceID (server_answer s m) = us_ServiceID s" "SessionID (server_answer s m) = SessionID m"
  "ProtocolVersion (server_answer s m) = 1" "MessageType (server_answer s m) \<in> {MsgTypeResponse, MsgTypeError}"
  by (simp_all add: server_answer_def Let_def split: option.split sum.split)

text \<open>C7: concurrent calls over a network that loses, repeats and reorders datagrams. Up to 65536 calls are sent,
  each with one datagram; the server answers each of them with one. Whichever of the answers arrive, how often
  and in whatever order, the client never panics; a call whose answer has arrived at least once returns exactly
  that answer, and a call whose answer is lost has nothing to return and goes on waiting.\<close>

theorem udp_lossy_calls:
  assumes "\<not> sv_closed svc" "sv_pending svc = Map.empty" "length qs \<le> 65536"
    and "sv_ServiceID svc \<noteq> SDServiceID" "us_ServiceID s \<noteq> SDServiceID"
    and "\<forall>q \<in> set qs. length (snd q) + 8 < 2 ^ 32" "\<forall>i < length qs. length (Payload (ans i)) + 8 < 2 ^ 32"
    and ans: "\<And>i. ans i = server_answer s ((requests svc qs ! i)\<lparr>ProtocolVersion := 1\<rparr>)"
    and arrived: "set arrived \<subseteq> ans ` {..<length qs}"
  shows "\<exists>svc1 frames svc2. run_all start_udp svc qs = Some svc1
    \<and> sv_log svc1 = sv_log svc @ map (Datagram (sv_serverAddr svc)) frames \<and> length frames = length qs
    \<and> (\<forall>i < length qs. handleFrame w s (frames ! i) src = Some (write_udp s src (wire (ans i))))
    \<and> run_all dispatchFrame svc1 (map wire arrived) = Some svc2
    \<and> (\<forall>i < length qs. if ans i \<in> set arrived
         then \<exists>svc3. Call_select svc2 (sv_sessionID svc + 1 + of_nat i) (sv_next svc + i) Woken_by_response = Some (svc3, Inr (ans i))
         else Call_select svc2 (sv_sessionID svc + 1 + of_nat i) (sv_next svc + i) Woken_by_response = None)"
proof -
  let ?frames = "map wire (requests svc qs)"
  have ready: "udp_ready svc" and n: "length qs \<le> 2 ^ 16" using assms(1-3) by (simp_all add: udp_ready_def)
  obtain svc1 where svc1: "run_all start_udp svc qs = Some svc1"
    "sv_log svc1 = sv_log svc @ map (\<lambda>m. Datagram (sv_serverAddr svc) (wire m)) (requests svc qs)"
    using start_udp_log [OF ready n] by blast
  have log: "sv_log svc1 = sv_log svc @ map (Datagram (sv_serverAddr svc)) ?frames" using svc1(2) by (simp add: comp_def)
  have handle: "handleFrame w s (?frames ! i) src = Some (write_udp s src (wire (ans i)))" if i: "i < length qs" for i
  proof -
    let ?r = "requests svc qs ! i"
    have r: "?r = request svc (fst (qs ! i)) (sv_sessionID svc + 1 + of_nat i) MsgTypeRequest (snd (qs ! i))"
      using i by (rule udp_request_nth)
    have "Decode (wire ?r) = Some (Inr (?r\<lparr>ProtocolVersion := 1\<rparr>))"
      using assms(6) i by (intro Decode_wire) (simp add: fits_def r request_def)
    moreover have "\<not> is_sd (?r\<lparr>ProtocolVersion := 1\<rparr>)" "MessageType ?r \<noteq> MsgTypeRequestNoReturn"
      using assms(4) by (simp_all add: r is_sd_def request_def msg_types)
    moreover have "?frames ! i = wire ?r" using i by (simp add: requests_def)
    ultimately show ?thesis using handleFrame_request ans by simp
  qed
  have rf: "response_frame (ans i)" if "i < length qs" for i
    using assms(5,7) that udp_answer_simps [of s] by (simp add: response_frame_def ans fits_def is_sd_def)
  have "\<forall>i < length qs. SessionID (ans i) = sv_sessionID svc + 1 + of_nat i"
    by (simp add: ans udp_answer_simps udp_request_nth request_def)
  then obtain svc2 where svc2: "run_all (\<lambda>s m. dispatchFrame s (wire m)) svc1 arrived = Some svc2"
    "\<forall>i < length qs. ch_queue (sv_chans svc2 (sv_next svc + i)) = (if ans i \<in> set arrived then [ans i] else [])"
    using udp_calls.answered_from [OF ready n svc1(1) _ arrived] arrived rf by (auto simp: subset_iff image_iff)
  have "if ans i \<in> set arrived
         then \<exists>svc3. Call_select svc2 (sv_sessionID svc + 1 + of_nat i) (sv_next svc + i) Woken_by_response = Some (svc3, Inr (ans i))
         else Call_select svc2 (sv_sessionID svc + 1 + of_nat i) (sv_next svc + i) Woken_by_response = None" if "i < length qs" for i
    using svc2(2) that by (simp add: Call_select_def recv_def)
  moreover have "length ?frames = length qs" by (simp add: requests_def)
  ultimately show ?thesis using svc1(1) log handle svc2(1) unfolding run_all_map [of dispatchFrame] by blast
qed

theorem udp_lossy_calls_witness:
  "\<exists>svc2 svc3 resp. Call_select svc2 2 1 Woken_by_response = Some (svc3, Inr resp) \<and> SessionID resp = 2
     \<and> Call_select svc2 1 0 Woken_by_response = None"
proof -
  let ?s = "sample_server" and ?qs = "[(2, [7]), (1, [8, 9])] :: (u16 \<times> byte list) list"
  let ?ans = "\<lambda>i. server_answer ?s ((requests sample_service ?qs ! i)\<lparr>ProtocolVersion := 1\<rparr>)"
  have c: "\<not> sv_closed sample_service" "sv_pending sample_service = Map.empty" "length ?qs \<le> 65536"
    "sv_ServiceID sample_service \<noteq> SDServiceID" "us_ServiceID ?s \<noteq> SDServiceID"
    "\<forall>q \<in> set ?qs. length (snd q) + 8 < 2 ^ 32"
    by (simp_all add: sample_service_def sample_server_def SDServiceID_def)
  have small: "\<forall>i < length ?qs. length (Payload (?ans i)) + 8 < 2 ^ 32"
    by (auto simp: less_Suc_eq udp_request_nth) (simp_all add: request_def sample_server_def server_answer_def Let_def zero_message_def)
  have "set [?ans 1, ?ans 1] \<subseteq> ?ans ` {..<length ?qs}" by auto
  from udp_lossy_calls [OF c small refl this] obtain svc2 where
    "\<forall>i < length ?qs. if ?ans i \<in> set [?ans 1, ?ans 1]
       then \<exists>svc3. Call_select svc2 (sv_sessionID sample_service + 1 + of_nat i) (sv_next sample_service + i) Woken_by_response = Some (svc3, Inr (?ans i))
       else Call_select svc2 (sv_sessionID sample_service + 1 + of_nat i) (sv_next sample_service + i) Woken_by_response = None"
    by blast
  then have s: "if ?ans i \<in> set [?ans 1, ?ans 1]
       then \<exists>svc3. Call_select svc2 (sv_sessionID sample_service + 1 + of_nat i) (sv_next sample_service + i) Woken_by_response = Some (svc3, Inr (?ans i))
       else Call_select svc2 (sv_sessionID sample_service + 1 + of_nat i) (sv_next sample_service + i) Woken_by_response = None"
    if "i < length ?qs" for i using that by blast
  have l: "0 < length ?qs" "1 < length ?qs" by simp_all
  have ids: "SessionID (?ans i) = 1 + of_nat i" if "i < 2" for i
    using that by (simp add: udp_answer_simps udp_request_nth) (simp add: request_def sample_service_def)
  have "?ans 0 \<noteq> ?ans 1" using ids [of 0] ids [of 1] by auto
  then have "Call_select svc2 1 0 Woken_by_response = None" using s [OF l(1)] by (simp add: sample_service_def)
  moreover obtain svc3 where "Call_select svc2 2 1 Woken_by_response = Some (svc3, Inr (?ans 1))"
    using s [OF l(2)] by (auto simp: sample_service_def)
  ultimately show ?thesis using ids [of 1] by (intro exI [of _ svc2] exI [of _ svc3] exI [of _ "?ans 1"]) simp
qed

end
