(* ===== verification/TCP.thy ===== *)
theory TCP
  imports Codec Net
begin

text \<open>
  The TCP transport: \<open>src/tcp/tcp.go\<close>. A connection to read from is the sequence of chunks its \<open>Read\<close>
  calls return and the error that ends it; what is written to a connection, and the handlers started on
  their own goroutine, are appended to a log. A write of one frame is atomic, as \<open>net.Conn\<close> promises.
\<close>

definition tcp_defaultTimeout :: int where "tcp_defaultTimeout = 5 * 1000000000"
definition defaultDialTimeout :: int where "defaultDialTimeout = 10 * 1000000000"
definition maxFrameSize :: int where "maxFrameSize = push_bit 20 64"

section \<open>Framing\<close>

definition io_EOF :: goerr where "io_EOF = New ''EOF''"
definition ErrUnexpectedEOF :: goerr where "ErrUnexpectedEOF = New ''unexpected EOF''"

record reader =
  rd_chunks :: "byte list list"
  rd_end :: goerr

text \<open>\<open>io.ReadFull\<close> for \<open>n\<close> more bytes, \<open>got\<close> being read already. A chunk that is not used up stays.\<close>

fun read_full :: "nat \<Rightarrow> byte list \<Rightarrow> byte list list \<Rightarrow> goerr \<Rightarrow> (goerr + byte list) \<times> byte list list" where
  "read_full n got [] e =
     (if n = 0 then Inr got else Inl (if got \<noteq> [] \<and> e = io_EOF then ErrUnexpectedEOF else e), [])"
| "read_full n got (c # cs) e =
     (if n = 0 then (Inr got, c # cs)
      else if length c \<le> n then read_full (n - length c) (got @ c) cs e
      else (Inr (got @ take n c), drop n c # cs))"

definition ReadFull :: "reader \<Rightarrow> nat \<Rightarrow> (goerr + byte list) \<times> reader" where
  "ReadFull r n = (let (x, cs) = read_full n [] (rd_chunks r) (rd_end r) in (x, r\<lparr>rd_chunks := cs\<rparr>))"

text \<open>The bound on the frame keeps \<open>int(payloadLen)\<close> exact at either width of \<open>int\<close>.\<close>

definition readFrame :: "reader \<Rightarrow> ((goerr + message) \<times> reader) option" where
  "readFrame r =
     (case ReadFull r (nat HeaderSize) of
        (Inl err, r) \<Rightarrow> Some (Inl err, r)
      | (Inr hdr, r) \<Rightarrow> do {
          len32 \<leftarrow> Option.bind (sub hdr 4 8) be32;
          let len = uint len32;
          if len < 8 then Some (Inl ErrMalformedMessage, r)
          else do {
            let payloadLen = len - 8;
            if HeaderSize + payloadLen > maxFrameSize then Some (Inl ErrPayloadTooLarge, r)
            else do {
              frame \<leftarrow> copy_into (replicate (nat (HeaderSize + payloadLen)) 0) 0 (HeaderSize + payloadLen) hdr;
              if payloadLen > 0
              then (case ReadFull r (nat payloadLen) of
                  (Inl err, r) \<Rightarrow> Some (Inl err, r)
                | (Inr p, r) \<Rightarrow> do {
                    frame \<leftarrow> copy_into frame HeaderSize (HeaderSize + payloadLen) p;
                    x \<leftarrow> Decode frame;
                    Some (x, r)
                  })
              else do { x \<leftarrow> Decode frame; Some (x, r) }
            }
          }
        })"

text \<open>On the flat stream: what \<open>io.ReadFull\<close> returns and what it leaves do not depend on the chunks.\<close>

definition stream :: "reader \<Rightarrow> byte list" where
  "stream r = concat (rd_chunks r)"

definition full_result :: "nat \<Rightarrow> byte list \<Rightarrow> byte list \<Rightarrow> goerr \<Rightarrow> goerr + byte list" where
  "full_result n got b e = (if n \<le> length b then Inr (got @ take n b)
     else Inl (if got @ b \<noteq> [] \<and> e = io_EOF then ErrUnexpectedEOF else e))"

lemma full_result_chunk: "length c \<le> n \<Longrightarrow> full_result (n - length c) (got @ c) b e = full_result n got (c @ b) e"
  by (auto simp: full_result_def)

lemma read_full_stream:
  "fst (read_full n got cs e) = full_result n got (concat cs) e \<and> concat (snd (read_full n got cs e)) = drop n (concat cs)"
proof (induction n got cs e rule: read_full.induct)
  case (2 n got c cs e)
  show ?case
  proof (cases "n = 0 \<or> n < length c")
    case True
    then show ?thesis by (auto simp: full_result_def)
  next
    case False
    then show ?thesis using 2 full_result_chunk [of c n got "concat cs" e] by simp
  qed
qed (simp add: full_result_def)

lemma ReadFull_stream:
  "fst (ReadFull r n) = full_result n [] (stream r) (rd_end r)"
  "stream (snd (ReadFull r n)) = drop n (stream r)" "rd_end (snd (ReadFull r n)) = rd_end r"
  using read_full_stream [of n "[]" "rd_chunks r" "rd_end r"]
  by (simp_all add: ReadFull_def stream_def case_prod_beta Let_def)

definition frame_result :: "byte list \<Rightarrow> goerr \<Rightarrow> goerr + message" where
  "frame_result b e =
     (let len = unat (length_field b)
      in if length b < 16 then Inl (if b \<noteq> [] \<and> e = io_EOF then ErrUnexpectedEOF else e)
         else if len < 8 then Inl ErrMalformedMessage
         else if 8 + int len > maxFrameSize then Inl ErrPayloadTooLarge
         else if length b < 8 + len then Inl (if 16 < length b \<and> e = io_EOF then ErrUnexpectedEOF else e)
         else the (Decode (take (8 + len) b)))"

definition frame_taken :: "byte list \<Rightarrow> nat" where
  "frame_taken b =
     (let len = unat (length_field b)
      in if length b < 16 \<or> len < 8 \<or> 8 + int len > maxFrameSize then 16 else 8 + len)"

lemma length_field_take: "16 \<le> n \<Longrightarrow> length_field (take n b) = length_field b"
  by (simp add: length_field_def)

lemma Decode_Some: "\<exists>x. Decode b = Some x"
  by (simp add: Decode_eq)

lemma copy_header:
  assumes "length h = 16" "length p = k"
  shows "copy_into (replicate (16 + k) 0) 0 (16 + int k) h = Some (h @ replicate k 0)"
    "copy_into (h @ replicate k 0) 16 (16 + int k) p = Some (h @ p)"
  using assms by (simp_all add: copy_into_def)

text \<open>\<open>readFrame\<close> once its header \<open>h\<close> is read: \<open>L\<close> is the Length field, \<open>r1\<close> the rest of the connection.\<close>

definition read_payload :: "byte list \<Rightarrow> reader \<Rightarrow> nat \<Rightarrow> ((goerr + message) \<times> reader) option" where
  "read_payload h r1 k =
     (if 0 < k
      then (case ReadFull r1 k of
          (Inl err, r) \<Rightarrow> Some (Inl err, r)
        | (Inr p, r) \<Rightarrow> do {
            frame \<leftarrow> copy_into (h @ replicate k 0) 16 (16 + int k) p;
            x \<leftarrow> Decode frame;
            Some (x, r)
          })
      else do { x \<leftarrow> Decode (h @ replicate k 0); Some (x, r1) })"

lemma readFrame_header:
  assumes "ReadFull r 16 = (Inr h, r1)" "length h = 16" "uint (length_field h) = int L"
  shows "readFrame r = (if L < 8 then Some (Inl ErrMalformedMessage, r1)
    else if 8 + int L > maxFrameSize then Some (Inl ErrPayloadTooLarge, r1) else read_payload h r1 (L - 8))"
proof -
  have f: "Option.bind (sub h 4 8) be32 = Some (length_field h)"
    using assms(2) by (simp add: sub_Some be32_Some length_field_def)
  show ?thesis
  proof (cases "L < 8")
    case True
    then show ?thesis using assms f by (simp add: readFrame_def HeaderSize_def Let_def)
  next
    case False
    then obtain k where k: "L = k + 8" by (metis le_add_diff_inverse2 not_less)
    have n: "nat (16 + int k) = 16 + k" by simp
    show ?thesis
      using assms(1,3) f copy_header(1) [OF assms(2), of "replicate k 0" k] n
      by (simp add: readFrame_def HeaderSize_def k Let_def read_payload_def)
        (simp add: HeaderSize_def split: prod.split sum.split)
  qed
qed

lemma read_payload_eq:
  assumes "length h = 16"
  shows "\<exists>r'. read_payload h r1 k = Some (if length (stream r1) < k
      then Inl (if stream r1 \<noteq> [] \<and> rd_end r1 = io_EOF then ErrUnexpectedEOF else rd_end r1)
      else the (Decode (h @ take k (stream r1))), r') \<and> stream r' = drop k (stream r1) \<and> rd_end r' = rd_end r1"
proof -
  obtain y where y: "Decode (h @ take k (stream r1)) = Some y" using Decode_Some by blast
  obtain z r2 where r2: "ReadFull r1 k = (z, r2)" by fastforce
  then have z: "z = full_result k [] (stream r1) (rd_end r1)" "stream r2 = drop k (stream r1)" "rd_end r2 = rd_end r1"
    using ReadFull_stream [of r1 k] by simp_all
  show ?thesis
  proof (cases "k = 0 \<or> length (stream r1) < k")
    case True
    then show ?thesis using r2 z y by (auto simp: read_payload_def full_result_def)
  next
    case False
    then show ?thesis
      using r2 z y copy_header(2) [OF assms, of "take k (stream r1)" k]
      by (simp add: read_payload_def full_result_def)
  qed
qed

lemma readFrame_eq:
  "\<exists>r'. readFrame r = Some (frame_result (stream r) (rd_end r), r') \<and>
     stream r' = drop (frame_taken (stream r)) (stream r) \<and> rd_end r' = rd_end r"
proof -
  let ?b = "stream r" and ?e = "rd_end r"
  obtain x r1 where r1: "ReadFull r 16 = (x, r1)" by fastforce
  then have x: "x = full_result 16 [] ?b ?e" "stream r1 = drop 16 ?b" "rd_end r1 = ?e"
    using ReadFull_stream [of r 16] by simp_all
  show ?thesis
  proof (cases "length ?b < 16")
    case True
    then show ?thesis
      using r1 x by (auto simp: readFrame_def HeaderSize_def full_result_def frame_result_def frame_taken_def Let_def)
  next
    case ge: False
    let ?h = "take 16 ?b"
    have h: "ReadFull r 16 = (Inr ?h, r1)" "length ?h = 16" using r1 x(1) ge by (simp_all add: full_result_def)
    define L where "L = unat (length_field ?b)"
    have "uint (length_field ?h) = int L" by (simp add: L_def length_field_take)
    note start = readFrame_header [OF h this]
    have join: "?h @ take k (drop 16 ?b) = take (16 + k) ?b" for k by (simp add: take_add)
    show ?thesis
    proof (cases "L < 8 \<or> 8 + int L > maxFrameSize")
      case True
      then show ?thesis
        using ge x start by (auto simp: frame_result_def frame_taken_def Let_def L_def [symmetric])
    next
      case False
      then obtain k where k: "L = k + 8" by (metis le_add_diff_inverse2 not_less)
      have "frame_taken ?b = 16 + k" "frame_result ?b ?e = (if length ?b - 16 < k
          then Inl (if 16 < length ?b \<and> ?e = io_EOF then ErrUnexpectedEOF else ?e) else the (Decode (take (16 + k) ?b)))"
        using ge False k by (auto simp: frame_taken_def frame_result_def Let_def L_def [symmetric] add.commute)
      moreover obtain r' where "read_payload ?h r1 k = Some (if length ?b - 16 < k
          then Inl (if drop 16 ?b \<noteq> [] \<and> ?e = io_EOF then ErrUnexpectedEOF else ?e)
          else the (Decode (take (16 + k) ?b)), r')" "stream r' = drop (16 + k) ?b" "rd_end r' = ?e"
        using read_payload_eq [OF h(2), of r1 k] join [of k] unfolding x by (auto simp: add.commute)
      moreover have "readFrame r = read_payload ?h r1 k" using start False k by simp
      moreover have "drop 16 ?b \<noteq> [] \<longleftrightarrow> 16 < length ?b" using ge by auto
      ultimately show ?thesis by (intro exI [of _ r']) simp
    qed
  qed
qed

lemma length_field_gt: "\<not> length b < 16 \<Longrightarrow> Decode (take n b) = Some (Inr m) \<Longrightarrow> 16 \<le> n"
  by (auto simp: Decode_eq split: if_splits)

lemma frame_result_Inr:
  assumes "frame_result b e = Inr m"
  shows "take (frame_taken b) b = wire m" "fits m" "ProtocolVersion m = 1" "frame_taken b = length (wire m)"
    "frame_taken b \<le> length b" "int (length (wire m)) \<le> maxFrameSize"
proof -
  let ?n = "8 + unat (length_field b)"
  have c: "\<not> length b < 16" "\<not> unat (length_field b) < 8" "\<not> 8 + int (unat (length_field b)) > maxFrameSize" "\<not> length b < ?n"
    using assms by (auto simp: frame_result_def Let_def simp del: uint_nat split: if_splits)
  then have "the (Decode (take ?n b)) = Inr m" using assms by (simp add: frame_result_def Let_def)
  then have d: "Decode (take ?n b) = Some (Inr m)" using Decode_Some [of "take ?n b"] by auto
  have t: "frame_taken b = ?n" using c by (simp add: frame_taken_def Let_def)
  from wire_Decode [OF d] have w: "wire m = take ?n b" "fits m" "ProtocolVersion m = 1" by auto
  have l: "length (wire m) = ?n" using w(1) c(4) by simp
  show "take (frame_taken b) b = wire m" "fits m" "ProtocolVersion m = 1" "frame_taken b = length (wire m)"
    "frame_taken b \<le> length b" using w t l c(4) by simp_all
  show "int (length (wire m)) \<le> maxFrameSize" using c(3) unfolding l by simp
qed

section \<open>The server\<close>

datatype tcp_event = Wrote nat "byte list" | Started u16 message

record Server =
  ts_ServiceID :: u16
  ts_InstanceID :: u16
  ts_InterfaceVersion :: u8
  ts_handlers :: "u16 \<rightharpoonup> handler"
  ts_closed :: bool
  ts_log :: "tcp_event list"

definition NewServer :: "(string \<Rightarrow> goerr option) \<Rightarrow> string \<Rightarrow> u16 \<Rightarrow> u16 \<Rightarrow> u8 \<Rightarrow> goerr + Server" where
  "NewServer listen addr sid iid ver =
     (case listen addr of Some e \<Rightarrow> Inl (Errorf ''tcp: listen'' e)
      | None \<Rightarrow> Inr \<lparr>ts_ServiceID = sid, ts_InstanceID = iid, ts_InterfaceVersion = ver,
          ts_handlers = Map.empty, ts_closed = False, ts_log = []\<rparr>)"

definition RegisterMethod :: "Server \<Rightarrow> u16 \<Rightarrow> handler \<Rightarrow> Server \<times> goerr option" where
  "RegisterMethod s methodID h =
     (if ts_closed s then (s, Some ErrClosed)
      else (s\<lparr>ts_handlers := (ts_handlers s)(methodID \<mapsto> h)\<rparr>, None))"

definition Emit :: "Server \<Rightarrow> u16 \<Rightarrow> byte list \<Rightarrow> Server \<times> goerr option" where
  "Emit s eventID payload = (s, if ts_closed s then Some ErrClosed else None)"

definition Server_Close :: "(Server \<Rightarrow> goerr option) \<Rightarrow> Server \<Rightarrow> Server \<times> goerr option" where
  "Server_Close ln_close s =
     (if ts_closed s then (s, None) else (s\<lparr>ts_closed := True\<rparr>, ln_close s))"

definition write_conn :: "Server \<Rightarrow> nat \<Rightarrow> byte list \<Rightarrow> Server" where
  "write_conn s conn frame = s\<lparr>ts_log := ts_log s @ [Wrote conn frame]\<rparr>"

definition handleMessage :: "Server \<Rightarrow> nat \<Rightarrow> message \<Rightarrow> Server option" where
  "handleMessage s conn msg =
     (if MessageType msg = MsgTypeRequestNoReturn then
        (if InterfaceVersion msg \<noteq> ts_InterfaceVersion s then Some s
         else (case ts_handlers s (MethodID msg) of
             Some h \<Rightarrow> Some (s\<lparr>ts_log := ts_log s @ [Started (MethodID msg) msg]\<rparr>)
           | None \<Rightarrow> Some s))
      else
        let resp = zero_message\<lparr>ServiceID := ts_ServiceID s, MethodID := MethodID msg, ClientID := ClientID msg,
                     SessionID := SessionID msg, ProtocolVersion := 0x01, InterfaceVersion := ts_InterfaceVersion s\<rparr>
        in if InterfaceVersion msg \<noteq> ts_InterfaceVersion s then do {
             frame \<leftarrow> encode_frame (resp\<lparr>MessageType := MsgTypeError, ReturnCode := RetWrongInterfaceVersion\<rparr>);
             Some (write_conn s conn frame)
           }
           else (case ts_handlers s (MethodID msg) of
               None \<Rightarrow> do {
                 frame \<leftarrow> encode_frame (resp\<lparr>MessageType := MsgTypeError, ReturnCode := RetUnknownMethod\<rparr>);
                 Some (write_conn s conn frame)
               }
             | Some h \<Rightarrow> do {
                 let resp = (case h msg of
                     Inl _ \<Rightarrow> resp\<lparr>MessageType := MsgTypeError, ReturnCode := RetNotOK\<rparr>
                   | Inr p \<Rightarrow> resp\<lparr>MessageType := MsgTypeResponse, ReturnCode := RetOK, Payload := p\<rparr>);
                 frame \<leftarrow> encode_frame resp;
                 Some (write_conn s conn frame)
               }))"

text \<open>\<open>serveConn\<close> reads frames until it fails and hands each message to a goroutine of its own: the messages
  in the order they were read, and the error that ends the loop. Every frame takes bytes off the stream,
  so the loop ends when the connection does.\<close>

function serveConn :: "reader \<Rightarrow> (message list \<times> goerr) option" where
  "serveConn r =
     (case readFrame r of
        None \<Rightarrow> None
      | Some (Inl err, _) \<Rightarrow> Some ([], err)
      | Some (Inr msg, r') \<Rightarrow> map_option (\<lambda>(ms, err). (msg # ms, err)) (serveConn r'))"
  by pat_completeness auto

lemma readFrame_shorter:
  assumes "readFrame r = Some (Inr m, r')"
  shows "length (stream r') < length (stream r)"
proof -
  have f: "frame_result (stream r) (rd_end r) = Inr m" "stream r' = drop (frame_taken (stream r)) (stream r)"
    using readFrame_eq [of r] assms by auto
  show ?thesis using frame_result_Inr(4,5) [OF f(1)] f(2) by simp
qed

termination serveConn
  by (relation "measure (length \<circ> stream)") (auto dest: readFrame_shorter)

declare serveConn.simps [simp del]

text \<open>\<open>acceptLoop\<close>: the connections it starts \<open>serveConn\<close> for.\<close>

definition acceptLoop :: "'conn read list \<Rightarrow> 'conn list \<times> bool" where
  "acceptLoop rs = serve_loop (\<lambda>conn. conn) rs"

section \<open>The service\<close>

text \<open>\<open>tv_connected\<close> says that \<open>conn\<close> is not nil, \<open>tv_out\<close> is what was written to it, frame by frame.\<close>

record Service =
  tv_ServiceID :: u16
  tv_InstanceID :: u16
  tv_timeout :: int
  tv_connected :: bool
  tv_sessionID :: u16
  tv_pending :: "u16 \<rightharpoonup> nat"
  tv_closed :: bool
  tv_chans :: "nat \<Rightarrow> message chan"
  tv_next :: nat
  tv_out :: "byte list list"

definition NewService :: "(int \<Rightarrow> string \<Rightarrow> goerr option) \<Rightarrow> string \<Rightarrow> u16 \<Rightarrow> u16 \<Rightarrow> int \<Rightarrow> int \<Rightarrow> goerr + Service" where
  "NewService dial addr sid iid timeout dialTimeout =
     (let timeout = (if timeout = 0 then tcp_defaultTimeout else timeout);
          dialTimeout = (if dialTimeout = 0 then defaultDialTimeout else dialTimeout)
      in case dial dialTimeout addr of Some e \<Rightarrow> Inl (Errorf ''tcp: dial'' e)
         | None \<Rightarrow> Inr \<lparr>tv_ServiceID = sid, tv_InstanceID = iid, tv_timeout = timeout, tv_connected = True,
             tv_sessionID = 0, tv_pending = Map.empty, tv_closed = False,
             tv_chans = (\<lambda>_. \<lparr>ch_queue = [], ch_cap = 0, ch_closed = False\<rparr>), tv_next = 0, tv_out = []\<rparr>)"

definition nextSession :: "Service \<Rightarrow> Service \<times> u16" where
  "nextSession svc = (let id = tv_sessionID svc + 1 in (svc\<lparr>tv_sessionID := id\<rparr>, id))"

definition new_chan :: "Service \<Rightarrow> int \<Rightarrow> (Service \<times> nat) option" where
  "new_chan svc n = do {
     c \<leftarrow> make_chan n;
     Some (svc\<lparr>tv_chans := (tv_chans svc)(tv_next svc := c), tv_next := tv_next svc + 1\<rparr>, tv_next svc)
   }"

definition Call_end :: "Service \<Rightarrow> u16 \<Rightarrow> Service" where
  "Call_end svc sessionID = svc\<lparr>tv_pending := (tv_pending svc)(sessionID := None)\<rparr>"

text \<open>\<open>Call\<close> up to its \<open>select\<close>, with the result of the write as an argument, and the \<open>select\<close>.\<close>

definition Call_begin :: "Service \<Rightarrow> u16 \<Rightarrow> byte list \<Rightarrow> (byte list \<Rightarrow> goerr option) \<Rightarrow>
    (Service \<times> (goerr + u16 \<times> nat)) option" where
  "Call_begin svc methodID payload write =
     (if tv_closed svc then Some (svc, Inl ErrClosed)
      else do {
        let (svc, sessionID) = nextSession svc;
        (svc, ch) \<leftarrow> new_chan svc 1;
        let svc = svc\<lparr>tv_pending := (tv_pending svc)(sessionID \<mapsto> ch)\<rparr>;
        if \<not> tv_connected svc then Some (Call_end svc sessionID, Inl ErrNotConnected)
        else do {
          frame \<leftarrow> encode_frame (zero_message\<lparr>ServiceID := tv_ServiceID svc, MethodID := methodID, SessionID := sessionID,
            ClientID := 0x0001, MessageType := MsgTypeRequest, ReturnCode := RetOK, Payload := payload\<rparr>);
          case write frame of
            Some e \<Rightarrow> Some (Call_end svc sessionID, Inl (Errorf ''tcp: send'' e))
          | None \<Rightarrow> Some (svc\<lparr>tv_out := tv_out svc @ [frame]\<rparr>, Inr (sessionID, ch))
        }
      })"

definition Call_select :: "Service \<Rightarrow> u16 \<Rightarrow> nat \<Rightarrow> wake \<Rightarrow> (Service \<times> (goerr + message)) option" where
  "Call_select svc sessionID ch w =
     (case w of
        Woken_by_response \<Rightarrow> (case recv (tv_chans svc ch) of
            Some (resp, c) \<Rightarrow> Some (Call_end (svc\<lparr>tv_chans := (tv_chans svc)(ch := c)\<rparr>) sessionID, Inr resp)
          | None \<Rightarrow> None)
      | Woken_by_deadline \<Rightarrow> Some (Call_end svc sessionID, Inl ErrTimeout)
      | Woken_by_context e \<Rightarrow> Some (Call_end svc sessionID, Inl e))"

definition CallNoReturn :: "Service \<Rightarrow> u16 \<Rightarrow> byte list \<Rightarrow> (byte list \<Rightarrow> goerr option) \<Rightarrow> (Service \<times> goerr option) option" where
  "CallNoReturn svc methodID payload write =
     (if tv_closed svc then Some (svc, Some ErrClosed)
      else if \<not> tv_connected svc then Some (svc, Some ErrNotConnected)
      else do {
        let (svc, sessionID) = nextSession svc;
        frame \<leftarrow> encode_frame (zero_message\<lparr>ServiceID := tv_ServiceID svc, MethodID := methodID, SessionID := sessionID,
          ClientID := 0x0001, MessageType := MsgTypeRequestNoReturn, ReturnCode := RetOK, Payload := payload\<rparr>);
        Some (case write frame of None \<Rightarrow> (svc\<lparr>tv_out := tv_out svc @ [frame]\<rparr>, None) | Some e \<Rightarrow> (svc, Some e))
      })"

definition Subscribe :: "Service \<Rightarrow> u16 \<Rightarrow> goerr + nat" where
  "Subscribe svc eventID = Inl ErrNotConnected"

definition Service_Close :: "(Service \<Rightarrow> goerr option) \<Rightarrow> Service \<Rightarrow> Service \<times> goerr option" where
  "Service_Close conn_close svc =
     (if tv_closed svc then (svc, None)
      else let svc = svc\<lparr>tv_closed := True\<rparr> in (svc, if tv_connected svc then conn_close svc else None))"

text \<open>The body of \<open>readLoop\<close> for one message, and the loop over a connection.\<close>

definition deliver :: "Service \<Rightarrow> message \<Rightarrow> Service option" where
  "deliver svc msg =
     (case tv_pending svc (SessionID msg) of
        Some ch \<Rightarrow> do {
          c \<leftarrow> try_send (tv_chans svc ch) msg;
          Some (svc\<lparr>tv_chans := (tv_chans svc)(ch := c)\<rparr>)
        }
      | None \<Rightarrow> Some svc)"

function readLoop :: "Service \<Rightarrow> reader \<Rightarrow> Service option" where
  "readLoop svc r =
     (if \<not> tv_connected svc then Some svc
      else case readFrame r of
        None \<Rightarrow> None
      | Some (Inl err, _) \<Rightarrow> Some svc
      | Some (Inr msg, r') \<Rightarrow> do { svc \<leftarrow> deliver svc msg; readLoop svc r' })"
  by pat_completeness auto

termination readLoop
  by (relation "measure (length \<circ> stream \<circ> snd)") (auto dest: readFrame_shorter)

declare readLoop.simps [simp del]

section \<open>The operations as equations\<close>

definition request :: "Service \<Rightarrow> u16 \<Rightarrow> u16 \<Rightarrow> u8 \<Rightarrow> byte list \<Rightarrow> message" where
  "request svc methodID sessionID t payload = zero_message\<lparr>ServiceID := tv_ServiceID svc, MethodID := methodID,
     SessionID := sessionID, ClientID := 1, MessageType := t, ReturnCode := RetOK, Payload := payload\<rparr>"

definition called :: "Service \<Rightarrow> Service" where
  "called svc = svc\<lparr>tv_sessionID := tv_sessionID svc + 1,
     tv_chans := (tv_chans svc)(tv_next svc := \<lparr>ch_queue = [], ch_cap = 1, ch_closed = False\<rparr>),
     tv_next := tv_next svc + 1, tv_pending := (tv_pending svc)(tv_sessionID svc + 1 \<mapsto> tv_next svc)\<rparr>"

lemma tcp_Call_begin_eq:
  "Call_begin svc m p write = Some
     (if tv_closed svc then (svc, Inl ErrClosed)
      else if \<not> tv_connected svc then (Call_end (called svc) (tv_sessionID svc + 1), Inl ErrNotConnected)
      else let frame = wire (request svc m (tv_sessionID svc + 1) MsgTypeRequest p)
           in case write frame of
                Some e \<Rightarrow> (Call_end (called svc) (tv_sessionID svc + 1), Inl (Errorf ''tcp: send'' e))
              | None \<Rightarrow> ((called svc)\<lparr>tv_out := tv_out svc @ [frame]\<rparr>, Inr (tv_sessionID svc + 1, tv_next svc)))"
  by (simp add: Call_begin_def nextSession_def new_chan_def make_chan_def called_def request_def Let_def split: option.split)

text \<open>The server's answer to a request that is not fire-and-forget, and what it does with the others.\<close>

definition server_answer :: "Server \<Rightarrow> message \<Rightarrow> message" where
  "server_answer s msg =
     (let resp = zero_message\<lparr>ServiceID := ts_ServiceID s, MethodID := MethodID msg, ClientID := ClientID msg,
                     SessionID := SessionID msg, ProtocolVersion := 1, InterfaceVersion := ts_InterfaceVersion s\<rparr>
      in if InterfaceVersion msg \<noteq> ts_InterfaceVersion s
         then resp\<lparr>MessageType := MsgTypeError, ReturnCode := RetWrongInterfaceVersion\<rparr>
         else case ts_handlers s (MethodID msg) of
             None \<Rightarrow> resp\<lparr>MessageType := MsgTypeError, ReturnCode := RetUnknownMethod\<rparr>
           | Some h \<Rightarrow> (case h msg of
               Inl _ \<Rightarrow> resp\<lparr>MessageType := MsgTypeError, ReturnCode := RetNotOK\<rparr>
             | Inr p \<Rightarrow> resp\<lparr>MessageType := MsgTypeResponse, ReturnCode := RetOK, Payload := p\<rparr>))"

lemma handleMessage_eq:
  "handleMessage s conn msg = Some
     (if MessageType msg = MsgTypeRequestNoReturn
      then if InterfaceVersion msg = ts_InterfaceVersion s \<and> ts_handlers s (MethodID msg) \<noteq> None
           then s\<lparr>ts_log := ts_log s @ [Started (MethodID msg) msg]\<rparr> else s
      else write_conn s conn (wire (server_answer s msg)))"
  by (auto simp: handleMessage_def server_answer_def Let_def split: option.split sum.split)

lemma server_answer_simps [simp]:
  "SessionID (server_answer s m) = SessionID m" "ClientID (server_answer s m) = ClientID m"
  "MethodID (server_answer s m) = MethodID m" "ServiceID (server_answer s m) = ts_ServiceID s"
  "InterfaceVersion (server_answer s m) = ts_InterfaceVersion s" "ProtocolVersion (server_answer s m) = 1"
  by (simp_all add: server_answer_def Let_def split: option.split sum.split)

lemma server_answer_log [simp]: "server_answer (write_conn s c f) m = server_answer s m"
  by (simp add: server_answer_def write_conn_def Let_def)

text \<open>Any number of requests, handled in any order: one answer each, written in that order.\<close>

lemma handle_all:
  "\<forall>m \<in> set ms. MessageType m \<noteq> MsgTypeRequestNoReturn \<Longrightarrow>
   \<exists>s'. run_all (\<lambda>s. handleMessage s conn) s ms = Some s' \<and>
     ts_log s' = ts_log s @ map (\<lambda>m. Wrote conn (wire (server_answer s m))) ms"
proof (induction ms arbitrary: s)
  case (Cons m ms)
  let ?s = "write_conn s conn (wire (server_answer s m))"
  obtain s' where "run_all (\<lambda>s. handleMessage s conn) ?s ms = Some s'"
    "ts_log s' = ts_log ?s @ map (\<lambda>m. Wrote conn (wire (server_answer ?s m))) ms"
    using Cons.IH [of ?s] Cons.prems by auto
  moreover have "handleMessage s conn m = Some ?s" using Cons.prems by (simp add: handleMessage_eq)
  moreover have "ts_log ?s = ts_log s @ [Wrote conn (wire (server_answer s m))]" by (simp add: write_conn_def)
  ultimately show ?case by simp
qed simp

section \<open>Frames on a stream\<close>

text \<open>A frame both ends can read: its size is bounded.\<close>

definition frameable :: "message \<Rightarrow> bool" where
  "frameable m \<longleftrightarrow> 16 + int (length (Payload m)) \<le> maxFrameSize"

lemma maxFrameSize_eq: "maxFrameSize = 67108864"
  by (simp add: maxFrameSize_def)

lemma frameable_fits: "frameable m \<Longrightarrow> fits m"
  by (simp add: frameable_def fits_def maxFrameSize_eq)

lemma length_field_append: "16 \<le> length b \<Longrightarrow> length_field (b @ c) = length_field b"
  by (simp add: length_field_def nth_append)

lemma frame_result_wire:
  assumes "frameable m"
  shows "frame_result (wire m @ t) e = Inr (m\<lparr>ProtocolVersion := 1\<rparr>)" "frame_taken (wire m @ t) = length (wire m)"
proof -
  have "uint (length_field (wire m @ t)) = 8 + int (length (Payload m))"
    using uint_length_field [OF frameable_fits [OF assms]] by (simp add: length_field_append)
  then have "int (unat (length_field (wire m @ t))) = int (8 + length (Payload m))" by simp
  then have u: "unat (length_field (wire m @ t)) = 8 + length (Payload m)" unfolding of_nat_eq_iff .
  have "\<not> 8 + int (8 + length (Payload m)) > maxFrameSize" using assms by (simp add: frameable_def)
  then show "frame_result (wire m @ t) e = Inr (m\<lparr>ProtocolVersion := 1\<rparr>)" "frame_taken (wire m @ t) = length (wire m)"
    using Decode_wire [OF frameable_fits [OF assms]] by (simp_all add: frame_result_def frame_taken_def u)
qed

lemma serveConn_stream:
  "serveConn r = (case frame_result (stream r) (rd_end r) of Inl err \<Rightarrow> Some ([], err)
    | Inr m \<Rightarrow> map_option (\<lambda>(ms, err). (m # ms, err)) (serveConn (snd (the (readFrame r)))))"
proof -
  obtain r' where r': "readFrame r = Some (frame_result (stream r) (rd_end r), r')" using readFrame_eq [of r] by blast
  show ?thesis by (subst serveConn.simps) (simp add: r' split: sum.split)
qed

lemma readFrame_wire:
  assumes "frameable m" "stream r = wire m @ t"
  shows "\<exists>r'. readFrame r = Some (Inr (m\<lparr>ProtocolVersion := 1\<rparr>), r') \<and> stream r' = t \<and> rd_end r' = rd_end r"
  using readFrame_eq [of r] frame_result_wire [OF assms(1), of t] unfolding assms(2) by auto

text \<open>A frame cut short, after \<open>k\<close> bytes: a cut right after the header looks like the end of the stream.\<close>

lemma frame_result_cut:
  assumes "frameable m" "k < length (wire m)"
  shows "frame_result (take k (wire m)) e = Inl (if e = io_EOF \<and> k \<noteq> 0 \<and> k \<noteq> 16 then ErrUnexpectedEOF else e)"
proof (cases "k < 16")
  case True
  have "wire m \<noteq> []" using length_wire [of m] by force
  then show ?thesis using assms(2) True by (auto simp: frame_result_def)
next
  case False
  have "uint (length_field (take k (wire m))) = 8 + int (length (Payload m))"
    using uint_length_field [OF frameable_fits [OF assms(1)]] False by (simp add: length_field_take)
  then have "int (unat (length_field (take k (wire m)))) = int (8 + length (Payload m))" by simp
  then have u: "unat (length_field (take k (wire m))) = 8 + length (Payload m)" unfolding of_nat_eq_iff .
  have "\<not> 8 + int (8 + length (Payload m)) > maxFrameSize" using assms(1) by (simp add: frameable_def)
  moreover have "length (take k (wire m)) = k" "k < 8 + (8 + length (Payload m))" using assms(2) by simp_all
  ultimately show ?thesis using False unfolding frame_result_def u by simp
qed

lemma serveConn_frames:
  "\<forall>m \<in> set ms. frameable m \<Longrightarrow> stream r = concat (map wire ms) @ t \<Longrightarrow> frame_result t (rd_end r) = Inl err \<Longrightarrow>
   serveConn r = Some (map (\<lambda>m. m\<lparr>ProtocolVersion := 1\<rparr>) ms, err)"
proof (induction ms arbitrary: r)
  case Nil
  then show ?case by (subst serveConn_stream) simp
next
  case (Cons m ms)
  obtain r' where r': "readFrame r = Some (Inr (m\<lparr>ProtocolVersion := 1\<rparr>), r')" "stream r' = concat (map wire ms) @ t"
    "rd_end r' = rd_end r"
    using readFrame_wire [of m r] Cons.prems by auto
  then have "serveConn r' = Some (map (\<lambda>m. m\<lparr>ProtocolVersion := 1\<rparr>) ms, err)"
    using Cons.IH [of r'] Cons.prems by simp
  then show ?case using r'(1) by (subst serveConn.simps) simp
qed

lemma deliver_connected: "deliver svc m = Some svc' \<Longrightarrow> tv_connected svc' = tv_connected svc"
  by (auto simp: deliver_def split: option.splits bind_splits)

lemma readLoop_frames:
  "\<forall>m \<in> set ms. frameable m \<Longrightarrow> stream r = concat (map wire ms) @ t \<Longrightarrow> frame_result t (rd_end r) = Inl err \<Longrightarrow>
   tv_connected svc \<Longrightarrow> readLoop svc r = run_all deliver svc (map (\<lambda>m. m\<lparr>ProtocolVersion := 1\<rparr>) ms)"
proof (induction ms arbitrary: r svc)
  case Nil
  obtain r' where "readFrame r = Some (frame_result t (rd_end r), r')" using readFrame_eq [of r] Nil.prems(2) by auto
  then show ?case using Nil.prems by (subst readLoop.simps) simp
next
  case (Cons m ms)
  obtain r' where r': "readFrame r = Some (Inr (m\<lparr>ProtocolVersion := 1\<rparr>), r')" "stream r' = concat (map wire ms) @ t"
    "rd_end r' = rd_end r"
    using readFrame_wire [of m r] Cons.prems by auto
  then have "readLoop svc' r' = run_all deliver svc' (map (\<lambda>m. m\<lparr>ProtocolVersion := 1\<rparr>) ms)" if "tv_connected svc'" for svc'
    using Cons.IH [of r' svc'] Cons.prems that by simp
  then show ?case
    using r'(1) Cons.prems(4)
    by (subst readLoop.simps) (auto split: bind_split dest: deliver_connected)
qed

lemma stream_end: "frame_result [] e = Inl e"
  by (simp add: frame_result_def)

section \<open>Pending calls\<close>

definition start_tcp :: "Service \<Rightarrow> u16 \<times> byte list \<Rightarrow> Service option" where
  "start_tcp svc q = (case Call_begin svc (fst q) (snd q) (\<lambda>_. None) of Some (svc', Inr _) \<Rightarrow> Some svc' | _ \<Rightarrow> None)"

definition tcp_ready :: "Service \<Rightarrow> bool" where
  "tcp_ready svc \<longleftrightarrow> \<not> tv_closed svc \<and> tv_connected svc \<and>
     (\<forall>k c. tv_pending svc k = Some c \<longrightarrow> c < tv_next svc \<and> ch_cap (tv_chans svc c) = 1 \<and> \<not> ch_closed (tv_chans svc c))"

lemma start_tcp_eq:
  "tcp_ready svc \<Longrightarrow> start_tcp svc q = Some ((called svc)\<lparr>tv_out := tv_out svc @
     [wire (request svc (fst q) (tv_sessionID svc + 1) MsgTypeRequest (snd q))]\<rparr>)"
  by (simp add: start_tcp_def tcp_Call_begin_eq tcp_ready_def)

interpretation tcp_calls: call_table start_tcp deliver tv_sessionID tv_next tv_pending "\<lambda>s c. ch_queue (tv_chans s c)"
  SessionID "\<lambda>_. True" tcp_ready
proof unfold_locales
  fix s :: Service and q :: "u16 \<times> byte list"
  assume "tcp_ready s"
  moreover from this have "tcp_ready (called s\<lparr>tv_out := out\<rparr>)" for out
    by (fastforce simp: tcp_ready_def called_def)
  ultimately show "\<exists>s'. start_tcp s q = Some s' \<and> tcp_ready s' \<and> tv_sessionID s' = tv_sessionID s + 1 \<and> tv_next s' = Suc (tv_next s)
      \<and> tv_pending s' = (tv_pending s)(tv_sessionID s + 1 \<mapsto> tv_next s)
      \<and> (\<lambda>c. ch_queue (tv_chans s' c)) = (\<lambda>c. ch_queue (tv_chans s c))(tv_next s := [])"
    by (simp add: start_tcp_eq) (auto simp: called_def)
next
  fix s m
  assume r: "tcp_ready s"
  show "\<exists>s'. deliver s m = Some s' \<and> tcp_ready s' \<and> tv_pending s' = tv_pending s
      \<and> (\<lambda>c. ch_queue (tv_chans s' c)) = (\<lambda>c. if tv_pending s (SessionID m) = Some c \<and> ch_queue (tv_chans s c) = []
          then [m] else ch_queue (tv_chans s c))"
  proof (cases "tv_pending s (SessionID m)")
    case (Some c)
    then have c: "ch_cap (tv_chans s c) = 1" "\<not> ch_closed (tv_chans s c)" using r by (auto simp: tcp_ready_def)
    let ?s = "s\<lparr>tv_chans := (tv_chans s)(c := the (try_send (tv_chans s c) m))\<rparr>"
    have "deliver s m = Some ?s" using Some c by (simp add: deliver_def try_send_def)
    moreover have "tcp_ready ?s" using r c by (auto simp: tcp_ready_def try_send_def)
    moreover have "(\<lambda>x. ch_queue (tv_chans ?s x)) = (\<lambda>x. if tv_pending s (SessionID m) = Some x \<and> ch_queue (tv_chans s x) = []
          then [m] else ch_queue (tv_chans s x))"
      using Some c by (auto simp: try_send_def fun_eq_iff Suc_le_eq)
    ultimately show ?thesis by auto
  qed (use r in \<open>simp add: deliver_def\<close>)
qed (auto simp: tcp_ready_def)

section \<open>Properties\<close>

text \<open>C22: framing. However the network cuts the byte stream into chunks, \<open>serveConn\<close> hands on exactly the
  messages whose frames arrived in full, in order and with protocol version 1, and nothing of a frame that
  was cut short; a cut between two frames, or right after a header, ends the loop like the end of the stream.\<close>

theorem tcp_framing:
  assumes "\<forall>m \<in> set (p # ms). 16 + int (length (Payload m)) \<le> 67108864" and "k < length (wire p)"
    and "concat (rd_chunks r) = concat (map wire ms) @ take k (wire p)"
  shows "serveConn r = Some (map (\<lambda>m. m\<lparr>ProtocolVersion := 1\<rparr>) ms,
    if rd_end r = io_EOF \<and> k \<noteq> 0 \<and> k \<noteq> 16 then ErrUnexpectedEOF else rd_end r)"
proof -
  have f: "\<forall>m \<in> set ms. frameable m" "frameable p" using assms(1) by (simp_all add: frameable_def maxFrameSize_eq)
  show ?thesis
    using serveConn_frames [OF f(1) _ frame_result_cut [OF f(2) assms(2)]] assms(3) by (simp add: stream_def)
qed

theorem tcp_framing_witness:
  "serveConn \<lparr>rd_chunks = [take 5 (wire sample_request), [], drop 5 (wire sample_request) @ [1, 2]], rd_end = io_EOF\<rparr>
    = Some ([sample_request\<lparr>ProtocolVersion := 1\<rparr>], ErrUnexpectedEOF)"
proof -
  let ?p = "sample_request\<lparr>ServiceID := 0x0102\<rparr>"
  have t: "take 2 (wire ?p) = [1, 2]" by (simp add: wire_def sample_request_def bytes16_def)
  have s: "\<forall>m \<in> set [?p, sample_request]. 16 + int (length (Payload m)) \<le> 67108864"
    "2 < length (wire ?p)" by (simp_all add: sample_request_def)
  have "concat [take 5 (wire sample_request), [], drop 5 (wire sample_request) @ [1, 2]]
      = concat (map wire [sample_request]) @ take 2 (wire ?p)" unfolding t by simp
  with tcp_framing [OF s, of "\<lparr>rd_chunks = [take 5 (wire sample_request), [], drop 5 (wire sample_request) @ [1, 2]], rd_end = io_EOF\<rparr>"]
  show ?thesis by simp
qed

text \<open>C30: what \<open>readFrame\<close> does with any byte stream at all. It never panics and never holds more than 64 MiB:
  it returns a message only for the bytes of its frame, which it takes off the stream; a Length field below
  8 or beyond the bound is refused with the header alone taken; a stream that ends inside the frame gives
  the stream's own error or \<open>io.ErrUnexpectedEOF\<close>; the last way to fail is a wrong protocol version.\<close>

theorem readFrame_outcome:
  "\<exists>x r'. readFrame r = Some (x, r') \<and> rd_end r' = rd_end r \<and>
    (let b = concat (rd_chunks r); rest = concat (rd_chunks r'); len = unat (length_field b) in
     case x of
       Inr m \<Rightarrow> b = wire m @ rest \<and> length (wire m) \<le> 67108864 \<and> ProtocolVersion m = 1
     | Inl err \<Rightarrow>
         if length b < 16 then rest = [] \<and> err \<in> {rd_end r, ErrUnexpectedEOF}
         else if len < 8 then rest = drop 16 b \<and> err = ErrMalformedMessage
         else if 8 + len > 67108864 then rest = drop 16 b \<and> err = ErrPayloadTooLarge
         else if length b < 8 + len then rest = [] \<and> err \<in> {rd_end r, ErrUnexpectedEOF}
         else rest = drop (8 + len) b \<and> errors_is err ErrWrongProtocolVersion)"
proof -
  let ?b = "stream r"
  let ?x = "frame_result ?b (rd_end r)"
  obtain r' where r': "readFrame r = Some (?x, r')" "stream r' = drop (frame_taken ?b) ?b" "rd_end r' = rd_end r"
    using readFrame_eq by blast
  define L where "L = unat (length_field ?b)"
  have big: "8 + int L > maxFrameSize \<longleftrightarrow> 8 + L > 67108864" by (simp add: maxFrameSize_eq)
  have dec: "errors_is err ErrWrongProtocolVersion"
    if "the (Decode (take (8 + L) ?b)) = Inl err" "\<not> length ?b < 16" "\<not> L < 8" "\<not> length ?b < 8 + L" for err
  proof -
    have "uint (length_field (take (8 + L) ?b)) = int L" using that(3) by (simp add: length_field_take L_def)
    then show ?thesis using that by (auto simp: Decode_eq split: if_splits)
  qed
  show ?thesis
  proof (cases ?x)
    case (Inr m)
    have "?b = wire m @ stream r'"
      using frame_result_Inr(1) [OF Inr] r'(2) by (metis append_take_drop_id)
    moreover have "int (length (wire m)) \<le> 67108864"
      using frame_result_Inr(6) [OF Inr] unfolding maxFrameSize_eq .
    then have "length (wire m) \<le> 67108864" by simp
    ultimately show ?thesis
      using r' Inr frame_result_Inr(3) [OF Inr] by (simp add: stream_def Let_def)
  next
    case (Inl err)
    then show ?thesis
      using r' dec big unfolding stream_def [symmetric] Let_def L_def [symmetric]
      by (simp add: frame_result_def frame_taken_def Let_def L_def [symmetric]) (auto split: if_splits)
  qed
qed

text \<open>The requests a batch of calls sends.\<close>

definition requests :: "Service \<Rightarrow> (u16 \<times> byte list) list \<Rightarrow> message list" where
  "requests svc qs = map (\<lambda>(i, m, p). request svc m (tv_sessionID svc + 1 + of_nat i) MsgTypeRequest p) (enumerate 0 qs)"

lemma length_requests [simp]: "length (requests svc qs) = length qs"
  by (simp add: requests_def)

lemma requests_snoc: "requests svc (qs @ [q]) = requests svc qs
  @ [request svc (fst q) (tv_sessionID svc + 1 + of_nat (length qs)) MsgTypeRequest (snd q)]"
  by (simp add: requests_def enumerate_append_eq split: prod.split)

lemma map_SessionID_requests:
  "map SessionID (requests svc qs) = map (\<lambda>i. tv_sessionID svc + 1 + of_nat i) [0..<length qs]"
  by (induction qs rule: rev_induct) (simp_all add: requests_snoc, simp_all add: requests_def request_def)

lemma requests_fields: "m \<in> set (requests svc qs) \<Longrightarrow>
  MessageType m = MsgTypeRequest \<and> InterfaceVersion m = 0 \<and> (\<exists>q \<in> set qs. Payload m = snd q)"
  by (induction qs rule: rev_induct) (auto simp: requests_snoc, auto simp: requests_def request_def zero_message_def)

lemma start_tcp_out:
  "tcp_ready svc \<Longrightarrow> length qs \<le> 2 ^ 16 \<Longrightarrow> \<exists>svc1. run_all start_tcp svc qs = Some svc1 \<and> tcp_ready svc1 \<and>
     tv_sessionID svc1 = tv_sessionID svc + of_nat (length qs) \<and> tv_ServiceID svc1 = tv_ServiceID svc \<and>
     tv_out svc1 = tv_out svc @ map wire (requests svc qs)"
proof (induction qs rule: rev_induct)
  case Nil
  then show ?case by (simp add: requests_def)
next
  case (snoc q qs)
  from snoc.prems(2) have "length qs \<le> 2 ^ 16" by simp
  with snoc obtain svc1 where svc1: "run_all start_tcp svc qs = Some svc1" "tcp_ready svc1"
    "tv_sessionID svc1 = tv_sessionID svc + of_nat (length qs)" "tv_ServiceID svc1 = tv_ServiceID svc"
    "tv_out svc1 = tv_out svc @ map wire (requests svc qs)" by blast
  obtain svc2 where svc2: "start_tcp svc1 q = Some svc2" "tcp_ready svc2" using tcp_calls.start_call [OF svc1(2)] by blast
  then have eq: "svc2 = (called svc1)\<lparr>tv_out := tv_out svc1 @
      [wire (request svc1 (fst q) (tv_sessionID svc1 + 1) MsgTypeRequest (snd q))]\<rparr>"
    using start_tcp_eq [OF svc1(2)] by simp
  have "request svc1 (fst q) (tv_sessionID svc1 + 1) MsgTypeRequest (snd q)
      = request svc (fst q) (tv_sessionID svc + 1 + of_nat (length qs)) MsgTypeRequest (snd q)"
    by (simp add: request_def svc1(3,4))
  then show ?case
    using svc1 svc2 by (simp add: run_all_append requests_snoc eq) (simp add: called_def)
qed

lemma deliver_answers:
  assumes "tcp_ready svc" "length qs \<le> 2 ^ 16" "run_all start_tcp svc qs = Some svc1"
    and order: "mset order = mset (map (\<lambda>m. m\<lparr>ProtocolVersion := 1\<rparr>) (requests svc qs))"
  shows "\<exists>svc2. run_all deliver svc1 (map (server_answer s) order) = Some svc2 \<and>
    (\<forall>i < length qs. ch_queue (tv_chans svc2 (tv_next svc + i))
       = [server_answer s ((requests svc qs ! i)\<lparr>ProtocolVersion := 1\<rparr>)])"
proof -
  let ?ans = "\<lambda>i. server_answer s ((requests svc qs ! i)\<lparr>ProtocolVersion := 1\<rparr>)"
  have "set order = set (map (\<lambda>m. m\<lparr>ProtocolVersion := 1\<rparr>) (requests svc qs))" by (rule mset_eq_setD [OF order])
  then have all: "set (map (server_answer s) order) = ?ans ` {..<length qs}"
    by (simp add: set_conv_nth [of "requests svc qs"] lessThan_def image_image) (auto simp: image_iff)
  have "SessionID (?ans i) = tv_sessionID svc + 1 + of_nat i" if "i < length qs" for i
    using arg_cong [OF map_SessionID_requests [of svc qs], of "\<lambda>xs. xs ! i"] that by simp
  then show ?thesis
    using tcp_calls.answered_from [OF assms(1-3), of "map (server_answer s) order" ?ans] all by auto
qed

text \<open>C4: concurrent calls over one TCP connection. Up to 65536 calls are sent before any is answered. However
  the network cuts the request stream, the server reads exactly these requests; in whatever order its
  goroutines handle them, and however the network cuts the stream of answers, each call then returns the
  answer to its own request: the handler's output, its failure as E_NOT_OK, E_UNKNOWN_METHOD, or
  E_WRONG_INTERFACE_VERSION.\<close>

theorem tcp_pipelined_calls:
  assumes "\<not> tv_closed svc" "tv_connected svc" "tv_pending svc = Map.empty" "length qs \<le> 65536"
    and "\<forall>q \<in> set qs. 16 + int (length (snd q)) \<le> 67108864"
    and "\<forall>m. 16 + int (length (Payload (server_answer s m))) \<le> 67108864"
    and order: "\<And>ms. mset (shuffle ms) = mset ms"
    and r: "\<And>b. concat (rd_chunks (up b)) = b" "\<And>b. concat (rd_chunks (down b)) = b"
  shows "\<exists>svc1 frames msgs s1 answers svc2. run_all start_tcp svc qs = Some svc1
    \<and> tv_out svc1 = tv_out svc @ frames \<and> serveConn (up (concat frames)) = Some (msgs, rd_end (up (concat frames)))
    \<and> run_all (\<lambda>s. handleMessage s conn) s (shuffle msgs) = Some s1 \<and> ts_log s1 = ts_log s @ map (Wrote conn) answers
    \<and> readLoop svc1 (down (concat answers)) = Some svc2
    \<and> (\<forall>i < length qs. \<exists>svc3. Call_select svc2 (tv_sessionID svc + 1 + of_nat i) (tv_next svc + i) Woken_by_response
         = Some (svc3, Inr (server_answer s ((requests svc qs ! i)\<lparr>ProtocolVersion := 1\<rparr>))))"
proof -
  let ?rs = "requests svc qs" and ?v1 = "\<lambda>m :: message. m\<lparr>ProtocolVersion := 1\<rparr>"
  let ?frames = "map wire ?rs" and ?ms = "map ?v1 ?rs"
  let ?as = "map (server_answer s) (shuffle ?ms)"
  have ready: "tcp_ready svc" and n: "length qs \<le> 2 ^ 16" using assms(1-4) by (simp_all add: tcp_ready_def)
  have net: "stream (up b) = b" "stream (down b) = b" for b by (simp_all add: stream_def r)
  obtain svc1 where svc1: "run_all start_tcp svc qs = Some svc1" "tcp_ready svc1" "tv_out svc1 = tv_out svc @ ?frames"
    using start_tcp_out [OF ready n] by blast
  have "\<forall>m \<in> set ?rs. frameable m" using requests_fields assms(5) by (fastforce simp: frameable_def maxFrameSize_eq)
  then have serve: "serveConn (up (concat ?frames)) = Some (?ms, rd_end (up (concat ?frames)))"
    by (rule serveConn_frames [OF _ _ stream_end]) (simp add: net)
  have sh: "set (shuffle ?ms) = set ?ms" using order by (metis set_mset_mset)
  have "\<forall>m \<in> set (shuffle ?ms). MessageType m \<noteq> MsgTypeRequestNoReturn"
    unfolding sh using requests_fields by (auto simp: msg_types)
  then obtain s1 where s1: "run_all (\<lambda>s. handleMessage s conn) s (shuffle ?ms) = Some s1"
    "ts_log s1 = ts_log s @ map (\<lambda>m. Wrote conn (wire (server_answer s m))) (shuffle ?ms)"
    using handle_all by blast
  have log: "ts_log s1 = ts_log s @ map (Wrote conn) (map wire ?as)" using s1(2) by (simp add: comp_def)
  obtain svc2 where svc2: "run_all deliver svc1 ?as = Some svc2"
    "\<forall>i < length qs. ch_queue (tv_chans svc2 (tv_next svc + i)) = [server_answer s (?v1 (?rs ! i))]"
    using deliver_answers [OF ready n svc1(1) order, where s = s] by blast
  have id: "map ?v1 ?as = ?as" by (simp add: map_idI)
  have "\<forall>m \<in> set ?as. frameable m" using assms(6) by (auto simp: frameable_def maxFrameSize_eq)
  then have "readLoop svc1 (down (concat (map wire ?as))) = run_all deliver svc1 (map ?v1 ?as)"
    by (rule readLoop_frames [OF _ _ stream_end]) (use svc1(2) in \<open>simp_all add: net tcp_ready_def\<close>)
  then have loop: "readLoop svc1 (down (concat (map wire ?as))) = Some svc2" unfolding id using svc2(1) by simp
  have "\<forall>i < length qs. \<exists>svc3. Call_select svc2 (tv_sessionID svc + 1 + of_nat i) (tv_next svc + i) Woken_by_response
         = Some (svc3, Inr (server_answer s (?v1 (?rs ! i))))"
    using svc2(2) by (simp add: Call_select_def recv_def)
  with svc1(1,3) serve s1(1) log loop show ?thesis by blast
qed

definition tcp_sample_service :: Service where
  "tcp_sample_service = \<lparr>tv_ServiceID = 0x1234, tv_InstanceID = 1, tv_timeout = tcp_defaultTimeout, tv_connected = True,
     tv_sessionID = 5, tv_pending = Map.empty, tv_closed = False,
     tv_chans = (\<lambda>_. \<lparr>ch_queue = [], ch_cap = 0, ch_closed = False\<rparr>), tv_next = 0, tv_out = []\<rparr>"

definition tcp_sample_server :: Server where
  "tcp_sample_server = \<lparr>ts_ServiceID = 0x1234, ts_InstanceID = 1, ts_InterfaceVersion = 0,
     ts_handlers = [1 \<mapsto> \<lambda>m. Inr (take 4 (Payload m))], ts_closed = False, ts_log = []\<rparr>"

definition bytewise :: "byte list \<Rightarrow> reader" where
  "bytewise b = \<lparr>rd_chunks = map (\<lambda>x. [x]) b, rd_end = io_EOF\<rparr>"

lemma concat_bytewise: "concat (rd_chunks (bytewise b)) = b"
  by (simp add: bytewise_def)

theorem tcp_pipelined_calls_witness:
  "\<exists>svc2 svc3 resp. Call_select svc2 7 1 Woken_by_response = Some (svc3, Inr resp) \<and>
     SessionID resp = 7 \<and> MessageType resp = MsgTypeResponse \<and> Payload resp = [8, 9]"
proof -
  let ?qs = "[(2, [7]), (1, [8, 9])] :: (u16 \<times> byte list) list"
  have c: "\<not> tv_closed tcp_sample_service" "tv_connected tcp_sample_service" "tv_pending tcp_sample_service = Map.empty"
    "length ?qs \<le> 65536" "\<forall>q \<in> set ?qs. 16 + int (length (snd q)) \<le> 67108864"
    "\<forall>m. 16 + int (length (Payload (server_answer tcp_sample_server m))) \<le> 67108864"
    by (simp_all add: tcp_sample_service_def tcp_sample_server_def server_answer_def Let_def zero_message_def)
      (simp add: min_def)
  obtain svc2 where "\<forall>i < length ?qs. \<exists>svc3. Call_select svc2 (tv_sessionID tcp_sample_service + 1 + of_nat i)
      (tv_next tcp_sample_service + i) Woken_by_response = Some (svc3, Inr (server_answer tcp_sample_server
        ((requests tcp_sample_service ?qs ! i)\<lparr>ProtocolVersion := 1\<rparr>)))"
    using tcp_pipelined_calls [OF c, of rev bytewise bytewise 0] by (auto simp: concat_bytewise)
  then obtain svc3 where "Call_select svc2 7 1 Woken_by_response = Some (svc3, Inr (server_answer tcp_sample_server
        ((requests tcp_sample_service ?qs ! 1)\<lparr>ProtocolVersion := 1\<rparr>)))"
    by (auto simp: tcp_sample_service_def dest!: spec [of _ 1])
  then show ?thesis
    by (intro exI [of _ svc2] exI, intro conjI, assumption)
      (simp_all add: requests_def request_def tcp_sample_service_def tcp_sample_server_def server_answer_def zero_message_def)
qed

text \<open>A request that does not fit. \<open>Encode\<close> frames any payload, but \<open>readFrame\<close> takes 64 MiB at most: a
  \<open>Call\<close> with more than that sends its frame and then waits for its deadline, as the server stops reading
  the connection at that frame; every request sent after it on the connection is lost with it.\<close>

theorem tcp_oversize_ends_connection:
  assumes "\<not> tv_closed svc" "tv_connected svc" "67108864 - 16 < length p" "length p + 8 < 2 ^ 32"
    and "concat (rd_chunks r) = wire (request svc m (tv_sessionID svc + 1) MsgTypeRequest p) @ later"
  shows "\<exists>svc1 ch. Call_begin svc m p (\<lambda>_. None) = Some (svc1, Inr (tv_sessionID svc + 1, ch))
    \<and> tv_out svc1 = tv_out svc @ [wire (request svc m (tv_sessionID svc + 1) MsgTypeRequest p)]
    \<and> serveConn r = Some ([], ErrPayloadTooLarge) \<and> Call_select svc1 (tv_sessionID svc + 1) ch Woken_by_response = None"
proof -
  let ?m = "request svc m (tv_sessionID svc + 1) MsgTypeRequest p"
  have pl: "Payload ?m = p" by (simp add: request_def)
  have "fits ?m" using assms(4) by (simp add: fits_def pl)
  then have "uint (length_field (wire ?m @ later)) = 8 + int (length p)"
    using uint_length_field [of ?m] by (simp add: length_field_append pl)
  then have "int (unat (length_field (wire ?m @ later))) = int (8 + length p)" by simp
  then have u: "unat (length_field (wire ?m @ later)) = 8 + length p" unfolding of_nat_eq_iff .
  have "8 + int (8 + length p) > maxFrameSize" using assms(3) by (simp add: maxFrameSize_eq)
  then have "frame_result (wire ?m @ later) (rd_end r) = Inl ErrPayloadTooLarge"
    unfolding frame_result_def u by simp
  then have "serveConn r = Some ([], ErrPayloadTooLarge)"
    using assms(5) by (subst serveConn_stream) (simp add: stream_def)
  then show ?thesis
    using assms(1,2) by (simp add: tcp_Call_begin_eq Call_select_def called_def recv_def)
qed

theorem tcp_oversize_ends_connection_witness:
  "\<exists>r. serveConn r = Some ([], ErrPayloadTooLarge)"
proof -
  let ?p = "replicate 67108864 (0 :: byte)"
  let ?m = "request tcp_sample_service 1 (tv_sessionID tcp_sample_service + 1) MsgTypeRequest ?p"
  have c: "\<not> tv_closed tcp_sample_service" "tv_connected tcp_sample_service" "67108864 - 16 < length ?p"
    "length ?p + 8 < 2 ^ 32" by (simp_all add: tcp_sample_service_def)
  have "concat (rd_chunks (bytewise (wire ?m @ wire sample_request))) = wire ?m @ wire sample_request"
    by (rule concat_bytewise)
  from tcp_oversize_ends_connection [OF c this] show ?thesis by blast
qed

text \<open>Requests carry the interface version 0, whatever the service they are meant for: a server configured
  for any other version answers every \<open>Call\<close> with E_WRONG_INTERFACE_VERSION and never runs a handler, for a
  \<open>Call\<close> or a \<open>CallNoReturn\<close>.\<close>

theorem tcp_version_mismatch:
  assumes "ts_InterfaceVersion s \<noteq> 0" "\<not> tv_closed svc" "tv_connected svc" "length p + 8 < 2 ^ 32"
  shows "\<exists>svc1 sid ch f req svc2 g note. Call_begin svc m p (\<lambda>_. None) = Some (svc1, Inr (sid, ch)) \<and> tv_out svc1 = tv_out svc @ [f]
    \<and> Decode f = Some (Inr req) \<and> handleMessage s conn req = Some (write_conn s conn (wire (server_answer s req)))
    \<and> MessageType (server_answer s req) = MsgTypeError \<and> ReturnCode (server_answer s req) = RetWrongInterfaceVersion
    \<and> SessionID (server_answer s req) = sid
    \<and> CallNoReturn svc1 m p (\<lambda>_. None) = Some (svc2, None) \<and> tv_out svc2 = tv_out svc1 @ [g]
    \<and> Decode g = Some (Inr note) \<and> handleMessage s conn note = Some s"
proof -
  let ?r = "request svc m (tv_sessionID svc + 1) MsgTypeRequest p"
  let ?n = "request svc m (tv_sessionID svc + 2) MsgTypeRequestNoReturn p"
  have "fits ?r" "fits ?n" using assms(4) by (simp_all add: fits_def request_def)
  then have d: "Decode (wire ?r) = Some (Inr (?r\<lparr>ProtocolVersion := 1\<rparr>))" "Decode (wire ?n) = Some (Inr (?n\<lparr>ProtocolVersion := 1\<rparr>))"
    by (auto intro: Decode_wire)
  let ?svc1 = "(called svc)\<lparr>tv_out := tv_out svc @ [wire ?r]\<rparr>"
  have b: "Call_begin svc m p (\<lambda>_. None) = Some (?svc1, Inr (tv_sessionID svc + 1, tv_next svc))"
    using assms(2,3) by (simp add: tcp_Call_begin_eq)
  have n: "CallNoReturn ?svc1 m p (\<lambda>_. None) = Some (?svc1\<lparr>tv_sessionID := tv_sessionID svc + 2, tv_out := tv_out ?svc1 @ [wire ?n]\<rparr>, None)"
    using assms(2,3) by (simp add: CallNoReturn_def nextSession_def called_def request_def Let_def add.assoc)
  have "MessageType ?r = MsgTypeRequest" "InterfaceVersion ?r = 0" "MessageType ?n = MsgTypeRequestNoReturn" "InterfaceVersion ?n = 0"
    "SessionID ?r = tv_sessionID svc + 1"
    by (simp_all add: request_def zero_message_def)
  then show ?thesis
    using b n d assms(1)
    by (intro exI [of _ ?svc1] exI [of _ "tv_sessionID svc + 1"] exI [of _ "tv_next svc"] exI [of _ "wire ?r"]
        exI [of _ "?r\<lparr>ProtocolVersion := 1\<rparr>"] exI [of _ "?svc1\<lparr>tv_sessionID := tv_sessionID svc + 2, tv_out := tv_out ?svc1 @ [wire ?n]\<rparr>"]
        exI [of _ "wire ?n"] exI [of _ "?n\<lparr>ProtocolVersion := 1\<rparr>"])
      (simp add: handleMessage_eq msg_types, simp add: server_answer_def Let_def msg_types)
qed

theorem tcp_version_mismatch_witness:
  "\<exists>svc1 sid ch. Call_begin tcp_sample_service 1 [7] (\<lambda>_. None) = Some (svc1, Inr (sid, ch))"
proof -
  have c: "ts_InterfaceVersion (tcp_sample_server\<lparr>ts_InterfaceVersion := 2\<rparr>) \<noteq> 0" "\<not> tv_closed tcp_sample_service"
    "tv_connected tcp_sample_service" "length [7 :: byte] + 8 < 2 ^ 32"
    by (simp_all add: tcp_sample_server_def tcp_sample_service_def)
  show ?thesis using tcp_version_mismatch [OF c, of 1 0] by blast
qed

end
