(* ===== verification/Adapt.thy ===== *)
theory Adapt
  imports Mock UDP TCP
begin

text \<open>
  The RELAY adapter: \<open>src/adapt.go\<close>. RELAY is another module: its \<open>Protocol\<close> is a type parameter, its
  \<open>SOMEIP\<close> constant, the clock and what \<open>ApplySubscriberOpts\<close> makes of the options are arguments. A \<open>Service\<close>
  the adapter wraps is the function of its \<open>Call\<close>; the interface \<open>rpc_transport\<close> says what the adapter relies
  on, and the three transports of the library are shown to provide it.
\<close>

section \<open>Conversion\<close>

record 'p relay_message =
  rm_Protocol :: 'p
  rm_ID :: string
  rm_Payload :: "byte list"
  rm_Timestamp :: int
  rm_Meta :: "string \<rightharpoonup> string"

definition ToMessage :: "'p \<Rightarrow> int \<Rightarrow> message \<Rightarrow> 'p relay_message" where
  "ToMessage SOMEIP now m =
     \<lparr>rm_Protocol = SOMEIP,
      rm_ID = FormatUint (unat (ServiceID m)) @ ''/'' @ FormatUint (unat (MethodID m)),
      rm_Payload = Payload m,
      rm_Timestamp = now,
      rm_Meta =
        [''someip.client_id'' \<mapsto> FormatUint (unat (ClientID m)),
         ''someip.session_id'' \<mapsto> FormatUint (unat (SessionID m)),
         ''someip.msg_type'' \<mapsto> FormatUint (unat (MessageType m)),
         ''someip.msg_type_name'' \<mapsto> MessageType_String (MessageType m),
         ''someip.return_code'' \<mapsto> FormatUint (unat (ReturnCode m)),
         ''someip.interface_version'' \<mapsto> FormatUint (unat (InterfaceVersion m))]\<rparr>"

definition metaUint :: "(string \<rightharpoonup> string) \<Rightarrow> string \<Rightarrow> nat \<Rightarrow> nat option" where
  "metaUint meta key bits =
     (case meta key of None \<Rightarrow> None | Some s \<Rightarrow> if s = '''' then None else ParseUint s bits)"

definition FromMessage :: "'p relay_message \<Rightarrow> goerr + message" where
  "FromMessage msg =
     (case SplitN2 (rm_ID msg) (CHR ''/'') of
        [p0, p1] \<Rightarrow>
          (case ParseUint p0 16 of
             None \<Rightarrow> Inl (Errorf ''invalid service ID'' ErrMalformedMessage)
           | Some svcID \<Rightarrow>
               (case ParseUint p1 16 of
                  None \<Rightarrow> Inl (Errorf ''invalid method ID'' ErrMalformedMessage)
                | Some methodID \<Rightarrow>
                    let m = zero_message\<lparr>ServiceID := of_nat svcID, MethodID := of_nat methodID, Payload := rm_Payload msg,
                              ProtocolVersion := SOMEIPProtocolVersion\<rparr>;
                        m = (case metaUint (rm_Meta msg) ''someip.client_id'' 16 of Some v \<Rightarrow> m\<lparr>ClientID := of_nat v\<rparr> | None \<Rightarrow> m);
                        m = (case metaUint (rm_Meta msg) ''someip.session_id'' 16 of Some v \<Rightarrow> m\<lparr>SessionID := of_nat v\<rparr> | None \<Rightarrow> m);
                        m = (case metaUint (rm_Meta msg) ''someip.msg_type'' 8 of Some v \<Rightarrow> m\<lparr>MessageType := of_nat v\<rparr> | None \<Rightarrow> m);
                        m = (case metaUint (rm_Meta msg) ''someip.return_code'' 8 of Some v \<Rightarrow> m\<lparr>ReturnCode := of_nat v\<rparr> | None \<Rightarrow> m);
                        m = (case metaUint (rm_Meta msg) ''someip.interface_version'' 8 of Some v \<Rightarrow> m\<lparr>InterfaceVersion := of_nat v\<rparr> | None \<Rightarrow> m)
                    in Inr m))
      | _ \<Rightarrow> Inl (Errorf ''invalid SOMEIP ID'' ErrMalformedMessage))"

section \<open>The adapter\<close>

text \<open>\<open>call\<close> and \<open>callNoReturn\<close> are those of the wrapped service; outside, \<^term>\<open>None\<close> is a panic or no return.\<close>

definition adapter_Call :: "'p \<Rightarrow> int \<Rightarrow> ('s \<Rightarrow> u16 \<Rightarrow> byte list \<Rightarrow> ('s \<times> (goerr + message)) option) \<Rightarrow>
    's \<Rightarrow> 'p relay_message \<Rightarrow> ('s \<times> (goerr + 'p relay_message)) option" where
  "adapter_Call SOMEIP now call s req =
     (case FromMessage req of
        Inl err \<Rightarrow> Some (s, Inl err)
      | Inr m \<Rightarrow> do {
          (s, r) \<leftarrow> call s (MethodID m) (Payload m);
          (case r of Inl err \<Rightarrow> Some (s, Inl err) | Inr resp \<Rightarrow> Some (s, Inr (ToMessage SOMEIP now resp)))
        })"

definition adapter_Send :: "('s \<Rightarrow> u16 \<Rightarrow> byte list \<Rightarrow> ('s \<times> (goerr + message)) option) \<Rightarrow>
    ('s \<Rightarrow> u16 \<Rightarrow> byte list \<Rightarrow> ('s \<times> goerr option) option) \<Rightarrow> 's \<Rightarrow> 'p relay_message \<Rightarrow> ('s \<times> goerr option) option" where
  "adapter_Send call callNoReturn s msg =
     (case FromMessage msg of
        Inl err \<Rightarrow> Some (s, Some err)
      | Inr m \<Rightarrow>
          if MessageType m = MsgTypeRequestNoReturn then callNoReturn s (MethodID m) (Payload m)
          else do {
            (s, r) \<leftarrow> call s (MethodID m) (Payload m);
            Some (s, case r of Inl err \<Rightarrow> Some err | Inr _ \<Rightarrow> None)
          })"

text \<open>\<open>Subscribe\<close>: its checks and the channel of depth \<open>cfg.ChanDepth(64)\<close>; the event id of the RELAY options is
  an integer, converted to 16 bits.\<close>

datatype policy = Block | DropOldest | DropNewest

definition adapter_Subscribe :: "('s \<Rightarrow> u16 \<Rightarrow> ('s \<times> (goerr + 'sub)) option) \<Rightarrow> 's \<Rightarrow> nat \<Rightarrow> int \<Rightarrow>
    ('s \<times> (goerr + 'sub \<times> 'p relay_message chan)) option" where
  "adapter_Subscribe subscribe s eventID depth =
     (if eventID = 0 then Some (s, Inl (Errorf ''Subscribe requires relay.WithEventID for SOME/IP'' ErrNotConnected))
      else do {
        (s, r) \<leftarrow> subscribe s (of_nat eventID);
        (case r of Inl err \<Rightarrow> Some (s, Inl err)
         | Inr su \<Rightarrow> do { out \<leftarrow> make_chan depth; Some (s, Inr (su, out)) })
      })"

text \<open>The goroutine of \<open>Subscribe\<close>, for one message, when nobody reads \<open>out\<close> meanwhile. \<^term>\<open>None\<close> is a send that
  blocks, or a \<open>DropOldest\<close> loop that never ends.\<close>

partial_function (option) drop_oldest_loop :: "'a chan \<Rightarrow> 'a \<Rightarrow> 'a chan option" where
  "drop_oldest_loop out rm =
     (if int (length (ch_queue out)) < ch_cap out then Some (out\<lparr>ch_queue := ch_queue out @ [rm]\<rparr>)
      else (case recv out of Some (_, out) \<Rightarrow> drop_oldest_loop out rm | None \<Rightarrow> drop_oldest_loop out rm))"

declare drop_oldest_loop.simps [code]

definition pump_one :: "policy \<Rightarrow> 'a chan \<Rightarrow> 'a \<Rightarrow> 'a chan option" where
  "pump_one policy out rm =
     (case policy of
        Block \<Rightarrow> if int (length (ch_queue out)) < ch_cap out then Some (out\<lparr>ch_queue := ch_queue out @ [rm]\<rparr>) else None
      | DropOldest \<Rightarrow> drop_oldest_loop out rm
      | DropNewest \<Rightarrow> try_send out rm)"

text \<open>The whole goroutine: it converts what the subscription's channel delivers, each message at its own time, and closes
  \<open>out\<close> at its end.\<close>

definition pump :: "'p \<Rightarrow> policy \<Rightarrow> 'p relay_message chan \<Rightarrow> (int \<times> message) list \<Rightarrow> 'p relay_message chan option" where
  "pump SOMEIP policy out ms =
     Option.bind (run_all (\<lambda>out (now, m). pump_one policy out (ToMessage SOMEIP now m)) out ms) close_chan"

definition adapter_Close :: "('s \<Rightarrow> ('s \<times> goerr option) option) \<Rightarrow> 's \<Rightarrow> ('s \<times> goerr option) option" where
  "adapter_Close close s = close s"

section \<open>Conversion, there and back\<close>

lemma metaUint_FormatUint: "meta key = Some (FormatUint v) \<Longrightarrow> v < 2 ^ bits \<Longrightarrow> metaUint meta key bits = Some v"
  by (simp add: metaUint_def ParseUint_FormatUint)

lemma unat_u16_less: "unat (x :: u16) < 2 ^ 16"
  using unsigned_less [of x, where 'a = nat] by simp

lemma unat_u8_less: "unat (x :: u8) < 2 ^ 8"
  using unsigned_less [of x, where 'a = nat] by simp

lemma FromMessage_ToMessage: "FromMessage (ToMessage SOMEIP now m) = Inr (m\<lparr>ProtocolVersion := 1\<rparr>)"
proof -
  let ?rm = "ToMessage SOMEIP now m"
  have id: "SplitN2 (rm_ID ?rm) (CHR ''/'') = [FormatUint (unat (ServiceID m)), FormatUint (unat (MethodID m))]"
    using SplitN2_append [OF FormatUint_no_slash] by (simp add: ToMessage_def)
  have meta: "metaUint (rm_Meta ?rm) ''someip.client_id'' 16 = Some (unat (ClientID m))"
    "metaUint (rm_Meta ?rm) ''someip.session_id'' 16 = Some (unat (SessionID m))"
    "metaUint (rm_Meta ?rm) ''someip.msg_type'' 8 = Some (unat (MessageType m))"
    "metaUint (rm_Meta ?rm) ''someip.return_code'' 8 = Some (unat (ReturnCode m))"
    "metaUint (rm_Meta ?rm) ''someip.interface_version'' 8 = Some (unat (InterfaceVersion m))"
    by (rule metaUint_FormatUint; simp add: ToMessage_def unat_u16_less [simplified] unat_u8_less [simplified])+
  have "ParseUint (FormatUint (unat (x :: u16))) 16 = Some (unat x)" for x
    using unat_u16_less by (rule ParseUint_FormatUint)
  moreover have "rm_Payload ?rm = Payload m" by (simp add: ToMessage_def)
  ultimately show ?thesis
    unfolding FromMessage_def id meta by (simp add: SOMEIPProtocolVersion_def zero_message_def)
qed

text \<open>An ID the adapter accepts: two decimal numbers of 16 bits around the first slash.\<close>

definition id_parts :: "string \<Rightarrow> (nat \<times> nat) option" where
  "id_parts s = (case SplitN2 s (CHR ''/'') of [a, b] \<Rightarrow>
     (case (ParseUint a 16, ParseUint b 16) of (Some x, Some y) \<Rightarrow> Some (x, y) | _ \<Rightarrow> None) | _ \<Rightarrow> None)"

lemma FromMessage_cases:
  "case FromMessage rm of
     Inl e \<Rightarrow> id_parts (rm_ID rm) = None \<and> errors_is e ErrMalformedMessage
   | Inr m \<Rightarrow> \<exists>a b. id_parts (rm_ID rm) = Some (a, b) \<and> ServiceID m = of_nat a \<and> MethodID m = of_nat b \<and> Payload m = rm_Payload rm
       \<and> ProtocolVersion m = 1"
  by (auto simp: FromMessage_def id_parts_def Let_def SOMEIPProtocolVersion_def split: list.split option.split)

section \<open>Properties\<close>

text \<open>C38: the conversion to RELAY is lossless: \<open>FromMessage\<close> gives back every header field and the payload of the
  message \<open>ToMessage\<close> was given, but for the protocol version, which it sets to 1.\<close>

theorem adapt_roundtrip: "FromMessage (ToMessage SOMEIP now m) = Inr (m\<lparr>ProtocolVersion := 1\<rparr>)"
  by (rule FromMessage_ToMessage)

text \<open>What \<open>FromMessage\<close> accepts. It accepts an envelope exactly when the ID is two decimal numbers below
  65536 around its first slash, which become the service and method ID; otherwise it fails with
  \<open>ErrMalformedMessage\<close>. A header field whose Meta entry is missing, empty or no number of its width is zero.\<close>

theorem from_message_outcome:
  "case FromMessage rm of
     Inl e \<Rightarrow> id_parts (rm_ID rm) = None \<and> errors_is e ErrMalformedMessage
   | Inr m \<Rightarrow> (\<exists>a b. id_parts (rm_ID rm) = Some (a, b) \<and> a < 65536 \<and> b < 65536 \<and> m =
       \<lparr>ServiceID = of_nat a, MethodID = of_nat b,
        ClientID = of_nat (case metaUint (rm_Meta rm) ''someip.client_id'' 16 of None \<Rightarrow> 0 | Some v \<Rightarrow> v),
        SessionID = of_nat (case metaUint (rm_Meta rm) ''someip.session_id'' 16 of None \<Rightarrow> 0 | Some v \<Rightarrow> v),
        ProtocolVersion = 1,
        InterfaceVersion = of_nat (case metaUint (rm_Meta rm) ''someip.interface_version'' 8 of None \<Rightarrow> 0 | Some v \<Rightarrow> v),
        MessageType = of_nat (case metaUint (rm_Meta rm) ''someip.msg_type'' 8 of None \<Rightarrow> 0 | Some v \<Rightarrow> v),
        ReturnCode = of_nat (case metaUint (rm_Meta rm) ''someip.return_code'' 8 of None \<Rightarrow> 0 | Some v \<Rightarrow> v),
        Payload = rm_Payload rm\<rparr>)"
proof (cases "FromMessage rm")
  case (Inl e)
  then show ?thesis using FromMessage_cases [of rm] by simp
next
  case (Inr m)
  then obtain a b where ab: "id_parts (rm_ID rm) = Some (a, b)" using FromMessage_cases [of rm] by auto
  then obtain p0 p1 where p: "SplitN2 (rm_ID rm) (CHR ''/'') = [p0, p1]" "ParseUint p0 16 = Some a" "ParseUint p1 16 = Some b"
    by (auto simp: id_parts_def split: list.splits option.splits)
  have "a < 65536" "b < 65536" using ParseUint_bound p(2,3) by fastforce+
  then show ?thesis
    using Inr ab p by (auto simp: FromMessage_def Let_def SOMEIPProtocolVersion_def zero_message_def split: option.split)
qed

lemma drop_oldest_full: "drop_oldest_loop out rm = Some r \<Longrightarrow> 1 \<le> ch_cap out"
proof (induction rule: drop_oldest_loop.raw_induct [rotated, consumes 1])
  case (1 loop out rm r)
  then show ?case
    by (fastforce simp: recv_def split: if_splits list.splits)
qed

lemma drop_oldest_eq:
  assumes "1 \<le> ch_cap out" "int (length (ch_queue out)) \<le> ch_cap out"
  shows "drop_oldest_loop out rm = Some (out\<lparr>ch_queue :=
    (if int (length (ch_queue out)) < ch_cap out then ch_queue out else tl (ch_queue out)) @ [rm]\<rparr>)"
proof (cases "int (length (ch_queue out)) < ch_cap out")
  case True
  then show ?thesis by (subst drop_oldest_loop.simps) simp
next
  case False
  with assms obtain x xs where q: "ch_queue out = x # xs" by (cases "ch_queue out") auto
  have "drop_oldest_loop (out\<lparr>ch_queue := xs\<rparr>) rm = Some (out\<lparr>ch_queue := xs @ [rm]\<rparr>)"
    using assms(2) q by (subst drop_oldest_loop.simps) simp
  then show ?thesis using False q by (subst drop_oldest_loop.simps) (simp add: recv_def)
qed

text \<open>The policies on a channel of a given depth that holds \<open>q\<close>, as functions of the elements offered.\<close>

definition policy_result :: "policy \<Rightarrow> nat \<Rightarrow> 'a list \<Rightarrow> 'a list option" where
  "policy_result policy depth xs =
     (case policy of
        Block \<Rightarrow> if length xs \<le> depth then Some xs else None
      | DropOldest \<Rightarrow> if depth = 0 \<and> xs \<noteq> [] then None else Some (drop (length xs - depth) xs)
      | DropNewest \<Rightarrow> Some (take depth xs))"

lemma pump_one_eq:
  assumes "ch_queue out = q" "ch_cap out = int depth" "\<not> ch_closed out" "policy_result policy depth xs = Some q"
  shows "pump_one policy out rm = map_option (\<lambda>q. out\<lparr>ch_queue := q\<rparr>) (policy_result policy depth (xs @ [rm]))"
proof (cases policy)
  case Block
  then show ?thesis using assms by (auto simp: pump_one_def policy_result_def split: if_splits)
next
  case DropNewest
  then have q: "q = take depth xs" using assms(4) by (simp add: policy_result_def)
  show ?thesis
  proof (cases "length xs < depth")
    case True
    then show ?thesis using assms DropNewest q by (simp add: pump_one_def policy_result_def try_send_def)
  next
    case False
    then have "out\<lparr>ch_queue := take depth xs\<rparr> = out" using assms(1) q by simp
    then show ?thesis using False assms DropNewest q by (simp add: pump_one_def policy_result_def try_send_def)
  qed
next
  case DropOldest
  show ?thesis
  proof (cases "depth = 0")
    case True
    then have "drop_oldest_loop out rm = None" using drop_oldest_full [of out rm] assms(2) by fastforce
    then show ?thesis using True DropOldest by (simp add: pump_one_def policy_result_def)
  next
    case False
    then have q: "q = drop (length xs - depth) xs" using assms(4) DropOldest by (simp add: policy_result_def)
    have lq: "int (length (ch_queue out)) \<le> ch_cap out" "1 \<le> ch_cap out" using assms(1,2) False q by simp_all
    show ?thesis
    proof (cases "length xs < depth")
      case True
      then show ?thesis using drop_oldest_eq [OF lq(2,1)] assms(1,2) q False DropOldest
        by (simp add: pump_one_def policy_result_def)
    next
      case ge: False
      then have "tl q = drop (Suc (length xs) - depth) xs" by (simp add: q tl_drop drop_Suc Suc_diff_le)
      moreover have "Suc (length xs) - depth \<le> length xs" using False by simp
      ultimately show ?thesis using drop_oldest_eq [OF lq(2,1)] assms(1,2) q False ge DropOldest
        by (simp add: pump_one_def policy_result_def)
    qed
  qed
qed

lemma pump_all:
  "run_all (pump_one policy) \<lparr>ch_queue = [], ch_cap = int depth, ch_closed = False\<rparr> xs =
     map_option (\<lambda>q. \<lparr>ch_queue = q, ch_cap = int depth, ch_closed = False\<rparr>) (policy_result policy depth xs)"
proof (induction xs rule: rev_induct)
  case Nil
  then show ?case by (cases policy) (simp_all add: policy_result_def)
next
  case (snoc x xs)
  show ?case
  proof (cases "policy_result policy depth xs")
    case None
    then have "policy_result policy depth (xs @ [x]) = None"
      by (cases policy) (auto simp: policy_result_def split: if_splits)
    then show ?thesis using snoc None by (simp add: run_all_append)
  next
    case (Some q)
    let ?out = "\<lparr>ch_queue = q, ch_cap = int depth, ch_closed = False\<rparr>"
    have "pump_one policy ?out x = map_option (\<lambda>q. ?out\<lparr>ch_queue := q\<rparr>) (policy_result policy depth (xs @ [x]))"
      by (rule pump_one_eq [where q = q and xs = xs]) (simp_all add: Some)
    then show ?thesis using snoc Some by (cases "policy_result policy depth (xs @ [x])") (simp_all add: run_all_append)
  qed
qed

text \<open>C39: back pressure. When nobody reads the adapter's channel, its goroutine delivers the converted messages in
  order and closes the channel: under \<open>DropNewest\<close> the first ones up to the depth, under \<open>DropOldest\<close> the last
  ones, under \<open>Block\<close> all of them, if they fit. It does not come to its end under \<open>Block\<close> when they do not fit,
  nor under \<open>DropOldest\<close> when the depth is 0, where the loop drains nothing for ever.\<close>

theorem adapter_backpressure:
  "pump SOMEIP policy \<lparr>ch_queue = [], ch_cap = int depth, ch_closed = False\<rparr> ms =
    (let xs = map (\<lambda>(now, m). ToMessage SOMEIP now m) ms in
     map_option (\<lambda>q. \<lparr>ch_queue = q, ch_cap = int depth, ch_closed = True\<rparr>)
       (case policy of
          Block \<Rightarrow> if length ms \<le> depth then Some xs else None
        | DropOldest \<Rightarrow> if depth = 0 \<and> ms \<noteq> [] then None else Some (drop (length ms - depth) xs)
        | DropNewest \<Rightarrow> Some (take depth xs)))"
proof -
  have "run_all (\<lambda>out (now, m). pump_one policy out (ToMessage SOMEIP now m)) c ms
      = run_all (pump_one policy) c (map (\<lambda>(now, m). ToMessage SOMEIP now m) ms)" for c
    by (simp add: run_all_map split_def)
  then show ?thesis
    by (cases policy) (simp_all add: pump_def pump_all policy_result_def close_chan_def Let_def)
qed

section \<open>The transports behind the adapter\<close>

text \<open>A handler for \<open>m\<close> is registered and answers the payload \<open>p\<close> with \<open>out\<close>, whatever else the request says.\<close>

definition handled :: "(u16 \<rightharpoonup> handler) \<Rightarrow> u16 \<Rightarrow> byte list \<Rightarrow> byte list \<Rightarrow> bool" where
  "handled hs m p out \<longleftrightarrow> (\<exists>h. hs m = Some h \<and> (\<forall>req. MethodID req = m \<and> Payload req = p \<longrightarrow> h req = Inr out))"

definition ok_response :: "u16 \<Rightarrow> u16 \<Rightarrow> u16 \<Rightarrow> u8 \<Rightarrow> byte list \<Rightarrow> message" where
  "ok_response sid m session ver out = zero_message\<lparr>ServiceID := sid, MethodID := m, ClientID := 1, SessionID := session,
     ProtocolVersion := 1, InterfaceVersion := ver, MessageType := MsgTypeResponse, ReturnCode := RetOK, Payload := out\<rparr>"

text \<open>
  What the adapter relies on: a \<open>Call\<close> of a method that is served, \<open>serves s m p out\<close>, returns the response the transport
  makes of the handler's output, and the next call finds everything as it was.
\<close>

locale rpc_transport =
  fixes call :: "'s \<Rightarrow> u16 \<Rightarrow> byte list \<Rightarrow> ('s \<times> (goerr + message)) option"
    and inv :: "'s \<Rightarrow> bool"
    and serves :: "'s \<Rightarrow> u16 \<Rightarrow> byte list \<Rightarrow> byte list \<Rightarrow> bool"
    and response :: "'s \<Rightarrow> u16 \<Rightarrow> byte list \<Rightarrow> message"
  assumes call_serves: "inv s \<Longrightarrow> serves s m p out \<Longrightarrow>
      \<exists>s'. call s m p = Some (s', Inr (response s m out)) \<and> inv s' \<and> serves s' = serves s"
begin

text \<open>A call through the adapter, and any sequence of them.\<close>

lemma adapter_call:
  assumes "inv s" "FromMessage req = Inr m" "serves s (MethodID m) (Payload m) out"
  shows "\<exists>s'. adapter_Call SOMEIP now call s req = Some (s', Inr (ToMessage SOMEIP now (response s (MethodID m) out))) \<and> inv s' \<and> serves s' = serves s"
  using call_serves [OF assms(1,3)] assms(2) by (auto simp: adapter_Call_def)

lemma adapter_calls:
  assumes "inv s" "\<forall>req \<in> set reqs. \<exists>m out. FromMessage req = Inr m \<and> serves s (MethodID m) (Payload m) out"
  shows "\<exists>s'. run_all (\<lambda>s req. map_option fst (adapter_Call SOMEIP now call s req)) s reqs = Some s' \<and> inv s'"
  using assms
proof (induction reqs arbitrary: s)
  case (Cons req reqs)
  then obtain m out where m: "FromMessage req = Inr m" "serves s (MethodID m) (Payload m) out" by auto
  obtain s1 r where s1: "adapter_Call SOMEIP now call s req = Some (s1, r)" "inv s1" "serves s1 = serves s"
    using adapter_call [OF Cons.prems(1) m, of SOMEIP now] by blast
  then show ?case using Cons by simp
qed simp

end

subsection \<open>The in-process bus\<close>

definition mock_rpc :: "nat \<Rightarrow> Bus \<Rightarrow> u16 \<Rightarrow> byte list \<Rightarrow> (Bus \<times> (goerr + message)) option" where
  "mock_rpc svc b m p = (let (b, r, e) = Mock.Call b svc m p in Some (b, case e of None \<Rightarrow> Inr r | Some e \<Rightarrow> Inl e))"

abbreviation served_by :: "nat \<Rightarrow> Bus \<Rightarrow> server" where
  "served_by svc b \<equiv> h_servers b (mc_srv (h_services b svc))"

definition mock_open :: "nat \<Rightarrow> Bus \<Rightarrow> bool" where
  "mock_open svc b \<longleftrightarrow> \<not> mc_closed (h_services b svc) \<and> \<not> ms_closed (served_by svc b)"

definition mock_response :: "nat \<Rightarrow> Bus \<Rightarrow> u16 \<Rightarrow> byte list \<Rightarrow> message" where
  "mock_response svc b m out = ok_response (fst (ms_key (served_by svc b))) m (mc_sessionID (h_services b svc) + 1) 0 out"

interpretation mock_transport: rpc_transport "mock_rpc svc" "mock_open svc" "\<lambda>b. handled (ms_handlers (served_by svc b))" "mock_response svc" for svc
proof unfold_locales
  fix s m p out
  assume o: "mock_open svc s" and "handled (ms_handlers (served_by svc s)) m p out"
  then obtain h where h: "ms_handlers (served_by svc s) m = Some h" "\<forall>req. MethodID req = m \<and> Payload req = p \<longrightarrow> h req = Inr out"
    by (auto simp: handled_def)
  let ?s = "fst (Mock.nextSession s svc)"
  have n: "h_servers ?s = h_servers s" "mc_srv (h_services ?s svc) = mc_srv (h_services s svc)"
    "mc_closed (h_services ?s svc) = mc_closed (h_services s svc)" by (simp_all add: Mock.nextSession_def Let_def)
  have "snd (Mock.nextSession s svc) = mc_sessionID (h_services s svc) + 1" by (simp add: Mock.nextSession_def Let_def)
  then have "mock_rpc svc s m p = Some (?s, Inr (mock_response svc s m out))"
    using h o n by (simp add: mock_rpc_def Mock.Call_def server_call_def mock_open_def mock_response_def ok_response_def case_prod_beta Let_def)
      (simp add: zero_message_def)
  then show "\<exists>s'. mock_rpc svc s m p = Some (s', Inr (mock_response svc s m out)) \<and> mock_open svc s'
      \<and> handled (ms_handlers (served_by svc s')) = handled (ms_handlers (served_by svc s))"
    using o n by (simp add: mock_open_def)
qed

subsection \<open>UDP without loss\<close>

text \<open>A client and a server joined by a network that delivers every datagram at once to the read loop of the other.\<close>

fun frame_of :: "udp_event \<Rightarrow> byte list" where
  "frame_of (Datagram _ f) = f"
| "frame_of (Invoked _ _) = []"

definition udp_rpc :: "nat \<Rightarrow> udp_addr \<Rightarrow> UDP.Service \<times> UDP.Server \<Rightarrow> u16 \<Rightarrow> byte list \<Rightarrow>
    ((UDP.Service \<times> UDP.Server) \<times> (goerr + message)) option" where
  "udp_rpc w src st m p = do {
     (svc, x) \<leftarrow> UDP.Call_begin (fst st) m p (\<lambda>_. None);
     (case x of
        Inl e \<Rightarrow> Some ((svc, snd st), Inl e)
      | Inr (sid, ch) \<Rightarrow> do {
          s \<leftarrow> run_all (\<lambda>s (frame, addr). UDP.handleFrame w s frame addr) (snd st)
            (fst (Server_readLoop [Read (frame_of (last (sv_log svc)), src)]));
          (svc, _) \<leftarrow> Service_readLoop svc [Read (frame_of (last (us_log s)))];
          (svc, r) \<leftarrow> UDP.Call_select svc sid ch Woken_by_response;
          Some ((svc, s), r)
        })
   }"

definition udp_open :: "UDP.Service \<times> UDP.Server \<Rightarrow> bool" where
  "udp_open st \<longleftrightarrow> \<not> sv_closed (fst st) \<and> sv_ServiceID (fst st) \<noteq> SDServiceID \<and> us_ServiceID (snd st) \<noteq> SDServiceID"

definition udp_response :: "UDP.Service \<times> UDP.Server \<Rightarrow> u16 \<Rightarrow> byte list \<Rightarrow> message" where
  "udp_response st m out = ok_response (us_ServiceID (snd st)) m (sv_sessionID (fst st) + 1) (us_InterfaceVersion (snd st)) out"

lemma udp_rpc_answer:
  assumes "udp_open (svc, s)" "16 + int (length p) \<le> maxUDPFrameSize"
    and req: "req = (UDP.request svc m (sv_sessionID svc + 1) MsgTypeRequest p)\<lparr>ProtocolVersion := 1\<rparr>"
    and small: "16 + int (length (Payload (UDP.server_answer s req))) \<le> maxUDPFrameSize"
  shows "\<exists>svc'. udp_rpc w src (svc, s) m p = Some ((svc', write_udp s src (wire (UDP.server_answer s req))), Inr (UDP.server_answer s req))
    \<and> udp_open (svc', s)"
proof -
  let ?rq = "UDP.request svc m (sv_sessionID svc + 1) MsgTypeRequest p" and ?a = "UDP.server_answer s req"
  let ?svc1 = "send_udp (UDP.called svc) (wire ?rq)"
  let ?c = "sv_next svc"
  have b: "UDP.Call_begin svc m p (\<lambda>_. None) = Some (?svc1, Inr (sv_sessionID svc + 1, ?c))"
    using assms(1) by (simp add: UDP.Call_begin_eq udp_open_def Let_def)
  have len: "length (wire ?rq) = 16 + length p" "length (wire ?a) = 16 + length (Payload ?a)" by (simp_all add: UDP.request_def)
  have uncut: "take (nat maxUDPFrameSize) (wire ?rq) = wire ?rq" "take (nat maxUDPFrameSize) (wire ?a) = wire ?a"
    using assms(2) small by (intro take_all, simp only: len, simp add: maxUDPFrameSize_def)+
  have sl: "Server_readLoop [Read (wire ?rq, src)] = ([(wire ?rq, src)], False)" by (simp add: Server_readLoop_def uncut)
  have "Decode (wire ?rq) = Some (Inr req)"
    unfolding req using assms(2) by (intro Decode_wire) (simp add: fits_def UDP.request_def maxUDPFrameSize_def)
  moreover have "\<not> is_sd req" "MessageType req \<noteq> MsgTypeRequestNoReturn"
    using assms(1) by (simp_all add: req is_sd_def udp_open_def UDP.request_def msg_types)
  ultimately have h: "UDP.handleFrame w s (wire ?rq) src = Some (write_udp s src (wire ?a))"
    using handleFrame_request by simp
  have "response_frame ?a"
    using assms(1) small udp_answer_simps [of s req] by (simp add: response_frame_def fits_def is_sd_def udp_open_def maxUDPFrameSize_def)
  note d = dispatchFrame_response [OF this, of ?svc1]
  have "SessionID ?a = sv_sessionID svc + 1" by (simp add: udp_answer_simps req UDP.request_def)
  then have d': "UDP.dispatchFrame ?svc1 (wire ?a) = Some (?svc1\<lparr>sv_chans := (sv_chans ?svc1)(?c := \<lparr>ch_queue = [?a], ch_cap = 1, ch_closed = False\<rparr>)\<rparr>)"
    unfolding d by (simp add: UDP.called_def send_chan_def try_send_def)
  have l: "frame_of (last (sv_log ?svc1)) = wire ?rq" by (simp add: send_udp_def)
  show ?thesis
    using assms(1) by (simp add: udp_rpc_def b l sl h uncut d' UDP.Call_select_def recv_def)
      (simp add: udp_open_def UDP.Call_end_def send_udp_def UDP.called_def)
qed

interpretation udp_transport: rpc_transport "udp_rpc w src" udp_open
  "\<lambda>st m p out. handled (us_handlers (snd st)) m p out \<and> 16 + int (length p) \<le> maxUDPFrameSize \<and> 16 + int (length out) \<le> maxUDPFrameSize"
  udp_response for w src
proof unfold_locales
  fix st :: "UDP.Service \<times> UDP.Server" and m p out
  assume o: "udp_open st" and sv: "handled (us_handlers (snd st)) m p out \<and> 16 + int (length p) \<le> maxUDPFrameSize \<and> 16 + int (length out) \<le> maxUDPFrameSize"
  obtain svc s where st: "st = (svc, s)" by (cases st)
  obtain h where h: "us_handlers s m = Some h" "\<forall>req. MethodID req = m \<and> Payload req = p \<longrightarrow> h req = Inr out"
    and len: "16 + int (length p) \<le> maxUDPFrameSize" "16 + int (length out) \<le> maxUDPFrameSize" using sv by (auto simp: handled_def st)
  define req where "req = (UDP.request svc m (sv_sessionID svc + 1) MsgTypeRequest p)\<lparr>ProtocolVersion := 1\<rparr>"
  let ?a = "UDP.server_answer s req"
  have "h req = Inr out" using h(2) by (simp add: req_def UDP.request_def)
  then have a: "?a = udp_response st m out"
    using h(1) by (simp add: UDP.server_answer_def req_def UDP.request_def udp_response_def ok_response_def st Let_def zero_message_def)
  have "Payload ?a = out" by (simp add: a udp_response_def ok_response_def)
  then obtain svc' where svc': "udp_rpc w src (svc, s) m p = Some ((svc', write_udp s src (wire ?a)), Inr ?a)" "udp_open (svc', s)"
    using udp_rpc_answer [OF _ len(1) req_def, of s w src] o len(2) st by auto
  then show "\<exists>s'. udp_rpc w src st m p = Some (s', Inr (udp_response st m out)) \<and> udp_open s' \<and>
      (\<lambda>m p out. handled (us_handlers (snd s')) m p out \<and> 16 + int (length p) \<le> maxUDPFrameSize \<and> 16 + int (length out) \<le> maxUDPFrameSize) =
      (\<lambda>m p out. handled (us_handlers (snd st)) m p out \<and> 16 + int (length p) \<le> maxUDPFrameSize \<and> 16 + int (length out) \<le> maxUDPFrameSize)"
    using a by (simp add: st udp_open_def write_udp_def)
qed

subsection \<open>TCP, however the stream is cut\<close>

fun conn_frame :: "tcp_event \<Rightarrow> byte list" where
  "conn_frame (Wrote _ f) = f"
| "conn_frame (Started _ _) = []"

definition chunked :: "(byte list \<Rightarrow> byte list list) \<Rightarrow> byte list \<Rightarrow> reader" where
  "chunked chunks b = \<lparr>rd_chunks = chunks b, rd_end = io_EOF\<rparr>"

definition tcp_rpc :: "(byte list \<Rightarrow> byte list list) \<Rightarrow> nat \<Rightarrow> TCP.Service \<times> TCP.Server \<Rightarrow> u16 \<Rightarrow> byte list \<Rightarrow>
    ((TCP.Service \<times> TCP.Server) \<times> (goerr + message)) option" where
  "tcp_rpc chunks conn st m p = do {
     (svc, x) \<leftarrow> TCP.Call_begin (fst st) m p (\<lambda>_. None);
     (case x of
        Inl e \<Rightarrow> Some ((svc, snd st), Inl e)
      | Inr (sid, ch) \<Rightarrow> do {
          (msgs, err) \<leftarrow> serveConn (chunked chunks (last (tv_out svc)));
          s \<leftarrow> run_all (\<lambda>s. handleMessage s conn) (snd st) msgs;
          svc \<leftarrow> readLoop svc (chunked chunks (conn_frame (last (ts_log s))));
          (svc, r) \<leftarrow> TCP.Call_select svc sid ch Woken_by_response;
          Some ((svc, s), r)
        })
   }"

definition tcp_open :: "(byte list \<Rightarrow> byte list list) \<Rightarrow> TCP.Service \<times> TCP.Server \<Rightarrow> bool" where
  "tcp_open chunks st \<longleftrightarrow> \<not> tv_closed (fst st) \<and> tv_connected (fst st) \<and> (\<forall>b. concat (chunks b) = b)"

definition tcp_response :: "TCP.Service \<times> TCP.Server \<Rightarrow> u16 \<Rightarrow> byte list \<Rightarrow> message" where
  "tcp_response st m out = ok_response (ts_ServiceID (snd st)) m (tv_sessionID (fst st) + 1) (ts_InterfaceVersion (snd st)) out"

lemma tcp_rpc_answer:
  assumes "tcp_open chunks (svc, s)" "16 + int (length p) \<le> maxFrameSize"
    and req: "req = (TCP.request svc m (tv_sessionID svc + 1) MsgTypeRequest p)\<lparr>ProtocolVersion := 1\<rparr>"
    and small: "frameable (TCP.server_answer s req)"
  shows "\<exists>svc'. tcp_rpc chunks conn (svc, s) m p
      = Some ((svc', write_conn s conn (wire (TCP.server_answer s req))), Inr (TCP.server_answer s req))
    \<and> tcp_open chunks (svc', s)"
proof -
  let ?rq = "TCP.request svc m (tv_sessionID svc + 1) MsgTypeRequest p" and ?a = "TCP.server_answer s req"
  let ?svc1 = "(TCP.called svc)\<lparr>tv_out := tv_out svc @ [wire ?rq]\<rparr>" and ?c = "tv_next svc"
  let ?svc2 = "?svc1\<lparr>tv_chans := (tv_chans ?svc1)(?c := \<lparr>ch_queue = [?a], ch_cap = 1, ch_closed = False\<rparr>)\<rparr>"
  have b: "TCP.Call_begin svc m p (\<lambda>_. None) = Some (?svc1, Inr (tv_sessionID svc + 1, ?c))"
    using assms(1) by (simp add: tcp_Call_begin_eq tcp_open_def Let_def)
  have net: "stream (chunked chunks f) = concat (map wire [x]) @ []" "rd_end (chunked chunks f) = io_EOF" if "f = wire x" for f x
    using assms(1) that by (simp_all add: stream_def chunked_def tcp_open_def)
  have v1: "?a\<lparr>ProtocolVersion := 1\<rparr> = ?a" by simp
  have fr: "\<forall>x \<in> set [?rq]. frameable x" using assms(2) by (simp add: frameable_def TCP.request_def)
  have sc: "serveConn (chunked chunks (wire ?rq)) = Some ([req], io_EOF)"
    using serveConn_frames [OF fr net(1) [OF refl] stream_end] net(2) [OF refl] by (simp add: req)
  have "MessageType req \<noteq> MsgTypeRequestNoReturn" by (simp add: req TCP.request_def msg_types)
  then have h: "handleMessage s conn req = Some (write_conn s conn (wire ?a))" by (simp add: handleMessage_eq)
  have "SessionID ?a = tv_sessionID svc + 1" by (simp add: req TCP.request_def)
  then have d: "deliver ?svc1 ?a = Some ?svc2" by (simp add: deliver_def TCP.called_def try_send_def)
  have fa: "\<forall>x \<in> set [?a]. frameable x" "tv_connected ?svc1" using small assms(1) by (simp_all add: tcp_open_def TCP.called_def)
  have rl: "readLoop ?svc1 (chunked chunks (wire ?a)) = Some ?svc2"
    using readLoop_frames [OF fa(1) net(1) [OF refl] stream_end fa(2)] d v1 by simp
  have l: "conn_frame (last (ts_log (write_conn s conn (wire ?a)))) = wire ?a" by (simp add: write_conn_def)
  show ?thesis
    using assms(1) by (simp add: tcp_rpc_def b sc h l rl TCP.Call_select_def recv_def)
      (simp add: tcp_open_def TCP.Call_end_def TCP.called_def)
qed

text \<open>A TCP server serves the requests of its client only when its interface version is 0, which is what they carry.\<close>

definition tcp_reaches :: "TCP.Service \<times> TCP.Server \<Rightarrow> u16 \<Rightarrow> byte list \<Rightarrow> byte list \<Rightarrow> bool" where
  "tcp_reaches st m p out \<longleftrightarrow> handled (ts_handlers (snd st)) m p out \<and> ts_InterfaceVersion (snd st) = 0 \<and>
     16 + int (length p) \<le> maxFrameSize \<and> 16 + int (length out) \<le> maxFrameSize"

interpretation tcp_transport: rpc_transport "tcp_rpc chunks conn" "tcp_open chunks" tcp_reaches tcp_response for chunks conn
proof unfold_locales
  fix st :: "TCP.Service \<times> TCP.Server" and m p out
  assume o: "tcp_open chunks st" and sv: "tcp_reaches st m p out"
  obtain svc s where st: "st = (svc, s)" by (cases st)
  obtain h where h: "ts_handlers s m = Some h" "\<forall>req. MethodID req = m \<and> Payload req = p \<longrightarrow> h req = Inr out"
    and len: "16 + int (length p) \<le> maxFrameSize" "16 + int (length out) \<le> maxFrameSize" "ts_InterfaceVersion s = 0"
    using sv by (auto simp: tcp_reaches_def handled_def st)
  define req where "req = (TCP.request svc m (tv_sessionID svc + 1) MsgTypeRequest p)\<lparr>ProtocolVersion := 1\<rparr>"
  let ?a = "TCP.server_answer s req"
  have "h req = Inr out" "InterfaceVersion req = 0" using h(2) by (simp_all add: req_def TCP.request_def zero_message_def)
  then have a: "?a = tcp_response st m out"
    using h(1) len(3) by (simp add: TCP.server_answer_def tcp_response_def ok_response_def st Let_def)
      (simp add: req_def TCP.request_def zero_message_def)
  then have "frameable ?a" using len(2) by (simp add: frameable_def tcp_response_def ok_response_def)
  then obtain svc' where svc': "tcp_rpc chunks conn (svc, s) m p = Some ((svc', write_conn s conn (wire ?a)), Inr ?a)"
    "tcp_open chunks (svc', s)"
    using tcp_rpc_answer [OF _ len(1) req_def, of chunks s conn] o st by auto
  have "tcp_reaches (svc', write_conn s conn (wire ?a)) = tcp_reaches (svc, s)" by (simp add: tcp_reaches_def fun_eq_iff write_conn_def)
  then show "\<exists>s'. tcp_rpc chunks conn st m p = Some (s', Inr (tcp_response st m out)) \<and> tcp_open chunks s' \<and> tcp_reaches s' = tcp_reaches st"
    using svc' a by (simp add: st tcp_open_def write_conn_def)
qed

end
