(* ===== verification/CLI.thy ===== *)
theory CLI
  imports Adapt
begin

text \<open>
  The command line tool: \<open>src/cmd/go-someip\<close>. What it uses of Go's \<open>flag\<close>, \<open>strings\<close> and \<open>bufio.Scanner\<close> is
  modelled here; the JSON decoder, the dialler, the results of the writes and RELAY's \<open>SOMEIP\<close> constant are
  arguments. A command is the function from its arguments and its input to the exit code and what it wrote.
\<close>

section \<open>Command line flags\<close>

text \<open>\<open>FlagSet.Parse\<close> for string flags: \<open>-name value\<close>, \<open>--name value\<close> and the forms with \<open>=\<close>; it stops at the first
  argument that is no flag and after \<open>--\<close>. The result maps each flag to its value.\<close>

definition cut_equals :: "string \<Rightarrow> string \<times> string option" where
  "cut_equals name = (let pre = takeWhile (\<lambda>c. c \<noteq> CHR ''='') name
     in if pre = name then (name, None) else (pre, Some (drop (length pre + 1) name)))"

definition flag_name :: "string \<Rightarrow> string" where
  "flag_name s = (if take 2 s = ''--'' then drop 2 s else drop 1 s)"

definition ErrHelp :: goerr where
  "ErrHelp = New ''flag: help requested''"

definition flag_undefined :: "string \<Rightarrow> goerr" where
  "flag_undefined name = (if name \<in> {''help'', ''h''} then ErrHelp else New (''flag provided but not defined: -'' @ name))"

function parse_flags :: "(string \<rightharpoonup> string) \<Rightarrow> string list \<Rightarrow> goerr + (string \<rightharpoonup> string)" where
  "parse_flags fs [] = Inr fs"
| "parse_flags fs (s # args) =
     (if length s < 2 \<or> hd s \<noteq> CHR ''-'' \<or> s = ''--'' then Inr fs
      else
        let name = flag_name s
        in if name = '''' \<or> hd name = CHR ''-'' \<or> hd name = CHR ''='' then Inl (New ''bad flag syntax'')
           else case cut_equals name of
               (name, Some v) \<Rightarrow>
                 (if fs name = None then Inl (flag_undefined name)
                  else parse_flags (fs(name \<mapsto> v)) args)
             | (name, None) \<Rightarrow>
                 (if fs name = None then Inl (flag_undefined name)
                  else case args of
                      [] \<Rightarrow> Inl (New ''flag needs an argument'')
                    | v # rest \<Rightarrow> parse_flags (fs(name \<mapsto> v)) rest))"
  by pat_completeness auto
termination
  by (relation "measure (\<lambda>(fs, args). length args)") auto

declare parse_flags.simps [simp del]

section \<open>Strings\<close>

definition lower :: "char \<Rightarrow> char" where
  "lower c = (if 65 \<le> (of_char c :: nat) \<and> (of_char c :: nat) \<le> 90 then char_of ((of_char c :: nat) + 32) else c)"

text \<open>\<open>strings.EqualFold(s, t)\<close> for an ASCII \<open>t\<close>. Two other characters fold to ASCII letters: the long s
  (bytes C5 BF) and the Kelvin sign (bytes E2 84 AA).\<close>

fun fold_case :: "string \<Rightarrow> string" where
  "fold_case s =
     (case s of [] \<Rightarrow> []
      | c # cs \<Rightarrow>
          if take 2 s = [CHR 0xC5, CHR 0xBF] then CHR ''s'' # fold_case (drop 1 cs)
          else if take 3 s = [CHR 0xE2, CHR 0x84, CHR 0xAA] then CHR ''k'' # fold_case (drop 2 cs)
          else lower c # fold_case cs)"

declare fold_case.simps [simp del]

text \<open>\<open>strings.TrimSpace\<close>: the white space characters of Unicode, as bytes.\<close>

definition spaces :: "string list" where
  "spaces = [[CHR 0x09], [CHR 0x0A], [CHR 0x0B], [CHR 0x0C], [CHR 0x0D], [CHR 0x20], [CHR 0xC2, CHR 0x85], [CHR 0xC2, CHR 0xA0],
     [CHR 0xE1, CHR 0x9A, CHR 0x80]] @ map (\<lambda>n. [CHR 0xE2, CHR 0x80, char_of n]) [0x80 ..< 0x8B]
     @ [[CHR 0xE2, CHR 0x80, CHR 0xA8], [CHR 0xE2, CHR 0x80, CHR 0xA9], [CHR 0xE2, CHR 0x80, CHR 0xAF], [CHR 0xE2, CHR 0x81, CHR 0x9F],
        [CHR 0xE3, CHR 0x80, CHR 0x80]]"

definition leading_space :: "string list \<Rightarrow> string \<Rightarrow> nat" where
  "leading_space sps s = (case find (\<lambda>sp. take (length sp) s = sp) sps of None \<Rightarrow> 0 | Some sp \<Rightarrow> length sp)"

function trim_left :: "string list \<Rightarrow> string \<Rightarrow> string" where
  "trim_left sps s = (if s = [] \<or> leading_space sps s = 0 then s else trim_left sps (drop (leading_space sps s) s))"
  by pat_completeness auto
termination
  by (relation "measure (\<lambda>(sps, s). length s)") auto

declare trim_left.simps [simp del]

definition TrimSpace :: "string \<Rightarrow> string" where
  "TrimSpace s = rev (trim_left (map rev spaces) (rev (trim_left spaces s)))"

section \<open>Lines\<close>

text \<open>\<open>bufio.Scanner\<close> with a buffer of at most 1 MiB: the lines without their ends, up to the first one that does
  not fit into the buffer, and whether there is such a line.\<close>

fun split_lines :: "string \<Rightarrow> string \<Rightarrow> string list" where
  "split_lines acc [] = (if acc = [] then [] else [rev acc])"
| "split_lines acc (c # cs) = (if c = CHR 0x0A then rev acc # split_lines [] cs else split_lines (c # acc) cs)"

definition drop_cr :: "string \<Rightarrow> string" where
  "drop_cr l = (if l \<noteq> [] \<and> last l = CHR 0x0D then butlast l else l)"

definition scan :: "string \<Rightarrow> string list \<times> bool" where
  "scan input = (let ls = split_lines [] input; fit = takeWhile (\<lambda>l. length l < 1024 * 1024) ls
     in (map drop_cr fit, fit \<noteq> ls))"

section \<open>send\<close>

definition dialNetwork :: "string \<Rightarrow> string \<times> bool" where
  "dialNetwork transport =
     (if map lower transport = ''udp'' then (''udp4'', True)
      else if map lower transport = ''tcp'' then (''tcp4'', True)
      else ('''', False))"

record send_state =
  ss_sent :: nat
  ss_failed :: nat
  ss_written :: "byte list list"

text \<open>The loop body for one line. \<open>write\<close> gives the result of the next write, from what was written before.\<close>

definition send_line :: "(string \<Rightarrow> goerr + 'p relay_message) \<Rightarrow> (byte list list \<Rightarrow> byte list \<Rightarrow> goerr option) \<Rightarrow>
    send_state \<Rightarrow> string \<Rightarrow> send_state option" where
  "send_line unmarshal write st text =
     (let line = TrimSpace text
      in if line = '''' then Some st
         else case unmarshal line of
             Inl _ \<Rightarrow> Some (st\<lparr>ss_failed := ss_failed st + 1\<rparr>)
           | Inr rm \<Rightarrow> (case FromMessage rm of
               Inl _ \<Rightarrow> Some (st\<lparr>ss_failed := ss_failed st + 1\<rparr>)
             | Inr m \<Rightarrow> do {
                 frame \<leftarrow> encode_frame m;
                 Some (case write (ss_written st) frame of
                     Some _ \<Rightarrow> st\<lparr>ss_failed := ss_failed st + 1\<rparr>
                   | None \<Rightarrow> st\<lparr>ss_written := ss_written st @ [frame], ss_sent := ss_sent st + 1\<rparr>)
               }))"

text \<open>The exit code, the frames written, and the counts it prints, if it comes that far. The input is what can be
  read of it and the error that ends it, if it does not end at its end.\<close>

definition runSend :: "(string \<Rightarrow> goerr + 'p relay_message) \<Rightarrow> (string \<Rightarrow> string \<Rightarrow> goerr option) \<Rightarrow>
    (byte list list \<Rightarrow> byte list \<Rightarrow> goerr option) \<Rightarrow> string list \<Rightarrow> string \<times> goerr option \<Rightarrow>
    (nat \<times> byte list list \<times> (nat \<times> nat) option) option" where
  "runSend unmarshal dial write args stdin =
     (case parse_flags [''format'' \<mapsto> ''text'', ''transport'' \<mapsto> ''udp'', ''endpoint'' \<mapsto> ''''] args of
        Inl _ \<Rightarrow> Some (2, [], None)
      | Inr fs \<Rightarrow>
          if the (fs ''format'') \<noteq> ''json'' then Some (2, [], None)
          else if the (fs ''endpoint'') = '''' then Some (2, [], None)
          else let (network, ok) = dialNetwork (the (fs ''transport''))
            in if \<not> ok then Some (2, [], None)
               else if dial network (the (fs ''endpoint'')) \<noteq> None then Some (1, [], None)
               else let (ls, too_long) = scan (fst stdin)
                 in do {
                   st \<leftarrow> run_all (send_line unmarshal write) \<lparr>ss_sent = 0, ss_failed = 0, ss_written = []\<rparr> ls;
                   Some (if too_long \<or> snd stdin \<noteq> None then (1, ss_written st, None)
                         else (if ss_failed st > 0 then 1 else 0, ss_written st, Some (ss_sent st, ss_failed st)))
                 })"

section \<open>convert\<close>

text \<open>\<open>readAll\<close> is the result of reading the input, \<open>unmarshal\<close> decodes a message, \<open>marshal\<close> the error of encoding
  the result, \<open>zero_time\<close> is \<open>time.Time{}\<close>.\<close>

definition runConvert :: "'p \<Rightarrow> (string \<Rightarrow> goerr + message) \<Rightarrow> ('p relay_message \<Rightarrow> goerr option) \<Rightarrow> int \<Rightarrow> int \<Rightarrow>
    string list \<Rightarrow> goerr + string \<Rightarrow> nat \<times> 'p relay_message option" where
  "runConvert SOMEIP unmarshal marshal zero_time now args readAll =
     (case parse_flags [''protocol'' \<mapsto> '''', ''format'' \<mapsto> ''json''] args of
        Inl _ \<Rightarrow> (2, None)
      | Inr fs \<Rightarrow>
          if the (fs ''protocol'') = '''' then (2, None)
          else if fold_case (the (fs ''protocol'')) \<noteq> ''someip'' then (2, None)
          else if the (fs ''format'') \<noteq> ''json'' then (2, None)
          else (case readAll of
              Inl _ \<Rightarrow> (1, None)
            | Inr val \<Rightarrow> (case unmarshal val of
                Inl _ \<Rightarrow> (1, None)
              | Inr m \<Rightarrow> (case Validate m of
                  Some _ \<Rightarrow> (1, None)
                | None \<Rightarrow>
                    let out = (ToMessage SOMEIP now m)\<lparr>rm_Timestamp := zero_time\<rparr>
                    in if marshal out \<noteq> None then (1, None) else (0, Some out)))))"

section \<open>What the commands do\<close>

text \<open>The message a line of the input stands for, if it stands for one.\<close>

definition line_message :: "(string \<Rightarrow> goerr + 'p relay_message) \<Rightarrow> string \<Rightarrow> message option" where
  "line_message unmarshal text =
     (case unmarshal (TrimSpace text) of Inl _ \<Rightarrow> None | Inr rm \<Rightarrow> (case FromMessage rm of Inl _ \<Rightarrow> None | Inr m \<Rightarrow> Some m))"

lemma send_line_eq:
  "send_line unmarshal write st text = Some
     (if TrimSpace text = '''' then st
      else case line_message unmarshal text of
          None \<Rightarrow> st\<lparr>ss_failed := ss_failed st + 1\<rparr>
        | Some m \<Rightarrow> (case write (ss_written st) (wire m) of
            Some _ \<Rightarrow> st\<lparr>ss_failed := ss_failed st + 1\<rparr>
          | None \<Rightarrow> st\<lparr>ss_written := ss_written st @ [wire m], ss_sent := ss_sent st + 1\<rparr>))"
  by (simp add: send_line_def line_message_def Let_def split: sum.split option.split)

lemma send_lines_defined: "\<exists>st'. run_all (send_line unmarshal write) st ls = Some st'"
  by (induction ls arbitrary: st) (simp_all add: send_line_eq)

definition nonblank :: "string list \<Rightarrow> string list" where
  "nonblank ls = filter (\<lambda>l. TrimSpace l \<noteq> '''') ls"


lemma send_lines_all:
  assumes "\<And>ws f. write ws f = None"
  shows "run_all (send_line unmarshal write) st ls = Some (st\<lparr>
    ss_sent := ss_sent st + length (List.map_filter (line_message unmarshal) (nonblank ls)),
    ss_failed := ss_failed st + length (filter (\<lambda>l. line_message unmarshal l = None) (nonblank ls)),
    ss_written := ss_written st @ map wire (List.map_filter (line_message unmarshal) (nonblank ls))\<rparr>)"
proof (induction ls arbitrary: st)
  case (Cons l ls)
  then show ?case
    by (cases "TrimSpace l = ''''"; cases "line_message unmarshal l")
      (simp_all add: send_line_eq nonblank_def List.map_filter_simps assms)
qed (simp add: nonblank_def List.map_filter_def)

section \<open>The other commands\<close>

text \<open>The documents the commands write; \<open>Details\<close> of the status is its one entry, the specification's version.\<close>

record versionDoc =
  vd_Tool :: string
  vd_Protocol :: string
  vd_ProtocolInt :: int
  vd_Version :: string
  vd_SpecVersion :: string
  vd_Language :: string
  vd_Runtime :: string

record capabilitiesDoc =
  cd_Kind :: string
  cd_Tool :: string
  cd_Protocol :: string
  cd_ProtocolInt :: int
  cd_Version :: string
  cd_SpecVersion :: string
  cd_Commands :: "string list"
  cd_Transports :: "string list"
  cd_Features :: "string list"
  cd_Interfaces :: "string list"
  cd_OptionalInterfaces :: "string list"
  cd_Adapt :: bool

record statusDoc =
  sd_Tool :: string
  sd_Protocol :: string
  sd_Version :: string
  sd_Healthy :: bool
  sd_Connected :: bool
  sd_Endpoint :: string
  sd_Details_spec_version :: string

definition toolName :: string where
  "toolName = ''go-someip''"

definition SpecVersion :: string where
  "SpecVersion = ''2.0''"

text \<open>What a command writes to its standard output.\<close>

datatype 'p document =
    VersionDocument versionDoc
  | CapabilitiesDocument capabilitiesDoc
  | StatusDocument statusDoc
  | SendDocument nat nat
  | MessageDocument "'p relay_message"
  | Text string

text \<open>RELAY's constant and its name, the version set at build time, Go's version, the clock, the input, the JSON
  decoders and encoder, and the network.\<close>

record 'p environment =
  e_SOMEIP :: 'p
  e_SOMEIP_String :: string
  e_SOMEIP_int :: int
  e_binVersion :: string
  e_Version :: string
  e_now :: int
  e_zero_time :: int
  e_stdin :: "string \<times> goerr option"
  e_unmarshal_relay :: "string \<Rightarrow> goerr + 'p relay_message"
  e_unmarshal :: "string \<Rightarrow> goerr + message"
  e_marshal :: "'p relay_message \<Rightarrow> goerr option"
  e_dial :: "string \<Rightarrow> string \<Rightarrow> goerr option"
  e_write :: "byte list list \<Rightarrow> byte list \<Rightarrow> goerr option"

text \<open>A flag set made with \<open>ExitOnError\<close> ends the program with 2, and with 0 when help is asked for.\<close>

definition flag_exit :: "goerr \<Rightarrow> nat" where
  "flag_exit e = (if e = ErrHelp then 0 else 2)"

definition runVersion :: "('p, 'x) environment_scheme \<Rightarrow> string list \<Rightarrow> nat \<times> 'p document option" where
  "runVersion env args =
     (case parse_flags [''format'' \<mapsto> ''text''] args of
        Inl e \<Rightarrow> (flag_exit e, None)
      | Inr fs \<Rightarrow> (0, Some (
          if the (fs ''format'') = ''json'' then VersionDocument
            \<lparr>vd_Tool = toolName, vd_Protocol = e_SOMEIP_String env, vd_ProtocolInt = e_SOMEIP_int env,
             vd_Version = e_binVersion env, vd_SpecVersion = SpecVersion, vd_Language = ''go'', vd_Runtime = e_Version env\<rparr>
          else Text (toolName @ ''  protocol='' @ e_SOMEIP_String env @ ''  version='' @ e_binVersion env
            @ ''  spec='' @ SpecVersion @ ''  runtime='' @ e_Version env @ [CHR 0x0A]))))"

definition runCapabilities :: "('p, 'x) environment_scheme \<Rightarrow> 'p document" where
  "runCapabilities env = CapabilitiesDocument
     \<lparr>cd_Kind = ''capabilities'', cd_Tool = toolName, cd_Protocol = e_SOMEIP_String env,
      cd_ProtocolInt = e_SOMEIP_int env, cd_Version = e_binVersion env, cd_SpecVersion = SpecVersion,
      cd_Commands = [''version'', ''capabilities'', ''status'', ''convert'', ''send''],
      cd_Transports = [''mock'', ''udp'', ''tcp''], cd_Features = [''sd'', ''tp'', ''e2e''],
      cd_Interfaces = [''Node'', ''Caller''], cd_OptionalInterfaces = [], cd_Adapt = True\<rparr>"

definition runStatus :: "('p, 'x) environment_scheme \<Rightarrow> string list \<Rightarrow> nat \<times> 'p document option" where
  "runStatus env args =
     (case parse_flags [''format'' \<mapsto> ''text''] args of
        Inl e \<Rightarrow> (flag_exit e, None)
      | Inr fs \<Rightarrow> (0, Some (
          if the (fs ''format'') = ''json'' then StatusDocument
            \<lparr>sd_Tool = toolName, sd_Protocol = e_SOMEIP_String env, sd_Version = e_binVersion env, sd_Healthy = True,
             sd_Connected = False, sd_Endpoint = '''', sd_Details_spec_version = SpecVersion\<rparr>
          else Text (toolName @ ''  protocol='' @ e_SOMEIP_String env @ ''  version='' @ e_binVersion env
            @ ''  healthy=true  connected=false'' @ [CHR 0x0A]))))"

text \<open>The program: from its arguments after its name to its exit code, what it printed and what it sent; \<open>None\<close>
  stands for a panic.\<close>

definition main :: "('p, 'x) environment_scheme \<Rightarrow> string list \<Rightarrow> (nat \<times> 'p document option \<times> byte list list) option" where
  "main env args =
     (case args of
        [] \<Rightarrow> Some (1, None, [])
      | cmd # args \<Rightarrow>
          if cmd = ''version'' then let (code, doc) = runVersion env args in Some (code, doc, [])
          else if cmd = ''capabilities'' then Some (0, Some (runCapabilities env), [])
          else if cmd = ''status'' then let (code, doc) = runStatus env args in Some (code, doc, [])
          else if cmd = ''convert'' then
            let readAll = (case snd (e_stdin env) of None \<Rightarrow> Inr (fst (e_stdin env)) | Some e \<Rightarrow> Inl e);
                (code, out) = runConvert (e_SOMEIP env) (e_unmarshal env) (e_marshal env) (e_zero_time env) (e_now env) args readAll
            in Some (code, map_option MessageDocument out, [])
          else if cmd = ''send'' then do {
            (code, frames, counts) \<leftarrow> runSend (e_unmarshal_relay env) (e_dial env) (e_write env) args (e_stdin env);
            Some (code, map_option (\<lambda>(sent, failed). SendDocument sent failed) counts, frames)
          }
          else Some (1, None, []))"

lemma runSend_ok:
  assumes "parse_flags [''format'' \<mapsto> ''text'', ''transport'' \<mapsto> ''udp'', ''endpoint'' \<mapsto> ''''] args = Inr fs"
    and "fs ''format'' = Some ''json''" "fs ''endpoint'' = Some ep" "ep \<noteq> ''''" "fs ''transport'' = Some tr"
    and "dialNetwork tr = (network, True)" "dial network ep = None" "\<And>ws f. write ws f = None"
    and "scan input = (ls, False)"
  shows "runSend unmarshal dial write args (input, None) = Some
    (if \<forall>l \<in> set (nonblank ls). line_message unmarshal l \<noteq> None then 0 else 1,
     map wire (List.map_filter (line_message unmarshal) (nonblank ls)),
     Some (length (List.map_filter (line_message unmarshal) (nonblank ls)),
       length (filter (\<lambda>l. line_message unmarshal l = None) (nonblank ls))))"
  using assms(1-7,9) by (simp add: runSend_def filter_empty_conv send_lines_all [OF assms(8)])

lemma parse_send_flags:
  "parse_flags [''format'' \<mapsto> ''text'', ''transport'' \<mapsto> ''udp'', ''endpoint'' \<mapsto> '''']
     [''--format'', ''json'', ''--transport'', tr, ''--endpoint'', ep] =
   Inr ([''format'' \<mapsto> ''json'', ''transport'' \<mapsto> tr, ''endpoint'' \<mapsto> ep])"
  by (simp add: parse_flags.simps flag_name_def cut_equals_def Let_def fun_upd_twist)

lemma parse_protocol_flag:
  "parse_flags [''protocol'' \<mapsto> '''', ''format'' \<mapsto> ''json''] [''--protocol'', p] =
   Inr ([''format'' \<mapsto> ''json'', ''protocol'' \<mapsto> p])"
  by (simp add: parse_flags.simps flag_name_def cut_equals_def Let_def fun_upd_twist)

lemma fold_case_Nil: "fold_case [] = []"
  by (simp add: fold_case.simps)

section \<open>Properties\<close>


text \<open>What \<open>convert\<close> accepts and writes. Whatever its arguments, the message it writes has the zero time, comes from a
  message of the right version that could be read, and converts back to exactly that message; then the exit code is 0, and
  without an output it is 1 or 2. With the protocol's name, in any case, as its only argument, it accepts every
  message that decodes, validates and can be encoded.\<close>

theorem convert_outcome:
  "(case runConvert SOMEIP unmarshal marshal zero_time now args readAll of
      (code, None) \<Rightarrow> code = 1 \<or> code = 2
    | (code, Some r) \<Rightarrow> code = 0 \<and> rm_Timestamp r = zero_time \<and>
        (\<exists>val m. readAll = Inr val \<and> unmarshal val = Inr m \<and> ProtocolVersion m = 1 \<and> FromMessage r = Inr m)) \<and>
   fst (runConvert SOMEIP unmarshal marshal zero_time now [''--protocol'', p] readAll) =
     (if fold_case p \<noteq> ''someip'' then 2
      else case readAll of Inl _ \<Rightarrow> 1 | Inr val \<Rightarrow> (case unmarshal val of Inl _ \<Rightarrow> 1 | Inr m \<Rightarrow>
        if ProtocolVersion m = 1 \<and> marshal ((ToMessage SOMEIP now m)\<lparr>rm_Timestamp := zero_time\<rparr>) = None then 0 else 1))"
proof -
  have f: "FromMessage ((ToMessage SOMEIP now m)\<lparr>rm_Timestamp := zero_time\<rparr>) = Inr (m\<lparr>ProtocolVersion := 1\<rparr>)" for m
  proof -
    have "FromMessage (r\<lparr>rm_Timestamp := t\<rparr>) = FromMessage r" for r :: "'a relay_message" and t
      by (cases r) (simp only: FromMessage_def relay_message.simps)
    then show ?thesis by (simp add: FromMessage_ToMessage)
  qed
  have one: "m\<lparr>ProtocolVersion := 1\<rparr> = m" if "ProtocolVersion m = 1" for m using that by simp
  show ?thesis
    by (auto simp: runConvert_def parse_protocol_flag Validate_def SOMEIPProtocolVersion_def f one fold_case_Nil Let_def
        split: sum.split)
qed

text \<open>The program's contract with its callers. No command panics and no exit code exceeds 2. The commands the
  capabilities document lists are those the program knows: given a flag that does not exist, any other command
  ends with 1 and these do not. The tool, protocol and versions in the three documents agree.\<close>

theorem main_outcome:
  "(case main env args of None \<Rightarrow> False | Some (code, _) \<Rightarrow> code \<le> 2) \<and>
   (\<exists>caps ver st. main env [''capabilities''] = Some (0, Some (CapabilitiesDocument caps), []) \<and>
     main env [''version'', ''--format=json''] = Some (0, Some (VersionDocument ver), []) \<and>
     main env [''status'', ''--format=json''] = Some (0, Some (StatusDocument st), []) \<and>
     (\<forall>cmd. cmd \<in> set (cd_Commands caps) \<longleftrightarrow> map_option fst (main env [cmd, ''-x'']) \<noteq> Some 1) \<and>
     cd_Tool caps = vd_Tool ver \<and> sd_Tool st = vd_Tool ver \<and> cd_Protocol caps = vd_Protocol ver \<and> sd_Protocol st = vd_Protocol ver \<and>
     cd_Version caps = vd_Version ver \<and> sd_Version st = vd_Version ver \<and>
     cd_SpecVersion caps = vd_SpecVersion ver \<and> sd_Details_spec_version st = vd_SpecVersion ver)"
proof -
  have send: "\<exists>code frames counts. runSend (e_unmarshal_relay env) (e_dial env) (e_write env) as inp = Some (code, frames, counts) \<and> code \<le> 2" for as inp
  proof -
    obtain st' where "run_all (send_line (e_unmarshal_relay env) (e_write env)) \<lparr>ss_sent = 0, ss_failed = 0, ss_written = []\<rparr> (fst (scan (fst inp))) = Some st'"
      using send_lines_defined by blast
    then show ?thesis by (auto simp: runSend_def case_prod_beta split: sum.split)
  qed
  have conv: "fst (runConvert S u e z n as r) \<le> 2" for S :: 'a and u e z n as r
    by (simp add: runConvert_def Let_def split: sum.split option.split)
  have x: "parse_flags fs [''-x''] = Inl (New ''flag provided but not defined: -x'')" if "fs ''x'' = None" for fs
    using that by (simp add: parse_flags.simps flag_name_def cut_equals_def flag_undefined_def Let_def)
  have j: "parse_flags [''format'' \<mapsto> ''text''] [''--format=json''] = Inr [''format'' \<mapsto> ''json'']"
    by (simp add: parse_flags.simps flag_name_def cut_equals_def Let_def)
  have "case main env args of None \<Rightarrow> False | Some (code, _) \<Rightarrow> code \<le> 2"
  proof (cases args)
    case (Cons cmd as)
    then show ?thesis
      using send [of as "e_stdin env"] conv
      by (auto simp: main_def runVersion_def runStatus_def flag_exit_def Let_def case_prod_beta split: sum.split)
  qed (simp add: main_def)
  moreover have "cmd \<in> set [''version'', ''capabilities'', ''status'', ''convert'', ''send''] \<longleftrightarrow> map_option fst (main env [cmd, ''-x'']) \<noteq> Some 1" for cmd
    by (auto simp: main_def runVersion_def runStatus_def runConvert_def runSend_def x flag_exit_def ErrHelp_def)
  ultimately show ?thesis
    by (simp add: main_def runCapabilities_def runVersion_def runStatus_def j)
qed

end
