(* ===== verification/Sessions.thy ===== *)
theory Sessions
  imports UDP TCP
begin

text \<open>
  Session numbers come round: what a client makes of an answer that arrives when its call is over (\<open>src/udp/udp.go\<close>,
  \<open>src/tcp/tcp.go\<close>). The locale \<open>call_lifecycle\<close> is interpreted on both transports.
\<close>

section \<open>Over UDP\<close>

interpretation udp_lifecycle: call_lifecycle start_udp "\<lambda>s m. dispatchFrame s (wire m)" sv_sessionID sv_next sv_pending
  "\<lambda>s c. ch_queue (sv_chans s c)" SessionID response_frame udp_ready UDP.Call_end
  by unfold_locales (auto simp: udp_ready_def UDP.Call_end_def)

text \<open>A call that nobody answers: its deadline passes.\<close>

definition udp_unanswered :: "UDP.Service \<Rightarrow> u16 \<times> byte list \<Rightarrow> UDP.Service option" where
  "udp_unanswered svc q = (case UDP.Call_begin svc (fst q) (snd q) (\<lambda>_. None) of
     Some (svc', Inr (s, ch)) \<Rightarrow> map_option fst (UDP.Call_select svc' s ch Woken_by_deadline) | _ \<Rightarrow> None)"

lemma udp_unanswered_eq:
  "udp_ready svc \<Longrightarrow> udp_unanswered svc q = map_option (\<lambda>s'. UDP.Call_end s' (sv_sessionID s')) (start_udp svc q)"
  by (simp add: udp_unanswered_def UDP.Call_begin_eq start_udp_eq udp_ready_def UDP.Call_select_def Let_def UDP.called_def)

lemma udp_unanswered_all:
  "udp_ready svc \<Longrightarrow> run_all udp_unanswered svc qs = run_all (\<lambda>s q. map_option (\<lambda>s'. UDP.Call_end s' (sv_sessionID s')) (start_udp s q)) svc qs"
proof (induction qs arbitrary: svc)
  case (Cons q qs)
  obtain s1 where s1: "start_udp svc q = Some s1" "udp_ready s1" using udp_calls.start_call [OF Cons.prems] by blast
  then have "udp_ready (UDP.Call_end s1 (sv_sessionID s1))" using udp_lifecycle.finish_call by blast
  then show ?case using s1 Cons by (simp add: udp_unanswered_eq)
qed simp

text \<open>C27: stale answers. The answer to a call comes late: its deadline has passed, further calls have failed in the
  same way, and one more call waits. That call takes the late answer for its own exactly when the number of calls since
  is a multiple of 65536, as session numbers have come round; the client looks at no other field of the answer. In
  every other case it is dropped.\<close>

theorem udp_stale_answer:
  assumes "udp_ready svc" "run_all udp_unanswered svc qs = Some svc1" "qs \<noteq> []"
    and "UDP.Call_begin svc1 m p (\<lambda>_. None) = Some (svc2, Inr (s, ch))"
    and "response_frame late" "SessionID late = sv_sessionID svc + 1"
  shows "\<exists>svc3. dispatchFrame svc2 (wire late) = Some svc3 \<and>
    map_option snd (UDP.Call_select svc3 s ch Woken_by_response) = (if length qs mod 65536 = 0 then Some (Inr late) else None)"
proof -
  note run = assms(2) [unfolded udp_unanswered_all [OF assms(1)]]
  have ready: "udp_ready svc1" using udp_lifecycle.over_all [OF assms(1), of qs] run by auto
  have st: "start_udp svc1 (m, p) = Some svc2" using assms(4) by (simp add: start_udp_def)
  have ch: "ch = sv_next svc1" using assms(4) ready by (auto simp: UDP.Call_begin_eq udp_ready_def Let_def)
  obtain svc3 where "dispatchFrame svc2 (wire late) = Some svc3"
    "ch_queue (sv_chans svc3 (sv_next svc1)) = (if length qs mod 2 ^ 16 = 0 then [late] else [])"
    using udp_lifecycle.late_answer [OF assms(1) run st assms(5,6)] by blast
  then show ?thesis by (auto simp: ch UDP.Call_select_def recv_def)
qed

theorem udp_stale_answer_witness:
  "\<exists>svc1 svc2 s ch svc3. run_all udp_unanswered sample_service (replicate 65536 (1, [7])) = Some svc1 \<and>
     UDP.Call_begin svc1 2 [8] (\<lambda>_. None) = Some (svc2, Inr (s, ch)) \<and>
     (let late = zero_message\<lparr>MethodID := 1, SessionID := 1, ProtocolVersion := 1, MessageType := MsgTypeResponse, Payload := [7]\<rparr> in
       dispatchFrame svc2 (wire late) = Some svc3 \<and> map_option snd (UDP.Call_select svc3 s ch Woken_by_response) = Some (Inr late))"
proof -
  let ?qs = "replicate 65536 (1, [7])"
  let ?late = "zero_message\<lparr>MethodID := 1, SessionID := 1, ProtocolVersion := 1, MessageType := MsgTypeResponse, Payload := [7]\<rparr>"
  have r: "udp_ready sample_service" by (simp add: udp_ready_def sample_service_def)
  obtain svc1 where svc1: "run_all udp_unanswered sample_service ?qs = Some svc1" "udp_ready svc1"
    using udp_lifecycle.over_all [OF r, of ?qs] unfolding udp_unanswered_all [OF r] by blast
  obtain svc2 s ch where svc2: "UDP.Call_begin svc1 2 [8] (\<lambda>_. None) = Some (svc2, Inr (s, ch))"
    using svc1(2) by (simp add: UDP.Call_begin_eq udp_ready_def Let_def)
  have late: "response_frame ?late" "SessionID ?late = sv_sessionID sample_service + 1"
    by (simp_all add: response_frame_def fits_def is_sd_def sample_service_def zero_message_def SDServiceID_def)
  have "replicate 65536 (1 :: u16, [7 :: byte]) \<noteq> []" by (metis length_0_conv length_replicate zero_neq_numeral)
  from udp_stale_answer [OF r svc1(1) this svc2 late] show ?thesis
    using svc1(1) svc2 unfolding Let_def length_replicate by auto
qed

section \<open>Over TCP\<close>

interpretation tcp_lifecycle: call_lifecycle start_tcp deliver tv_sessionID tv_next tv_pending
  "\<lambda>s c. ch_queue (tv_chans s c)" SessionID "\<lambda>_. True" tcp_ready TCP.Call_end
  by unfold_locales (auto simp: tcp_ready_def TCP.Call_end_def)

definition tcp_unanswered :: "TCP.Service \<Rightarrow> u16 \<times> byte list \<Rightarrow> TCP.Service option" where
  "tcp_unanswered svc q = (case TCP.Call_begin svc (fst q) (snd q) (\<lambda>_. None) of
     Some (svc', Inr (s, ch)) \<Rightarrow> map_option fst (TCP.Call_select svc' s ch Woken_by_deadline) | _ \<Rightarrow> None)"

lemma tcp_unanswered_eq:
  "tcp_ready svc \<Longrightarrow> tcp_unanswered svc q = map_option (\<lambda>s'. TCP.Call_end s' (tv_sessionID s')) (start_tcp svc q)"
  by (simp add: tcp_unanswered_def TCP.tcp_Call_begin_eq start_tcp_eq tcp_ready_def TCP.Call_select_def Let_def TCP.called_def)

lemma tcp_unanswered_all:
  "tcp_ready svc \<Longrightarrow> run_all tcp_unanswered svc qs = run_all (\<lambda>s q. map_option (\<lambda>s'. TCP.Call_end s' (tv_sessionID s')) (start_tcp s q)) svc qs"
proof (induction qs arbitrary: svc)
  case (Cons q qs)
  obtain s1 where s1: "start_tcp svc q = Some s1" "tcp_ready s1" using tcp_calls.start_call [OF Cons.prems] by blast
  then have "tcp_ready (TCP.Call_end s1 (tv_sessionID s1))" using tcp_lifecycle.finish_call by blast
  then show ?case using s1 Cons by (simp add: tcp_unanswered_eq)
qed simp

text \<open>The same over TCP, where the client does not even look at the type of the message: any message with the session
  number of the call that waits is its answer.\<close>

lemma tcp_stale_answer:
  assumes "tcp_ready svc" "run_all tcp_unanswered svc qs = Some svc1"
    and "TCP.Call_begin svc1 m p (\<lambda>_. None) = Some (svc2, Inr (s, ch))" "SessionID late = tv_sessionID svc + 1"
  shows "\<exists>svc3. deliver svc2 late = Some svc3 \<and>
    map_option snd (TCP.Call_select svc3 s ch Woken_by_response) = (if length qs mod 65536 = 0 then Some (Inr late) else None)"
proof -
  note run = assms(2) [unfolded tcp_unanswered_all [OF assms(1)]]
  have ready: "tcp_ready svc1" using tcp_lifecycle.over_all [OF assms(1), of qs] run by auto
  have st: "start_tcp svc1 (m, p) = Some svc2" using assms(3) by (simp add: start_tcp_def)
  have ch: "ch = tv_next svc1" using assms(3) ready by (auto simp: TCP.tcp_Call_begin_eq tcp_ready_def Let_def)
  obtain svc3 where "deliver svc2 late = Some svc3"
    "ch_queue (tv_chans svc3 (tv_next svc1)) = (if length qs mod 2 ^ 16 = 0 then [late] else [])"
    using tcp_lifecycle.late_answer [OF assms(1) run st _ assms(4)] by blast
  then show ?thesis by (auto simp: ch TCP.Call_select_def recv_def)
qed

end
