(* ===== verification/UDP_Frames.thy ===== *)
theory UDP_Frames
  imports UDP
begin

text \<open>
  What a UDP server and a UDP client (\<open>src/udp/udp.go\<close>) put on the wire in any run: the frames are well typed. And
  what happens when servers receive each other's frames: they answer them for ever.
\<close>

section \<open>Well-typed frames\<close>

definition subscribe_entry_of :: "nat \<Rightarrow> message \<Rightarrow> Entry option" where
  "subscribe_entry_of w m = (case decodeSubscribeEntry w (Payload m) of Some x \<Rightarrow> x | None \<Rightarrow> None)"

text \<open>A server sends notifications, responses and errors in its own name, and acknowledgements of subscriptions. A client
  sends requests in the name of client 1, and subscriptions.\<close>

definition server_frame :: "nat \<Rightarrow> u16 \<Rightarrow> u8 \<Rightarrow> message \<Rightarrow> bool" where
  "server_frame w sid ver m \<longleftrightarrow>
     ServiceID m = sid \<and> InterfaceVersion m = ver \<and> MessageType m \<in> {MsgTypeNotification, MsgTypeResponse, MsgTypeError}
       \<and> ReturnCode m \<in> {RetOK, RetNotOK, RetUnknownMethod} \<and> (ReturnCode m = RetOK \<longleftrightarrow> MessageType m \<noteq> MsgTypeError)
     \<or> is_sd m \<and> MessageType m = MsgTypeNotification
       \<and> (\<exists>e. subscribe_entry_of w m = Some e \<and> e_Type e = EntryTypeSubscribeAck \<and> e_ServiceID e = sid)"

definition client_frame :: "nat \<Rightarrow> u16 \<Rightarrow> message \<Rightarrow> bool" where
  "client_frame w sid m \<longleftrightarrow>
     ServiceID m = sid \<and> InterfaceVersion m = 0 \<and> ClientID m = 1 \<and> ReturnCode m = RetOK
       \<and> MessageType m \<in> {MsgTypeRequest, MsgTypeRequestNoReturn}
     \<or> is_sd m \<and> MessageType m = MsgTypeNotification
       \<and> (\<exists>e. subscribe_entry_of w m = Some e \<and> e_Type e = EntryTypeSubscribe \<and> e_ServiceID e = sid)"

text \<open>A datagram of a kind: the layout of such a message, which a receiver decodes unless its payload exceeds the Length field.\<close>

definition typed :: "(message \<Rightarrow> bool) \<Rightarrow> udp_event \<Rightarrow> bool" where
  "typed P ev = (case ev of Invoked _ _ \<Rightarrow> True
     | Datagram _ f \<Rightarrow> \<exists>m. f = wire m \<and> P m \<and> (fits m \<longrightarrow> Decode f = Some (Inr (m\<lparr>ProtocolVersion := 1\<rparr>))))"

lemma typed_wire: "P m \<Longrightarrow> typed P (Datagram a (wire m))"
  by (auto simp: typed_def Decode_wire)

lemma typed_invoked [simp]: "typed P (Invoked i m)"
  by (simp add: typed_def)

lemma sub_message_sd:
  assumes "w = 32 \<or> w = 64" "t \<in> {EntryTypeSubscribe, EntryTypeSubscribeAck}"
  shows "is_sd (sub_message t sid iid ev ttl)" "MessageType (sub_message t sid iid ev ttl) = MsgTypeNotification"
    "\<exists>e. subscribe_entry_of w (sub_message t sid iid ev ttl) = Some e \<and> e_Type e = t \<and> e_ServiceID e = sid"
  using decode_sub_message [of t w sid iid ev ttl] assms
  by (auto simp: is_sd_def sub_message_def subscribe_entry_of_def entry_carried_def sub_entry_def)

section \<open>A server\<close>

inductive server_step :: "nat \<Rightarrow> Server \<Rightarrow> Server \<Rightarrow> bool" for w where
  ss_method: "server_step w s (fst (RegisterMethod s m h))"
| ss_emit: "Emit s ev p = Some (s', e) \<Longrightarrow> server_step w s s'"
| ss_frame: "handleFrame w s f a = Some s' \<Longrightarrow> server_step w s s'"
| ss_subscriber: "server_step w s (fst (RegisterSubscriber s ev a))"
| ss_unsubscriber: "server_step w s (UnregisterSubscriber s ev a)"
| ss_close: "server_step w s (fst (Server_Close cc s))"

inductive server_reachable :: "nat \<Rightarrow> Server \<Rightarrow> bool" for w where
  server_new: "NewServer resolve listen addr sid iid ver = Inr s \<Longrightarrow> server_reachable w s"
| server_next: "server_reachable w s \<Longrightarrow> server_step w s s' \<Longrightarrow> server_reachable w s'"

definition server_typed :: "nat \<Rightarrow> Server \<Rightarrow> bool" where
  "server_typed w s \<longleftrightarrow> list_all (typed (server_frame w (us_ServiceID s) (us_InterfaceVersion s))) (us_log s)"

lemma answer_typed:
  "typed (server_frame w (us_ServiceID s) (us_InterfaceVersion s)) (Datagram a (wire (server_answer s m)))"
  by (rule typed_wire) (simp add: server_frame_def server_answer_def Let_def msg_types RetOK_def RetNotOK_def RetUnknownMethod_def
      split: option.split sum.split)

lemma notification_typed:
  "typed (server_frame w (us_ServiceID s) (us_InterfaceVersion s)) (Datagram a (wire (notification s ev p)))"
  by (rule typed_wire) (simp add: server_frame_def notification_def msg_types)

lemma server_identity [simp]:
  "us_ServiceID (write_udp s a f) = us_ServiceID s" "us_InterfaceVersion (write_udp s a f) = us_InterfaceVersion s"
  "us_ServiceID (UnregisterSubscriber s ev a) = us_ServiceID s" "us_InterfaceVersion (UnregisterSubscriber s ev a) = us_InterfaceVersion s"
  "us_ServiceID (fst (RegisterSubscriber s ev a)) = us_ServiceID s"
  "us_InterfaceVersion (fst (RegisterSubscriber s ev a)) = us_InterfaceVersion s"
  "us_log (UnregisterSubscriber s ev a) = us_log s" "us_log (fst (RegisterSubscriber s ev a)) = us_log s"
  by (simp_all add: write_udp_def UnregisterSubscriber_def RegisterSubscriber_def)

lemma handleFrame_typed:
  assumes "handleFrame w s f a = Some s'" "server_typed w s" "w = 32 \<or> w = 64"
  shows "server_typed w s'"
proof -
  obtain x where x: "Decode f = Some x" by (auto simp: Decode_eq)
  show ?thesis
  proof (cases x)
    case (Inl e)
    with assms x show ?thesis by (simp add: handleFrame_def)
  next
    case (Inr m)
    show ?thesis
    proof (cases "is_sd m")
      case False
      with assms x Inr handleFrame_request [of f m w s a] show ?thesis
        by (auto simp: server_typed_def answer_typed split: if_splits option.splits)
    next
      case True
      have ack: "typed (server_frame w (us_ServiceID s) (us_InterfaceVersion s))
          (Datagram a (wire (sub_message EntryTypeSubscribeAck (us_ServiceID s) (us_InstanceID s) ev ttl)))" for ev ttl
        using sub_message_sd [OF assms(3), of EntryTypeSubscribeAck] by (intro typed_wire) (simp add: server_frame_def)
      with True assms x Inr handleFrame_sd [of f m w s a] show ?thesis
        by (auto simp: server_typed_def subscribe_effect_def split: option.splits)
    qed
  qed
qed

lemma server_step_typed:
  assumes "server_step w s s'" "server_typed w s" "w = 32 \<or> w = 64"
  shows "server_typed w s'"
  using assms(1)
proof cases
  case (ss_frame f a)
  then show ?thesis using handleFrame_typed assms by blast
next
  case (ss_emit ev p e)
  then show ?thesis using assms(2)
    by (auto simp: Emit_eq server_typed_def list_all_iff notification_typed split: if_splits)
qed (use assms(2) in \<open>auto simp: server_typed_def RegisterMethod_def Server_Close_def\<close>)

lemma server_reachable_typed:
  assumes "w = 32 \<or> w = 64"
  shows "server_reachable w s \<Longrightarrow> server_typed w s"
proof (induction rule: server_reachable.induct)
  case (server_new resolve listen addr sid iid ver s)
  then show ?case by (auto simp: NewServer_def server_typed_def split: sum.splits option.splits)
qed (use server_step_typed assms in blast)

section \<open>A client\<close>

definition client_typed :: "nat \<Rightarrow> Service \<Rightarrow> bool" where
  "client_typed w svc \<longleftrightarrow> list_all (typed (client_frame w (sv_ServiceID svc))) (sv_log svc)"

text \<open>The operations that send nothing leave the log and the identity of the client alone.\<close>

definition same_log :: "Service \<Rightarrow> Service \<Rightarrow> bool" where
  "same_log svc svc' \<longleftrightarrow> sv_log svc' = sv_log svc \<and> sv_ServiceID svc' = sv_ServiceID svc"

lemma same_log_typed: "same_log svc svc' \<Longrightarrow> client_typed w svc' = client_typed w svc"
  by (simp add: same_log_def client_typed_def)

lemma same_log_quiet:
  "same_log svc (Call_end svc s)" "same_log svc (called svc)" "same_log svc (unsubscribe_locked svc ev ch)"
  "same_log svc (subscribed svc ev n)" "same_log svc (fst (Service_Close cc svc))"
  by (simp_all add: same_log_def Call_end_def called_def unsubscribe_locked_def subscribed_def Service_Close_def)

lemma same_log_refl [simp]: "same_log s s"
  by (simp add: same_log_def)

lemmas same_log_typed_quiet [simp] = same_log_quiet [THEN same_log_typed]

lemma quiet_identity [simp]:
  "sv_ServiceID (called svc) = sv_ServiceID svc" "sv_ServiceID (subscribed svc ev n) = sv_ServiceID svc"
  "sv_ServiceID (unsubscribe_locked svc ev ch) = sv_ServiceID svc" "sv_ServiceID (send_udp svc f) = sv_ServiceID svc"
  by (simp_all add: called_def subscribed_def unsubscribe_locked_def send_udp_def)

lemma same_log_trans: "same_log a b \<Longrightarrow> same_log b c \<Longrightarrow> same_log a c"
  by (simp add: same_log_def)

lemma same_log_send: "send_chan svc ch m = Some svc' \<Longrightarrow> same_log svc svc'"
  by (auto simp: send_chan_def same_log_def split: bind_splits)

lemma same_log_notify: "notify_loop svc chs m = Some svc' \<Longrightarrow> same_log svc svc'"
proof (induction chs arbitrary: svc)
  case (Cons ch chs)
  then show ?case using same_log_send same_log_trans by (force split: bind_splits)
qed (simp add: same_log_def)

lemma same_log_dispatch: "dispatchFrame svc f = Some svc' \<Longrightarrow> same_log svc svc'"
  by (auto simp: dispatchFrame_def split: bind_splits sum.splits if_splits option.splits
      dest: same_log_notify same_log_send)

lemma same_log_select: "Call_select svc s ch w = Some (svc', r) \<Longrightarrow> same_log svc svc'"
  by (auto simp: Call_select_def same_log_def Call_end_def split: wake.splits option.splits)

lemma same_log_close_once: "close_once svc ch = Some svc' \<Longrightarrow> same_log svc svc'"
  by (auto simp: close_once_def same_log_def split: if_splits bind_splits)

lemma client_typed_send:
  "client_typed w svc \<Longrightarrow> client_frame w (sv_ServiceID svc) m \<Longrightarrow> client_typed w (send_udp svc (wire m))"
  by (simp add: client_typed_def send_udp_def typed_wire)

lemma request_typed:
  "t \<in> {MsgTypeRequest, MsgTypeRequestNoReturn} \<Longrightarrow> client_frame w (sv_ServiceID svc) (request svc m s t p)"
  by (auto simp: client_frame_def request_def zero_message_def)

lemma sub_frame_typed:
  assumes "w = 32 \<or> w = 64"
  shows "client_frame w (sv_ServiceID svc) (sub_message EntryTypeSubscribe (sv_ServiceID svc) iid ev ttl)"
  using sub_message_sd [OF assms, of EntryTypeSubscribe] by (simp add: client_frame_def)

lemma sub_frame_typed_send:
  "client_typed w svc \<Longrightarrow> w = 32 \<or> w = 64 \<Longrightarrow> sv_ServiceID svc' = sv_ServiceID svc \<Longrightarrow> client_typed w (send_udp svc (sub_frame svc' ev ttl))"
  using sub_frame_typed [of w svc] by (simp add: sub_frame_def client_typed_send)

lemma client_step_typed:
  assumes "client_step c (Some c')" "client_typed w (cl_svc c)" "w = 32 \<or> w = 64"
  shows "client_typed w (cl_svc c')"
proof -
  let ?svc = "cl_svc c"
  have req: "client_typed w (send_udp svc (wire (request ?svc m s t p)))"
    if "t \<in> {MsgTypeRequest, MsgTypeRequestNoReturn}" "client_typed w svc" "sv_ServiceID svc = sv_ServiceID ?svc" for svc m s t p
    using request_typed [OF that(1), of w ?svc m s p] that(2,3) by (intro client_typed_send) simp_all
  have sub: "client_typed w (send_udp svc (sub_frame ?svc ev ttl))"
    if "client_typed w svc" "sv_ServiceID svc = sv_ServiceID ?svc" for svc ev ttl
    using sub_frame_typed_send [OF that(1) assms(3), of ?svc ev ttl] that(2) by simp
  from assms(1) show ?thesis
  proof cases
    case (cs_call m p wr)
    then show ?thesis using assms(2) by (auto simp: Call_begin_eq Let_def req split: if_splits option.splits)
  next
    case (cs_select ch s w' svc r)
    then show ?thesis using assms(2) same_log_typed [OF same_log_select] by simp
  next
    case (cs_send m p wr)
    have "client_typed w (?svc\<lparr>sv_sessionID := s\<rparr>)" for s using assms(2) by (simp add: client_typed_def)
    then show ?thesis using cs_send assms(2) by (auto simp: CallNoReturn_eq Let_def req split: if_splits option.splits)
  next
    case (cs_subscribe depth ev wr)
    then show ?thesis using assms(2) by (auto simp: Subscribe_eq sub split: if_splits option.splits)
  next
    case (cs_close_chan ch)
    then show ?thesis using assms(2) same_log_typed [OF same_log_close_once]
      by (cases "close_once ?svc ch") auto
  next
    case (cs_read f)
    then show ?thesis using assms(2) same_log_typed [OF same_log_dispatch]
      by (cases "dispatchFrame ?svc f") auto
  qed (use assms(2) in \<open>auto simp: Unsubscribe_eq sub\<close>)
qed

lemma client_reachable_typed:
  assumes "w = 32 \<or> w = 64"
  shows "client_reachable c \<Longrightarrow> client_typed w (cl_svc c)"
proof (induction rule: client_reachable.induct)
  case (client_new resolve listen addr sid iid t svc)
  then show ?case by (auto simp: NewService_def client_typed_def split: sum.splits option.splits)
qed (use client_step_typed assms in blast)

section \<open>Servers that hear each other\<close>

text \<open>A frame a server answers: a subscription or its acknowledgement, or any message that is no fire-and-forget request.\<close>

definition answered :: "nat \<Rightarrow> byte list \<Rightarrow> bool" where
  "answered w f \<longleftrightarrow> (\<exists>m. Decode f = Some (Inr m) \<and>
     (if is_sd m then subscribe_entry_of w m \<noteq> None else MessageType m \<noteq> MsgTypeRequestNoReturn))"

definition fitting_handlers :: "Server \<Rightarrow> bool" where
  "fitting_handlers s \<longleftrightarrow> (\<forall>i h m p. us_handlers s i = Some h \<and> h m = Inr p \<longrightarrow> length p + 8 < 2 ^ 32)"

lemma answered_answer:
  assumes "answered w f" "fitting_handlers s" "us_ServiceID s \<noteq> SDServiceID" "w = 32 \<or> w = 64"
  shows "\<exists>s' g. handleFrame w s f a = Some s' \<and> us_log s' = us_log s @ [Datagram a g] \<and> answered w g
    \<and> us_handlers s' = us_handlers s \<and> us_ServiceID s' = us_ServiceID s"
proof -
  obtain m where m: "Decode f = Some (Inr m)" using assms(1) by (auto simp: answered_def)
  show ?thesis
  proof (cases "is_sd m")
    case True
    let ?ack = "\<lambda>e. sub_message EntryTypeSubscribeAck (us_ServiceID s) (us_InstanceID s) (e_EventgroupID e) (e_TTL e)"
    obtain e where e: "subscribe_entry_of w m = Some e" using True assms(1) m by (auto simp: answered_def)
    then have h: "handleFrame w s f a = Some (subscribe_effect s e a)"
      using handleFrame_sd [OF m True, of w s a] by (auto simp: subscribe_entry_of_def split: option.splits)
    have "fits (?ack e)" by (simp add: fits_def sub_message_def)
    moreover have "(?ack e)\<lparr>ProtocolVersion := 1\<rparr> = ?ack e" by (simp add: sub_message_def)
    ultimately have "Decode (wire (?ack e)) = Some (Inr (?ack e))" using Decode_wire by metis
    moreover obtain e' where "subscribe_entry_of w (?ack e) = Some e'"
      using sub_message_sd(3) [OF assms(4), of EntryTypeSubscribeAck] by blast
    ultimately have "answered w (wire (?ack e))" using sub_message_sd(1) [OF assms(4), of EntryTypeSubscribeAck] by (auto simp: answered_def)
    then show ?thesis using h
      by (auto simp: subscribe_effect_def UnregisterSubscriber_def RegisterSubscriber_def)
  next
    case False
    let ?r = "server_answer s m"
    have nr: "MessageType m \<noteq> MsgTypeRequestNoReturn" using False assms(1) m by (auto simp: answered_def)
    have "fits ?r" using assms(2)
      by (auto simp: fits_def server_answer_def fitting_handlers_def zero_message_def Let_def split: option.split sum.split)
    moreover have "?r\<lparr>ProtocolVersion := 1\<rparr> = ?r" using udp_answer_simps(3) [of s m] by simp
    ultimately have "Decode (wire ?r) = Some (Inr ?r)" using Decode_wire by metis
    moreover have "\<not> is_sd ?r" "MessageType ?r \<noteq> MsgTypeRequestNoReturn"
      using udp_answer_simps(1,4) [of s m] assms(3) by (auto simp: is_sd_def msg_types)
    ultimately have "answered w (wire ?r)" by (auto simp: answered_def)
    then show ?thesis using handleFrame_request [OF m False, of w s a] nr by auto
  qed
qed

text \<open>A frame goes to and fro: each server handles what the other has just sent to it.\<close>

fun bounce :: "nat \<Rightarrow> nat \<Rightarrow> Server \<times> udp_addr \<Rightarrow> Server \<times> udp_addr \<Rightarrow> byte list \<Rightarrow> (Server \<times> Server \<times> byte list) option" where
  "bounce w 0 (s, a) (t, b) f = Some (s, t, f)"
| "bounce w (Suc n) (s, a) (t, b) f = do {
     s' \<leftarrow> handleFrame w s f b;
     if length (us_log s') = Suc (length (us_log s))
     then (case last (us_log s') of Datagram _ g \<Rightarrow> map_option (\<lambda>(t', s', g). (s', t', g)) (bounce w n (t, b) (s', a) g) | Invoked _ _ \<Rightarrow> None)
     else None
   }"

lemma bounce_for_ever:
  "answered w f \<Longrightarrow> fitting_handlers s \<Longrightarrow> fitting_handlers t \<Longrightarrow> us_ServiceID s \<noteq> SDServiceID \<Longrightarrow> us_ServiceID t \<noteq> SDServiceID \<Longrightarrow>
   w = 32 \<or> w = 64 \<Longrightarrow> \<exists>s' t' g. bounce w n (s, a) (t, b) f = Some (s', t', g) \<and> answered w g
     \<and> length (us_log s') + length (us_log t') = length (us_log s) + length (us_log t) + n"
proof (induction n arbitrary: s t a b f)
  case (Suc n)
  obtain s1 g where s1: "handleFrame w s f b = Some s1" "us_log s1 = us_log s @ [Datagram b g]" "answered w g"
    "us_handlers s1 = us_handlers s" "us_ServiceID s1 = us_ServiceID s"
    using answered_answer [OF Suc.prems(1,2,4,6)] by blast
  have "fitting_handlers s1" using Suc.prems(2) s1(4) by (simp add: fitting_handlers_def)
  moreover have "us_ServiceID s1 \<noteq> SDServiceID" using Suc.prems(4) s1(5) by simp
  ultimately obtain t' s' h where "bounce w n (t, b) (s1, a) g = Some (t', s', h)" "answered w h"
    "length (us_log t') + length (us_log s') = length (us_log t) + length (us_log s1) + n"
    using Suc.IH [OF s1(3) Suc.prems(3) _ Suc.prems(5) _ Suc.prems(6)] by blast
  then show ?case using s1(1,2) by simp
qed simp

section \<open>Properties\<close>

text \<open>C15: well-typed frames. In every run, whatever a UDP server receives and is asked to do, each frame it sends is the layout
  of a notification, a response or an error in its own name, with the return code that belongs to the type, or of the
  acknowledgement of a subscription; each frame a client sends is that of a request of client 1 or of a
  subscription to its service. A receiver decodes it to that message unless the payload exceeds the Length field.\<close>

theorem udp_wire_typed:
  assumes "w = 32 \<or> w = 64"
  shows "(\<forall>s a f. server_reachable w s \<and> Datagram a f \<in> set (us_log s) \<longrightarrow>
      (\<exists>m. f = wire m \<and> server_frame w (us_ServiceID s) (us_InterfaceVersion s) m
        \<and> (fits m \<longrightarrow> Decode f = Some (Inr (m\<lparr>ProtocolVersion := 1\<rparr>)))))
    \<and> (\<forall>c a f. client_reachable c \<and> Datagram a f \<in> set (sv_log (cl_svc c)) \<longrightarrow>
      (\<exists>m. f = wire m \<and> client_frame w (sv_ServiceID (cl_svc c)) m
        \<and> (fits m \<longrightarrow> Decode f = Some (Inr (m\<lparr>ProtocolVersion := 1\<rparr>)))))"
  using server_reachable_typed [OF assms] client_reachable_typed [OF assms]
  by (fastforce simp: server_typed_def client_typed_def list_all_iff typed_def)

theorem udp_wire_typed_witness:
  "\<exists>s m. server_reachable 64 s \<and> us_log s = [Datagram sample_addr (wire m)] \<and> server_frame 64 (us_ServiceID s) (us_InterfaceVersion s) m"
proof -
  obtain s0 where s0: "NewServer (\<lambda>_. Inr sample_addr) (\<lambda>_. None) [] 0x1234 1 1 = Inr s0" "us_log s0 = []"
    by (simp add: NewServer_def)
  let ?f = "wire (request sample_service 5 1 MsgTypeRequest [])"
  have d: "Decode ?f = Some (Inr ((request sample_service 5 1 MsgTypeRequest [])\<lparr>ProtocolVersion := 1\<rparr>))"
    by (rule Decode_wire) (simp add: fits_def request_def)
  obtain s f where s: "handleFrame 64 s0 ?f sample_addr = Some s" "us_log s = [Datagram sample_addr f]"
    using handleFrame_request [OF d, of 64 s0 sample_addr] s0(2)
    by (auto simp: is_sd_def request_def sample_service_def SDServiceID_def msg_types)
  have r: "server_reachable 64 s" using server_next [OF server_new [OF s0(1)] ss_frame [OF s(1)]] .
  have "(64 :: nat) = 32 \<or> (64 :: nat) = 64" by simp
  from udp_wire_typed [OF this] r s(2) show ?thesis by force
qed

text \<open>An answer is answered. A UDP server takes every message but a fire-and-forget request for a request, responses and errors
  too, and every acknowledgement of a subscription for a subscription. So one datagram with the address of another server as its
  source makes the two send each other frames without end: any number of rounds takes place, with a frame sent in each.\<close>

theorem udp_answers_answered:
  assumes "Decode f = Some (Inr m)"
    and "if is_sd m then decodeSubscribeEntry 64 (Payload m) \<noteq> Some None else MessageType m \<noteq> MsgTypeRequestNoReturn"
    and "fitting_handlers s" "fitting_handlers t" "us_ServiceID s \<noteq> SDServiceID" "us_ServiceID t \<noteq> SDServiceID"
  shows "\<exists>s' t' g. bounce 64 n (s, a) (t, b) f = Some (s', t', g)
    \<and> length (us_log s') + length (us_log t') = length (us_log s) + length (us_log t) + n"
proof -
  have "answered 64 f" using assms(1,2)
    by (auto simp: answered_def subscribe_entry_of_def decodeSubscribeEntry_eq split: if_splits)
  from bounce_for_ever [OF this assms(3-6)] show ?thesis by blast
qed

definition quiet_server :: "u16 \<Rightarrow> Server" where
  "quiet_server sid = sample_server\<lparr>us_ServiceID := sid, us_handlers := Map.empty\<rparr>"

theorem udp_answers_answered_witness:
  "\<exists>s' t' g. bounce 64 1000 (quiet_server 5, sample_addr) (quiet_server 7, sample_addr)
     (wire (zero_message\<lparr>MessageType := MsgTypeError\<rparr>)) = Some (s', t', g) \<and> 1000 \<le> length (us_log s') + length (us_log t')"
proof -
  have d: "Decode (wire (zero_message\<lparr>MessageType := MsgTypeError\<rparr>)) = Some (Inr (zero_message\<lparr>MessageType := MsgTypeError, ProtocolVersion := 1\<rparr>))"
    using Decode_wire [of "zero_message\<lparr>MessageType := MsgTypeError\<rparr>"] by (simp add: fits_def zero_message_def)
  have h: "fitting_handlers (quiet_server 5)" "fitting_handlers (quiet_server 7)"
    by (auto simp: fitting_handlers_def quiet_server_def)
  have i: "us_ServiceID (quiet_server 5) \<noteq> SDServiceID" "us_ServiceID (quiet_server 7) \<noteq> SDServiceID"
    by (simp_all add: quiet_server_def SDServiceID_def)
  have "if is_sd (zero_message\<lparr>MessageType := MsgTypeError, ProtocolVersion := 1\<rparr>)
      then decodeSubscribeEntry 64 (Payload (zero_message\<lparr>MessageType := MsgTypeError, ProtocolVersion := 1\<rparr>)) \<noteq> Some None
      else MessageType (zero_message\<lparr>MessageType := MsgTypeError, ProtocolVersion := 1\<rparr>) \<noteq> MsgTypeRequestNoReturn"
    by (simp add: is_sd_def zero_message_def SDServiceID_def msg_types)
  from udp_answers_answered [OF d this h i, of 1000 sample_addr sample_addr] show ?thesis by force
qed

end
