(* ===== verification/Call_Sections.thy ===== *)
theory Call_Sections
  imports UDP
begin

text \<open>
  \<open>Call\<close> of \<open>src/udp/udp.go\<close> in its critical sections. \<open>Call_begin\<close> and \<open>Call_select\<close> of \<open>UDP\<close> are many sections in one step; here each
  is a step of its own, with those of all other calls, of the read loop and of every other operation between them.
\<close>

section \<open>The sections\<close>

text \<open>Where a goroutine is in \<open>Call\<close>: past the test of \<open>closed\<close>; with its number; in the table; in the \<open>select\<close>; before the
  deferred deletion; done.\<close>

datatype call_pc =
    Passed u16 "byte list"
  | Numbered u16 "byte list" u16
  | Entered u16 "byte list" u16 nat
  | Selecting u16 nat
  | Leaving u16 nat "goerr + message"
  | Returned "u16 option" "goerr + message"

definition Call_test :: "Service \<Rightarrow> u16 \<Rightarrow> byte list \<Rightarrow> call_pc" where
  "Call_test svc m p = (if sv_closed svc then Returned None (Inl ErrClosed) else Passed m p)"

definition Call_enter :: "Service \<Rightarrow> u16 \<Rightarrow> (Service \<times> nat) option" where
  "Call_enter svc sessionID = do {
     (svc, ch) \<leftarrow> new_chan svc 1;
     Some (svc\<lparr>sv_pending := (sv_pending svc)(sessionID \<mapsto> ch)\<rparr>, ch)
   }"

definition Call_write :: "Service \<Rightarrow> u16 \<Rightarrow> byte list \<Rightarrow> u16 \<Rightarrow> (byte list \<Rightarrow> goerr option) \<Rightarrow> (Service \<times> goerr option) option" where
  "Call_write svc methodID payload sessionID write = do {
     frame \<leftarrow> encode_frame (zero_message\<lparr>ServiceID := sv_ServiceID svc, MethodID := methodID, SessionID := sessionID,
       ClientID := 0x0001, MessageType := MsgTypeRequest, ReturnCode := RetOK, Payload := payload\<rparr>);
     Some (case write frame of
       Some e \<Rightarrow> (svc, Some (Errorf ''udp: send'' e))
     | None \<Rightarrow> (send_udp svc frame, None))
   }"

definition Call_wake :: "Service \<Rightarrow> nat \<Rightarrow> wake \<Rightarrow> (Service \<times> (goerr + message)) option" where
  "Call_wake svc ch w =
     (case w of
        Woken_by_response \<Rightarrow> (case recv (sv_chans svc ch) of
            Some (resp, c) \<Rightarrow> Some (svc\<lparr>sv_chans := (sv_chans svc)(ch := c)\<rparr>, Inr resp)
          | None \<Rightarrow> None)
      | Woken_by_deadline \<Rightarrow> Some (svc, Inl ErrTimeout)
      | Woken_by_context e \<Rightarrow> Some (svc, Inl e))"

text \<open>The read loop looks a response up under the lock and sends without it; other frames it handles under the lock.\<close>

definition read_lookup :: "Service \<Rightarrow> byte list \<Rightarrow> (Service \<times> (nat \<times> message) option) option" where
  "read_lookup svc frame = do {
     x \<leftarrow> Decode frame;
     (case x of Inl _ \<Rightarrow> Some (svc, None)
      | Inr msg \<Rightarrow>
          if ServiceID msg = SDServiceID \<and> MethodID msg = SDMethodID then Some (svc, None)
          else if MessageType msg = MsgTypeNotification
            then map_option (\<lambda>svc. (svc, None)) (notify_loop svc (sv_subs svc (MethodID msg)) msg)
          else if MessageType msg = MsgTypeResponse \<or> MessageType msg = MsgTypeError
            then Some (svc, map_option (\<lambda>ch. (ch, msg)) (sv_pending svc (SessionID msg)))
          else Some (svc, None))
   }"

text \<open>Run without interruption, the sections are the operations of \<open>UDP\<close>.\<close>

lemma Call_begin_sections:
  "Call_begin svc m p write =
     (case Call_test svc m p of
        Passed m p \<Rightarrow> do {
          let (svc, s) = nextSession svc;
          (svc, ch) \<leftarrow> Call_enter svc s;
          (svc, e) \<leftarrow> Call_write svc m p s write;
          Some (case e of None \<Rightarrow> (svc, Inr (s, ch)) | Some e \<Rightarrow> (Call_end svc s, Inl e))
        }
      | _ \<Rightarrow> Some (svc, Inl ErrClosed))"
  by (simp add: Call_begin_def Call_test_def Call_enter_def Call_write_def nextSession_def new_chan_eq Let_def split: option.split)

lemma Call_select_sections: "Call_select svc s ch w = map_option (\<lambda>(svc, r). (Call_end svc s, r)) (Call_wake svc ch w)"
  by (simp add: Call_select_def Call_wake_def split: wake.split option.split)

lemma dispatchFrame_sections:
  "dispatchFrame svc frame = do {
     (svc, r) \<leftarrow> read_lookup svc frame;
     (case r of None \<Rightarrow> Some svc | Some (ch, msg) \<Rightarrow> send_chan svc ch msg)
   }"
proof (cases "Decode frame")
  case (Some x)
  then show ?thesis
    by (cases x; cases "notify_loop svc (sv_subs svc (MethodID (projr x))) (projr x)"; cases "sv_pending svc (SessionID (projr x))")
      (simp_all add: dispatchFrame_def read_lookup_def)
qed (simp add: dispatchFrame_def read_lookup_def)

section \<open>The steps\<close>

record calls =
  f_client :: client
  f_pcs :: "nat \<rightharpoonup> call_pc"
  f_read :: "(nat \<times> message) option"

abbreviation f_svc :: "calls \<Rightarrow> Service" where
  "f_svc c \<equiv> cl_svc (f_client c)"

definition f_goes :: "calls \<Rightarrow> nat \<Rightarrow> Service \<Rightarrow> call_pc \<Rightarrow> calls" where
  "f_goes c t svc pc = c\<lparr>f_client := (f_client c)\<lparr>cl_svc := svc\<rparr>, f_pcs := (f_pcs c)(t \<mapsto> pc)\<rparr>"

text \<open>The operations beside \<open>Call\<close> and the read loop.\<close>

inductive other_step :: "client \<Rightarrow> client option \<Rightarrow> bool" where
  os_send: "other_step c (map_option (\<lambda>(svc, _). c\<lparr>cl_svc := svc\<rparr>) (CallNoReturn (cl_svc c) m p write))"
| os_subscribe: "0 \<le> depth \<Longrightarrow> other_step c (map_option (after_subscribe c ev) (Subscribe (cl_svc c) ev depth write))"
| os_unsubscribe: "cl_subs c ch = Some ev \<Longrightarrow>
    other_step c (map_option (\<lambda>svc. c\<lparr>cl_svc := svc\<rparr>) (Unsubscribe (cl_svc c) ev ch))"
| os_sub_close: "cl_subs c ch = Some ev \<Longrightarrow>
    other_step c (map_option (\<lambda>svc. c\<lparr>cl_svc := svc, cl_closing := insert ch (cl_closing c)\<rparr>) (Unsubscribe (cl_svc c) ev ch))"
| os_close_chan: "ch \<in> cl_closing c \<Longrightarrow>
    other_step c (map_option (\<lambda>svc. c\<lparr>cl_svc := svc\<rparr>) (close_once (cl_svc c) ch))"
| os_close: "other_step c (Some (c\<lparr>cl_svc := fst (Service_Close cc (cl_svc c))\<rparr>))"

inductive section_step :: "calls \<Rightarrow> calls option \<Rightarrow> bool" where
  fs_test: "f_pcs c t = None \<Longrightarrow> section_step c (Some (f_goes c t (f_svc c) (Call_test (f_svc c) m p)))"
| fs_number: "f_pcs c t = Some (Passed m p) \<Longrightarrow> nextSession (f_svc c) = (svc, s) \<Longrightarrow>
    section_step c (Some (f_goes c t svc (Numbered m p s)))"
| fs_enter: "f_pcs c t = Some (Numbered m p s) \<Longrightarrow>
    section_step c (map_option (\<lambda>(svc, ch). (f_goes c t svc (Entered m p s ch))
      \<lparr>f_client := (f_client c)\<lparr>cl_svc := svc, cl_calls := (cl_calls (f_client c))(ch \<mapsto> s)\<rparr>\<rparr>) (Call_enter (f_svc c) s))"
| fs_write: "f_pcs c t = Some (Entered m p s ch) \<Longrightarrow>
    section_step c (map_option (\<lambda>(svc, e). f_goes c t svc (case e of None \<Rightarrow> Selecting s ch | Some e \<Rightarrow> Leaving s ch (Inl e)))
      (Call_write (f_svc c) m p s write))"
| fs_wake: "f_pcs c t = Some (Selecting s ch) \<Longrightarrow> Call_wake (f_svc c) ch w = Some (svc, r) \<Longrightarrow>
    section_step c (Some (f_goes c t svc (Leaving s ch r)))"
| fs_leave: "f_pcs c t = Some (Leaving s ch r) \<Longrightarrow>
    section_step c (Some (f_goes c t (Call_end (f_svc c) s) (Returned (Some s) r)))"
| fs_lookup: "f_read c = None \<Longrightarrow>
    section_step c (map_option (\<lambda>(svc, r). c\<lparr>f_client := (f_client c)\<lparr>cl_svc := svc\<rparr>, f_read := r\<rparr>) (read_lookup (f_svc c) frame))"
| fs_hand: "f_read c = Some (ch, msg) \<Longrightarrow>
    section_step c (map_option (\<lambda>svc. c\<lparr>f_client := (f_client c)\<lparr>cl_svc := svc\<rparr>, f_read := None\<rparr>) (send_chan (f_svc c) ch msg))"
| fs_other: "other_step (f_client c) r \<Longrightarrow> section_step c (map_option (\<lambda>cl. c\<lparr>f_client := cl\<rparr>) r)"

inductive_cases section_stepE: "section_step c r"

inductive sections_reachable :: "calls \<Rightarrow> bool" where
  sections_new: "NewService resolve listen addr sid iid t = Inr svc \<Longrightarrow> sections_reachable
    \<lparr>f_client = \<lparr>cl_svc = svc, cl_calls = Map.empty, cl_subs = Map.empty, cl_closing = {}\<rparr>, f_pcs = Map.empty, f_read = None\<rparr>"
| sections_next: "sections_reachable c \<Longrightarrow> section_step c (Some c') \<Longrightarrow> sections_reachable c'"

section \<open>The invariant\<close>

text \<open>The number and channel of a call that is in the table, or was.\<close>

fun holds :: "call_pc \<Rightarrow> (u16 \<times> nat) option" where
  "holds (Entered m p s ch) = Some (s, ch)"
| "holds (Selecting s ch) = Some (s, ch)"
| "holds (Leaving s ch r) = Some (s, ch)"
| "holds _ = None"

definition answer_to :: "u16 \<Rightarrow> message \<Rightarrow> bool" where
  "answer_to s m \<longleftrightarrow> SessionID m = s \<and> (MessageType m = MsgTypeResponse \<or> MessageType m = MsgTypeError)"

fun own_result :: "call_pc \<Rightarrow> bool" where
  "own_result (Leaving s ch r) = (\<forall>m. r = Inr m \<longrightarrow> answer_to s m)"
| "own_result (Returned (Some s) r) = (\<forall>m. r = Inr m \<longrightarrow> answer_to s m)"
| "own_result (Returned None r) = (r = Inl ErrClosed)"
| "own_result _ = True"

definition sections_ok :: "calls \<Rightarrow> bool" where
  "sections_ok c \<longleftrightarrow> client_ok (f_client c) \<and>
     (\<forall>t pc. f_pcs c t = Some pc \<longrightarrow> own_result pc) \<and>
     (\<forall>t pc s ch. f_pcs c t = Some pc \<and> holds pc = Some (s, ch) \<longrightarrow> cl_calls (f_client c) ch = Some s) \<and>
     (\<forall>t pc t' pc' s s' ch. f_pcs c t = Some pc \<and> f_pcs c t' = Some pc' \<and> holds pc = Some (s, ch) \<and> holds pc' = Some (s', ch) \<longrightarrow> t = t') \<and>
     (\<forall>s ch. sv_pending (f_svc c) s = Some ch \<longrightarrow> (\<exists>t pc. f_pcs c t = Some pc \<and> holds pc = Some (s, ch))) \<and>
     (\<forall>ch m. f_read c = Some (ch, m) \<longrightarrow> cl_calls (f_client c) ch = Some (SessionID m) \<and> answer_to (SessionID m) m)"

lemma sections_okI:
  assumes "client_ok (f_client c)"
    and "\<And>t pc. f_pcs c t = Some pc \<Longrightarrow> own_result pc"
    and "\<And>t pc s ch. f_pcs c t = Some pc \<Longrightarrow> holds pc = Some (s, ch) \<Longrightarrow> cl_calls (f_client c) ch = Some s"
    and "\<And>t pc t' pc' s s' ch. f_pcs c t = Some pc \<Longrightarrow> f_pcs c t' = Some pc' \<Longrightarrow> holds pc = Some (s, ch) \<Longrightarrow> holds pc' = Some (s', ch) \<Longrightarrow> t = t'"
    and "\<And>s ch. sv_pending (f_svc c) s = Some ch \<Longrightarrow> \<exists>t pc. f_pcs c t = Some pc \<and> holds pc = Some (s, ch)"
    and "\<And>ch m. f_read c = Some (ch, m) \<Longrightarrow> cl_calls (f_client c) ch = Some (SessionID m) \<and> answer_to (SessionID m) m"
  shows "sections_ok c"
  using assms unfolding sections_ok_def by blast

lemma sections_okD:
  assumes "sections_ok c"
  shows "client_ok (f_client c)"
    and "f_pcs c t = Some pc \<Longrightarrow> own_result pc"
    and "f_pcs c t = Some pc \<Longrightarrow> holds pc = Some (s, ch) \<Longrightarrow> cl_calls (f_client c) ch = Some s"
    and "f_pcs c t = Some pc \<Longrightarrow> f_pcs c t' = Some pc' \<Longrightarrow> holds pc = Some (s, ch) \<Longrightarrow> holds pc' = Some (s', ch) \<Longrightarrow> t = t'"
    and "sv_pending (f_svc c) s = Some ch \<Longrightarrow> \<exists>t pc. f_pcs c t = Some pc \<and> holds pc = Some (s, ch)"
    and "f_read c = Some (ch, m) \<Longrightarrow> cl_calls (f_client c) ch = Some (SessionID m) \<and> answer_to (SessionID m) m"
  using assms unfolding sections_ok_def by blast+

text \<open>Steps that leave the calls and the table alone, and steps of one call that keep its number and channel.\<close>

lemma sections_ok_client:
  assumes "sections_ok c" "client_ok cl" "cl_calls cl = cl_calls (f_client c)" "sv_pending (cl_svc cl) = sv_pending (f_svc c)"
  shows "sections_ok (c\<lparr>f_client := cl\<rparr>)"
  using sections_okD [OF assms(1)] assms(2-) by (intro sections_okI) (simp; blast)+

lemma sections_ok_goes:
  assumes ok: "sections_ok c" and cl: "client_ok ((f_client c)\<lparr>cl_svc := svc\<rparr>)"
    and held: "holds pc' = (case f_pcs c t of None \<Rightarrow> None | Some pc \<Rightarrow> holds pc)"
    and own: "own_result pc'" and pend: "sv_pending svc = sv_pending (f_svc c)"
  shows "sections_ok (f_goes c t svc pc')"
proof -
  note d = sections_okD [OF ok]
  have h: "\<exists>q. f_pcs c x = Some q \<and> holds q = Some k" if "((f_pcs c)(t \<mapsto> pc')) x = Some q" "holds q = Some k" for x q k
    using that held by (cases "f_pcs c t") (auto split: if_splits)
  show ?thesis
  proof (rule sections_okI, goal_cases)
    case 1
    then show ?case using cl by (simp add: f_goes_def)
  next
    case (2 x q)
    then show ?case using d(2) own by (auto simp: f_goes_def split: if_splits)
  next
    case (3 x q s ch)
    then show ?case using h [of x q] d(3) by (auto simp: f_goes_def)
  next
    case (4 x q x' q' s s' ch)
    then show ?case using h [of x q] h [of x' q'] d(4) [of x _ x'] by (force simp: f_goes_def)
  next
    case (5 s ch)
    then obtain x q where x: "f_pcs c x = Some q" "holds q = Some (s, ch)" using d(5) pend by (force simp: f_goes_def)
    then show ?case using held by (cases "x = t") (auto simp: f_goes_def)
  next
    case (6 ch m)
    then show ?case using d(6) by (simp add: f_goes_def)
  qed
qed

lemma ok_session: "client_ok (c\<lparr>cl_svc := svc\<lparr>sv_sessionID := s\<rparr>\<rparr>) = client_ok (c\<lparr>cl_svc := svc\<rparr>)"
  by (simp add: client_ok_def)

lemma other_client_step: "other_step c r \<Longrightarrow> client_step c r"
  by (cases rule: other_step.cases) (auto intro: client_step.intros)

lemma other_step_ok:
  assumes "other_step c r" "client_ok c"
  shows "\<exists>c'. r = Some c' \<and> client_ok c' \<and> cl_calls c' = cl_calls c \<and> sv_pending (cl_svc c') = sv_pending (cl_svc c)"
proof -
  obtain c' where c': "r = Some c'" "client_ok c'" using client_step_ok [OF other_client_step [OF assms(1)] assms(2)] by blast
  have "cl_calls c' = cl_calls c \<and> sv_pending (cl_svc c') = sv_pending (cl_svc c)"
    using assms(1) c'(1)
    by (cases rule: other_step.cases)
      (auto simp: CallNoReturn_eq Let_def send_udp_def Subscribe_eq subscribed_def unsubscribe_locked_def Unsubscribe_eq
        close_once_def close_chan_def Service_Close_def split: option.splits if_splits)
  with c' show ?thesis by blast
qed

definition entered :: "Service \<Rightarrow> u16 \<Rightarrow> Service" where
  "entered svc s = svc\<lparr>sv_chans := (sv_chans svc)(sv_next svc := \<lparr>ch_queue = [], ch_cap = 1, ch_closed = False\<rparr>),
     sv_next := sv_next svc + 1, sv_pending := (sv_pending svc)(s \<mapsto> sv_next svc)\<rparr>"

lemma Call_enter_eq: "Call_enter svc s = Some (entered svc s, sv_next svc)"
  by (simp add: Call_enter_def new_chan_eq entered_def)

lemma ok_entered:
  assumes "client_ok c"
  shows "client_ok (c\<lparr>cl_svc := entered (cl_svc c) s, cl_calls := (cl_calls c)(sv_next (cl_svc c) \<mapsto> s)\<rparr>)"
proof -
  have "client_ok (c\<lparr>cl_svc := (cl_svc c)\<lparr>sv_sessionID := s - 1\<rparr>\<rparr>)" using assms by (simp add: ok_session)
  from ok_called [OF this] show ?thesis by (simp add: client_ok_def called_def entered_def)
qed

lemma Call_write_eq:
  "Call_write svc m p s write = Some (let frame = wire (request svc m s MsgTypeRequest p) in
     case write frame of Some e \<Rightarrow> (svc, Some (Errorf ''udp: send'' e)) | None \<Rightarrow> (send_udp svc frame, None))"
  by (simp add: Call_write_def request_def Let_def)

lemma ok_wake:
  assumes "client_ok c" "cl_calls c ch = Some s" "Call_wake (cl_svc c) ch w = Some (svc, r)"
  shows "client_ok (c\<lparr>cl_svc := svc\<rparr>) \<and> (\<forall>m. r = Inr m \<longrightarrow> answer_to s m) \<and> sv_pending svc = sv_pending (cl_svc c)"
  using ok_recv [OF assms(1,2)] assms(1,3) by (auto simp: Call_wake_def answer_to_def split: wake.splits option.splits)

lemma notify_keeps_pending: "notify_loop svc chs m = Some svc' \<Longrightarrow> sv_pending svc' = sv_pending svc"
proof (induction chs arbitrary: svc)
  case (Cons ch chs)
  then obtain svc1 where "send_chan svc ch m = Some svc1" "notify_loop svc1 chs m = Some svc'" by (auto split: bind_splits)
  then show ?case using Cons.IH by (auto simp: send_chan_def split: bind_splits)
qed simp

lemma ok_lookup:
  assumes ok: "client_ok c"
  shows "\<exists>svc r. read_lookup (cl_svc c) frame = Some (svc, r) \<and> client_ok (c\<lparr>cl_svc := svc\<rparr>) \<and> sv_pending svc = sv_pending (cl_svc c)
    \<and> (\<forall>ch m. r = Some (ch, m) \<longrightarrow> cl_calls c ch = Some (SessionID m) \<and> answer_to (SessionID m) m)"
proof -
  obtain x where x: "Decode frame = Some x" by (auto simp: Decode_eq)
  show ?thesis
  proof (cases x)
    case (Inr m)
    show ?thesis
    proof (cases "ServiceID m = SDServiceID \<and> MethodID m = SDMethodID \<or> MessageType m \<noteq> MsgTypeNotification")
      case True
      then show ?thesis using ok client_okD(2) [OF ok] by (auto simp: read_lookup_def x Inr answer_to_def)
    next
      case False
      then obtain svc where "notify_loop (cl_svc c) (sv_subs (cl_svc c) (MethodID m)) m = Some svc" "client_ok (c\<lparr>cl_svc := svc\<rparr>)"
        using ok_notify [OF ok, of m "sv_subs (cl_svc c) (MethodID m)"] by auto
      then show ?thesis using False notify_keeps_pending by (auto simp: read_lookup_def x Inr)
    qed
  qed (use ok in \<open>simp add: read_lookup_def x\<close>)
qed

lemma sections_ok_entered:
  assumes ok: "sections_ok c" and t: "f_pcs c t = Some (Numbered m p s)"
  shows "sections_ok (c\<lparr>f_client := (f_client c)\<lparr>cl_svc := entered (f_svc c) s, cl_calls := (cl_calls (f_client c))(sv_next (f_svc c) \<mapsto> s)\<rparr>,
      f_pcs := (f_pcs c)(t \<mapsto> Entered m p s (sv_next (f_svc c)))\<rparr>)"
proof -
  note d = sections_okD [OF ok]
  let ?n = "sv_next (f_svc c)"
  have fresh: "cl_calls (f_client c) ?n = None" using ok_fresh(2) [OF d(1)] .
  have old: "holds pc \<noteq> Some (s', ?n)" if "f_pcs c x = Some pc" for x pc s' using d(3) [OF that] fresh by fastforce
  show ?thesis
  proof (rule sections_okI, goal_cases)
    case 1
    then show ?case using ok_entered [OF d(1), of s] by simp
  next
    case (2 x pc)
    then show ?case using d(2) by (auto split: if_splits)
  next
    case (3 x pc s' ch)
    then show ?case using d(3) [of x pc] old [of x pc] by (auto split: if_splits)
  next
    case (4 x pc x' pc' s1 s2 ch)
    then show ?case using d(4) [of x pc x' pc'] old [of x pc s1] old [of x' pc' s2] by (auto split: if_splits)
  next
    case (5 s' ch)
    show ?case
    proof (cases "s' = s")
      case False
      then obtain x pc where "f_pcs c x = Some pc" "holds pc = Some (s', ch)" using 5 d(5) by (force simp: entered_def)
      then show ?thesis using t by (intro exI [of _ x]) auto
    qed (use 5 in \<open>auto simp: entered_def\<close>)
  next
    case (6 ch x)
    then show ?case using d(6) [of ch x] fresh by auto
  qed
qed

lemma sections_ok_left:
  assumes ok: "sections_ok c" and t: "f_pcs c t = Some (Leaving s ch r)"
  shows "sections_ok (f_goes c t (Call_end (f_svc c) s) (Returned (Some s) r))"
proof -
  note d = sections_okD [OF ok]
  show ?thesis
  proof (rule sections_okI, goal_cases)
    case 1
    have "client_ok ((f_client c)\<lparr>cl_svc := f_svc c\<rparr>)" using d(1) by simp
    from ok_Call_end [OF this] show ?case by (simp add: f_goes_def)
  next
    case (2 x pc)
    then show ?case using d(2) [of x pc] d(2) [OF t] by (auto simp: f_goes_def split: if_splits)
  next
    case (3 x pc s' ch)
    then show ?case using d(3) [of x pc] by (auto simp: f_goes_def split: if_splits)
  next
    case (4 x pc x' pc' s1 s2 ch)
    then show ?case using d(4) [of x pc x' pc'] by (auto simp: f_goes_def split: if_splits)
  next
    case (5 s' ch')
    then have s': "s' \<noteq> s" "sv_pending (f_svc c) s' = Some ch'" by (auto simp: f_goes_def Call_end_def split: if_splits)
    then obtain x pc where "f_pcs c x = Some pc" "holds pc = Some (s', ch')" using d(5) by blast
    then show ?case using t s'(1) by (intro exI [of _ x]) (auto simp: f_goes_def)
  next
    case (6 ch x)
    then show ?case using d(6) by (simp add: f_goes_def)
  qed
qed

lemma section_step_ok:
  assumes "section_step c r" and ok: "sections_ok c"
  shows "\<exists>c'. r = Some c' \<and> sections_ok c'"
  using assms(1)
proof cases
  case (fs_test t m p)
  have "sections_ok (f_goes c t (f_svc c) (Call_test (f_svc c) m p))"
    using ok sections_okD(1) [OF ok] fs_test(2) by (intro sections_ok_goes) (simp_all add: Call_test_def)
  then show ?thesis using fs_test by blast
next
  case (fs_number t m p svc s)
  then have svc: "svc = (f_svc c)\<lparr>sv_sessionID := s\<rparr>" by (auto simp: nextSession_def Let_def)
  have "sections_ok (f_goes c t svc (Numbered m p s))"
    using ok sections_okD(1) [OF ok] fs_number(2) unfolding svc by (intro sections_ok_goes) (simp_all add: ok_session)
  then show ?thesis using fs_number by blast
next
  case (fs_enter t m p s)
  let ?c = "(f_goes c t (entered (f_svc c) s) (Entered m p s (sv_next (f_svc c))))
    \<lparr>f_client := (f_client c)\<lparr>cl_svc := entered (f_svc c) s, cl_calls := (cl_calls (f_client c))(sv_next (f_svc c) \<mapsto> s)\<rparr>\<rparr>"
  have "r = Some ?c" using fs_enter by (simp add: Call_enter_eq)
  moreover have "sections_ok ?c" using sections_ok_entered [OF ok fs_enter(2)] by (cases c) (simp add: f_goes_def)
  ultimately show ?thesis by blast
next
  case (fs_write t m p s ch wr)
  have "sections_ok (f_goes c t svc pc)" if "svc = f_svc c \<or> svc = send_udp (f_svc c) f" "pc = Selecting s ch \<or> (\<exists>e. pc = Leaving s ch (Inl e))"
    for svc pc f
    using ok sections_okD(1) [OF ok] fs_write(2) that by (intro sections_ok_goes) (auto simp: send_udp_def client_ok_def)
  then show ?thesis using fs_write by (auto simp: Call_write_eq Let_def split: option.split)
next
  case (fs_wake t s ch w svc x)
  have "cl_calls (f_client c) ch = Some s" using sections_okD(3) [OF ok fs_wake(2)] by simp
  from ok_wake [OF sections_okD(1) [OF ok] this fs_wake(3)] have "sections_ok (f_goes c t svc (Leaving s ch x))"
    using ok fs_wake(2) by (intro sections_ok_goes) auto
  then show ?thesis using fs_wake by blast
next
  case (fs_leave t s ch x)
  then show ?thesis using sections_ok_left [OF ok fs_leave(2)] by blast
next
  case (fs_lookup frame)
  obtain svc x where x: "read_lookup (f_svc c) frame = Some (svc, x)" "client_ok ((f_client c)\<lparr>cl_svc := svc\<rparr>)"
    "sv_pending svc = sv_pending (f_svc c)"
    "\<forall>ch m. x = Some (ch, m) \<longrightarrow> cl_calls (f_client c) ch = Some (SessionID m) \<and> answer_to (SessionID m) m"
    using ok_lookup [OF sections_okD(1) [OF ok]] by blast
  then have "sections_ok (c\<lparr>f_client := (f_client c)\<lparr>cl_svc := svc\<rparr>, f_read := x\<rparr>)"
    using sections_okD [OF ok] by (intro sections_okI) (simp; blast)+
  then show ?thesis using fs_lookup x(1) by simp
next
  case (fs_hand ch m)
  note d = sections_okD [OF ok]
  have call: "cl_calls (f_client c) ch = Some (SessionID m)" "answer_to (SessionID m) m" using d(6) [OF fs_hand(2)] by auto
  have "\<not> ch_closed (sv_chans (f_svc c) ch)" "cl_subs (f_client c) ch = None" using client_okD(3) [OF d(1) call(1)] by auto
  from ok_send_chan [OF d(1) this(1), of m] call this(2) obtain svc where svc: "send_chan (f_svc c) ch m = Some svc"
    "client_ok ((f_client c)\<lparr>cl_svc := svc\<rparr>)" "sv_pending svc = sv_pending (f_svc c)"
    by (auto simp: answer_to_def)
  then have "sections_ok (c\<lparr>f_client := (f_client c)\<lparr>cl_svc := svc\<rparr>, f_read := None\<rparr>)"
    using d by (intro sections_okI) (simp; blast)+
  then show ?thesis using fs_hand svc(1) by simp
next
  case (fs_other x)
  obtain cl where "x = Some cl" "client_ok cl" "cl_calls cl = cl_calls (f_client c)" "sv_pending (cl_svc cl) = sv_pending (f_svc c)"
    using other_step_ok [OF fs_other(2) sections_okD(1) [OF ok]] by blast
  then show ?thesis using sections_ok_client [OF ok] fs_other(1) by auto
qed

lemma sections_reachable_ok: "sections_reachable c \<Longrightarrow> sections_ok c"
proof (induction rule: sections_reachable.induct)
  case (sections_new resolve listen addr sid iid t svc)
  then have "client_ok \<lparr>cl_svc = svc, cl_calls = Map.empty, cl_subs = Map.empty, cl_closing = {}\<rparr>" "sv_pending svc = Map.empty"
    using client_reachable_ok [OF client_new] by (auto simp: NewService_def split: sum.splits option.splits)
  then show ?case by (simp add: sections_ok_def)
next
  case (sections_next c c')
  then show ?case using section_step_ok by blast
qed

section \<open>Properties\<close>

text \<open>C8: calls cut into their critical sections. However the sections of any number of calls, the lookup and the send of the read loop,
  fire-and-forget requests, subscriptions and closes interleave, no step panics, although the read loop may send to the channel of a
  call that has returned. A call that returned a message returned a response or an error of its own session. And no call leaves a
  trace: when all have returned, whether answered, timed out, cancelled or failed, the table of pending calls is empty.\<close>

theorem call_sections_safe:
  assumes "sections_reachable c"
  shows "(\<forall>r. section_step c r \<longrightarrow> r \<noteq> None) \<and>
    (\<forall>t s m. f_pcs c t = Some (Returned (Some s) (Inr m)) \<longrightarrow>
       SessionID m = s \<and> (MessageType m = MsgTypeResponse \<or> MessageType m = MsgTypeError)) \<and>
    ((\<forall>t pc. f_pcs c t = Some pc \<longrightarrow> (\<exists>s r. pc = Returned s r)) \<longrightarrow> sv_pending (f_svc c) = Map.empty)"
proof (intro conjI impI allI)
  note ok = sections_reachable_ok [OF assms]
  note d = sections_okD [OF ok]
  show "section_step c r \<Longrightarrow> r \<noteq> None" for r using section_step_ok [OF _ ok] by blast
  show "SessionID m = s" "MessageType m = MsgTypeResponse \<or> MessageType m = MsgTypeError"
    if "f_pcs c t = Some (Returned (Some s) (Inr m))" for t s m
    using d(2) [OF that] by (simp_all add: answer_to_def)
  show "sv_pending (f_svc c) = Map.empty" if r: "\<forall>t pc. f_pcs c t = Some pc \<longrightarrow> (\<exists>s r. pc = Returned s r)"
  proof
    fix s
    show "sv_pending (f_svc c) s = None"
    proof (rule ccontr)
      assume "sv_pending (f_svc c) s \<noteq> None"
      then obtain t pc ch where "f_pcs c t = Some pc" "holds pc = Some (s, ch)" using d(5) by blast
      then show False using r by fastforce
    qed
  qed
qed

text \<open>The answer is looked up, the deadline of the call passes, the call deletes its entry and returns, and only then the read loop
  sends the answer to the channel nobody reads.\<close>

theorem call_sections_safe_witness:
  "\<exists>c. let resp = zero_message\<lparr>SessionID := 1, ProtocolVersion := 1, MessageType := MsgTypeResponse, Payload := [7]\<rparr> in
     sections_reachable c \<and> f_pcs c 0 = Some (Returned (Some 1) (Inl ErrTimeout)) \<and> ch_queue (sv_chans (f_svc c) 0) = [resp]
     \<and> (\<forall>r. section_step c r \<longrightarrow> r \<noteq> None) \<and> sv_pending (f_svc c) = Map.empty"
proof -
  let ?resp = "zero_message\<lparr>SessionID := 1, ProtocolVersion := 1, MessageType := MsgTypeResponse, Payload := [7]\<rparr>"
  let ?st = "\<lambda>svc calls pc rd. \<lparr>f_client = \<lparr>cl_svc = svc, cl_calls = calls, cl_subs = Map.empty, cl_closing = {}\<rparr>, f_pcs = [0 \<mapsto> pc], f_read = rd\<rparr>"
  obtain svc0 where new: "NewService (\<lambda>_. Inr sample_addr) None [] 0x1234 1 0 = Inr svc0" and v0: "sv_closed svc0 = False"
    "sv_next svc0 = 0" "sv_pending svc0 = Map.empty" "sv_sessionID svc0 = 0" by (simp add: NewService_def)
  let ?svc1 = "svc0\<lparr>sv_sessionID := 1\<rparr>"
  let ?svc2 = "send_udp (entered ?svc1 1) (wire (request (entered ?svc1 1) 1 1 MsgTypeRequest [7]))"
  let ?svc3 = "Call_end ?svc2 1"
  let ?svc4 = "?svc3\<lparr>sv_chans := (sv_chans ?svc3)(0 := \<lparr>ch_queue = [?resp], ch_cap = 1, ch_closed = False\<rparr>)\<rparr>"
  have v2: "sv_pending ?svc2 = [1 \<mapsto> 0]" "sv_next ?svc1 = 0"
    "sv_chans ?svc3 0 = \<lparr>ch_queue = [], ch_cap = 1, ch_closed = False\<rparr>" by (simp_all add: entered_def v0 send_udp_def Call_end_def)
  have dec: "Decode (wire ?resp) = Some (Inr (?resp\<lparr>ProtocolVersion := 1\<rparr>))" by (intro Decode_wire) (simp add: fits_def)
  have look: "read_lookup ?svc2 (wire ?resp) = Some (?svc2, Some (0, ?resp))"
    unfolding read_lookup_def dec by (simp add: entered_def v0 msg_types zero_message_def SDServiceID_def)
  note step = sections_next
  have "sections_reachable (?st svc0 Map.empty (Passed 1 [7]) None)"
    using step [OF sections_new [OF new] fs_test [of _ 0 1 "[7]"]] by (simp add: f_goes_def Call_test_def v0)
  from step [OF this fs_number [of _ 0 1 "[7]" ?svc1 1]] have "sections_reachable (?st ?svc1 Map.empty (Numbered 1 [7] 1) None)"
    by (simp add: f_goes_def nextSession_def v0)
  from step [OF this] fs_enter [of "?st ?svc1 Map.empty (Numbered 1 [7] 1) None" 0 1 "[7]" 1]
  have "sections_reachable (?st (entered ?svc1 1) [0 \<mapsto> 1] (Entered 1 [7] 1 0) None)"
    by (simp add: f_goes_def Call_enter_eq v2(2))
  from step [OF this] fs_write [of "?st (entered ?svc1 1) [0 \<mapsto> 1] (Entered 1 [7] 1 0) None" 0 1 "[7]" 1 0 "\<lambda>_. None"]
  have "sections_reachable (?st ?svc2 [0 \<mapsto> 1] (Selecting 1 0) None)" by (simp add: f_goes_def Call_write_eq)
  from step [OF this] fs_lookup [of "?st ?svc2 [0 \<mapsto> 1] (Selecting 1 0) None" "wire ?resp"]
  have "sections_reachable (?st ?svc2 [0 \<mapsto> 1] (Selecting 1 0) (Some (0, ?resp)))" by (simp add: look)
  from step [OF this fs_wake [of _ 0 1 0 Woken_by_deadline ?svc2 "Inl ErrTimeout"]]
  have "sections_reachable (?st ?svc2 [0 \<mapsto> 1] (Leaving 1 0 (Inl ErrTimeout)) (Some (0, ?resp)))" by (simp add: f_goes_def Call_wake_def)
  from step [OF this fs_leave [of _ 0 1 0 "Inl ErrTimeout"]]
  have "sections_reachable (?st ?svc3 [0 \<mapsto> 1] (Returned (Some 1) (Inl ErrTimeout)) (Some (0, ?resp)))" by (simp add: f_goes_def)
  from step [OF this] fs_hand [of "?st ?svc3 [0 \<mapsto> 1] (Returned (Some 1) (Inl ErrTimeout)) (Some (0, ?resp))" 0 ?resp]
  have reach: "sections_reachable (?st ?svc4 [0 \<mapsto> 1] (Returned (Some 1) (Inl ErrTimeout)) None)"
    by (simp add: send_chan_def try_send_def v2(3))
  from call_sections_safe [OF this] have "(\<forall>r. section_step (?st ?svc4 [0 \<mapsto> 1] (Returned (Some 1) (Inl ErrTimeout)) None) r \<longrightarrow> r \<noteq> None)
    \<and> sv_pending ?svc4 = Map.empty" by simp
  then show ?thesis using reach unfolding Let_def
    by (intro exI [of _ "?st ?svc4 [0 \<mapsto> 1] (Returned (Some 1) (Inl ErrTimeout)) None"]) simp
qed

end
