(* ===== verification/Call_Answers.thy ===== *)
theory Call_Answers
  imports Call_Sections
begin

text \<open>
  Answers and the calls they are for, in the critical sections of \<open>Call_Sections\<close> (\<open>src/udp/udp.go\<close>): as long as session numbers
  have not come round, an answer that arrives while its call waits is not lost, whatever steps come between.
\<close>

section \<open>Numbers that have been drawn\<close>

text \<open>A reachable client that has drawn \<open>n\<close> session numbers, for calls and for requests without an answer.\<close>

inductive drawn :: "nat \<Rightarrow> calls \<Rightarrow> bool" where
  drawn_new: "NewService resolve listen addr sid iid t = Inr svc \<Longrightarrow> drawn 0
    \<lparr>f_client = \<lparr>cl_svc = svc, cl_calls = Map.empty, cl_subs = Map.empty, cl_closing = {}\<rparr>, f_pcs = Map.empty, f_read = None\<rparr>"
| drawn_next: "drawn n c \<Longrightarrow> section_step c (Some c') \<Longrightarrow>
    drawn (if sv_sessionID (f_svc c') = sv_sessionID (f_svc c) then n else Suc n) c'"

lemma drawn_reachable: "drawn n c \<Longrightarrow> sections_reachable c"
  by (induction rule: drawn.induct) (auto intro: sections_reachable.intros)

fun number_of :: "call_pc \<Rightarrow> u16 option" where
  "number_of (Passed m p) = None"
| "number_of (Numbered m p s) = Some s"
| "number_of (Entered m p s ch) = Some s"
| "number_of (Selecting s ch) = Some s"
| "number_of (Leaving s ch r) = Some s"
| "number_of (Returned s r) = s"

lemma holds_number: "holds pc = Some (s, ch) \<Longrightarrow> number_of pc = Some s"
  by (cases pc) simp_all

text \<open>Numbers are drawn one by one; no two calls have the same; the entry of a call is its own, and its channel has room for one.\<close>

definition own_entries :: "nat \<Rightarrow> calls \<Rightarrow> bool" where
  "own_entries n c \<longleftrightarrow> unat (sv_sessionID (f_svc c)) = n \<and>
     (\<forall>t pc s. f_pcs c t = Some pc \<and> number_of pc = Some s \<longrightarrow> unat s \<le> n) \<and>
     (\<forall>t pc t' pc' s. f_pcs c t = Some pc \<and> f_pcs c t' = Some pc' \<and> number_of pc = Some s \<and> number_of pc' = Some s \<longrightarrow> t = t') \<and>
     (\<forall>t pc s ch. f_pcs c t = Some pc \<and> holds pc = Some (s, ch) \<longrightarrow> sv_pending (f_svc c) s = Some ch \<and> ch_cap (sv_chans (f_svc c) ch) = 1)"

lemma own_entriesI:
  assumes "unat (sv_sessionID (f_svc c)) = n" "\<And>t pc s. f_pcs c t = Some pc \<Longrightarrow> number_of pc = Some s \<Longrightarrow> unat s \<le> n"
    "\<And>t pc t' pc' s. f_pcs c t = Some pc \<Longrightarrow> f_pcs c t' = Some pc' \<Longrightarrow> number_of pc = Some s \<Longrightarrow> number_of pc' = Some s \<Longrightarrow> t = t'"
    "\<And>t pc s ch. f_pcs c t = Some pc \<Longrightarrow> holds pc = Some (s, ch) \<Longrightarrow> sv_pending (f_svc c) s = Some ch \<and> ch_cap (sv_chans (f_svc c) ch) = 1"
  shows "own_entries n c"
  using assms unfolding own_entries_def by blast

lemma own_entriesD:
  assumes "own_entries n c"
  shows "unat (sv_sessionID (f_svc c)) = n" and "f_pcs c t = Some pc \<Longrightarrow> number_of pc = Some s \<Longrightarrow> unat s \<le> n"
    and "f_pcs c t = Some pc \<Longrightarrow> f_pcs c t' = Some pc' \<Longrightarrow> number_of pc = Some s \<Longrightarrow> number_of pc' = Some s \<Longrightarrow> t = t'"
    and "f_pcs c t = Some pc \<Longrightarrow> holds pc = Some (s, ch) \<Longrightarrow> sv_pending (f_svc c) s = Some ch"
    and "f_pcs c t = Some pc \<Longrightarrow> holds pc = Some (s, ch) \<Longrightarrow> ch_cap (sv_chans (f_svc c) ch) = 1"
  using assms unfolding own_entries_def by blast+

section \<open>What the steps do to the channels of calls\<close>

lemma notify_keeps_chan: "notify_loop svc chs m = Some svc' \<Longrightarrow> ch \<notin> set chs \<Longrightarrow> sv_chans svc' ch = sv_chans svc ch"
proof (induction chs arbitrary: svc)
  case (Cons x chs)
  then obtain svc1 where "send_chan svc x m = Some svc1" "notify_loop svc1 chs m = Some svc'" by (auto split: bind_splits)
  moreover from this(1) have "sv_chans svc1 ch = sv_chans svc ch" using Cons.prems(2) by (auto simp: send_chan_def split: bind_splits)
  ultimately show ?case using Cons by simp
qed simp

lemma notify_keeps_session: "notify_loop svc chs m = Some svc' \<Longrightarrow> sv_sessionID svc' = sv_sessionID svc"
proof (induction chs arbitrary: svc)
  case (Cons x chs)
  then obtain svc1 where "send_chan svc x m = Some svc1" "notify_loop svc1 chs m = Some svc'" by (auto split: bind_splits)
  then show ?case using Cons.IH by (auto simp: send_chan_def split: bind_splits)
qed simp

text \<open>The read loop looking a frame up, and the operations beside calls, leave the channels of calls alone.\<close>

lemma lookup_keeps:
  assumes "read_lookup (cl_svc c) frame = Some (svc, r)" "client_ok c" "cl_calls c ch = Some s"
  shows "sv_chans svc ch = sv_chans (cl_svc c) ch"
proof -
  have "ch \<notin> set (sv_subs (cl_svc c) ev)" for ev using client_okD(1,3) [OF assms(2)] assms(3) by fastforce
  then show ?thesis using assms(1) notify_keeps_chan by (auto simp: read_lookup_def split: bind_splits sum.splits if_splits)
qed

lemma lookup_keeps_session: "read_lookup svc0 frame = Some (svc, r) \<Longrightarrow> sv_sessionID svc = sv_sessionID svc0"
  using notify_keeps_session by (auto simp: read_lookup_def split: bind_splits sum.splits if_splits)

lemma other_keeps:
  assumes "other_step c (Some c')" "client_ok c" "cl_calls c ch = Some s"
  shows "sv_chans (cl_svc c') ch = sv_chans (cl_svc c) ch"
proof -
  have "ch \<noteq> sv_next (cl_svc c)" "ch \<notin> cl_closing c" using client_okD(3,5) [OF assms(2)] assms(3) by fastforce+
  from assms(1) this show ?thesis
    by (cases rule: other_step.cases)
      (auto simp: CallNoReturn_eq Let_def send_udp_def Subscribe_eq subscribed_def unsubscribe_locked_def Unsubscribe_eq
        close_once_def close_chan_def Service_Close_def split: option.splits if_splits)
qed

lemma other_draws:
  assumes "other_step c (Some c')"
  shows "sv_sessionID (cl_svc c') \<in> {sv_sessionID (cl_svc c), sv_sessionID (cl_svc c) + 1}"
  using assms
  by (cases rule: other_step.cases)
    (auto simp: CallNoReturn_eq Let_def send_udp_def Subscribe_eq subscribed_def unsubscribe_locked_def Unsubscribe_eq
      close_once_def close_chan_def Service_Close_def split: option.splits if_splits)

section \<open>Every entry stays its call's own\<close>

lemma own_goes:
  assumes own: "own_entries n c" and svc: "sv_sessionID svc = sv_sessionID (f_svc c)" "sv_pending svc = sv_pending (f_svc c)"
    "\<And>ch. ch_cap (sv_chans svc ch) = ch_cap (sv_chans (f_svc c) ch)"
    and pc: "number_of pc' = (case f_pcs c t of None \<Rightarrow> None | Some pc \<Rightarrow> number_of pc)" "holds pc' = (case f_pcs c t of None \<Rightarrow> None | Some pc \<Rightarrow> holds pc)"
  shows "own_entries n (f_goes c t svc pc')"
proof -
  note d = own_entriesD [OF own]
  have old: "\<exists>p. f_pcs c x = Some p \<and> number_of p = number_of q \<and> holds p = holds q"
    if "((f_pcs c)(t \<mapsto> pc')) x = Some q" "number_of q \<noteq> None" for x q
    using that pc by (cases "f_pcs c t") (auto split: if_splits)
  show ?thesis
  proof (rule own_entriesI, goal_cases)
    case 1
    then show ?case using d(1) svc(1) by (simp add: f_goes_def)
  next
    case (2 x q s)
    then show ?case using old [of x q] d(2) by (auto simp: f_goes_def)
  next
    case (3 x q x' q' s)
    then show ?case using old [of x q] old [of x' q'] d(3) [of x _ x'] by (force simp: f_goes_def)
  next
    case (4 x q s ch)
    then have "number_of q = Some s" using holds_number by blast
    then obtain p where "f_pcs c x = Some p" "holds p = Some (s, ch)" using old [of x q] 4 by (auto simp: f_goes_def)
    then show ?case using d(4,5) svc(2,3) by (simp add: f_goes_def)
  qed
qed

lemma own_client:
  assumes own: "own_entries n c" and "n \<le> unat (sv_sessionID (cl_svc cl))" "sv_pending (cl_svc cl) = sv_pending (f_svc c)"
    and "\<And>t pc s ch. f_pcs c t = Some pc \<Longrightarrow> holds pc = Some (s, ch) \<Longrightarrow> ch_cap (sv_chans (cl_svc cl) ch) = ch_cap (sv_chans (f_svc c) ch)"
  shows "own_entries (unat (sv_sessionID (cl_svc cl))) (c\<lparr>f_client := cl, f_read := r\<rparr>)"
proof -
  note d = own_entriesD [OF own]
  show ?thesis
  proof (rule own_entriesI, goal_cases)
    case (2 t pc s)
    then have "unat s \<le> n" using d(2) by simp
    then show ?case using assms(2) by simp
  next
    case (3 t pc t' pc' s)
    then show ?case using d(3) [of t pc t' pc'] by simp
  next
    case (4 t pc s ch)
    then show ?case using d(4,5) [of t pc s ch] assms(3) assms(4) [of t pc s ch] by simp
  qed simp
qed

lemma own_numbered:
  assumes own: "own_entries n c" and "n < 65535" and t: "f_pcs c t = Some (Passed m p)"
  shows "own_entries (Suc n) (f_goes c t ((f_svc c)\<lparr>sv_sessionID := sv_sessionID (f_svc c) + 1\<rparr>) (Numbered m p (sv_sessionID (f_svc c) + 1)))"
proof -
  note d = own_entriesD [OF own]
  have n: "unat (sv_sessionID (f_svc c) + 1) = Suc n" using d(1) assms(2) by (simp add: unat_plus_if')
  have new: "number_of pc \<noteq> Some (sv_sessionID (f_svc c) + 1)" if "f_pcs c x = Some pc" for x pc using d(2) [OF that] n by fastforce
  show ?thesis
  proof (rule own_entriesI, goal_cases)
    case 1
    then show ?case using n by (simp add: f_goes_def)
  next
    case (2 x pc s)
    then show ?case using d(2) [of x pc s] n by (auto simp: f_goes_def split: if_splits)
  next
    case (3 x pc x' pc' s)
    then show ?case using d(3) [of x pc x' pc' s] new [of x pc] new [of x' pc'] by (auto simp: f_goes_def split: if_splits)
  next
    case (4 x pc s ch)
    then show ?case using d(4,5) [of x pc s ch] by (auto simp: f_goes_def split: if_splits)
  qed
qed

lemma own_entered:
  assumes own: "own_entries n c" and ok: "sections_ok c" and t: "f_pcs c t = Some (Numbered m p s)"
  shows "own_entries n (c\<lparr>f_client := (f_client c)\<lparr>cl_svc := entered (f_svc c) s, cl_calls := cc\<rparr>, f_pcs := (f_pcs c)(t \<mapsto> Entered m p s (sv_next (f_svc c)))\<rparr>)"
proof -
  note d = own_entriesD [OF own]
  have other: "number_of pc \<noteq> Some s" if "f_pcs c x = Some pc" "x \<noteq> t" for x pc using d(3) [OF that(1) t] that(2) by auto
  have ne: "ch \<noteq> sv_next (f_svc c)" if "f_pcs c x = Some pc" "holds pc = Some (s', ch)" for x pc s' ch
    using ok_fresh(2) [OF sections_okD(1) [OF ok]] sections_okD(3) [OF ok that] by auto
  show ?thesis
  proof (rule own_entriesI, goal_cases)
    case 1
    then show ?case using d(1) by (simp add: entered_def)
  next
    case (2 x pc s')
    then show ?case using d(2) [of x pc s'] d(2) [OF t] by (auto split: if_splits)
  next
    case (3 x pc x' pc' s')
    then show ?case using d(3) [of x pc x' pc' s'] other [of x pc] other [of x' pc'] by (auto split: if_splits)
  next
    case (4 x pc s' ch)
    show ?case
    proof (cases "x = t")
      case True
      then show ?thesis using 4 by (auto simp: entered_def)
    next
      case False
      then have x: "f_pcs c x = Some pc" using 4 by simp
      then have "s' \<noteq> s" using other False holds_number 4(2) by blast
      then show ?thesis using d(4,5) [OF x 4(2)] ne [OF x 4(2)] by (simp add: entered_def)
    qed
  qed
qed

lemma own_left:
  assumes own: "own_entries n c" and t: "f_pcs c t = Some (Leaving s ch r)"
  shows "own_entries n (f_goes c t (Call_end (f_svc c) s) (Returned (Some s) r))"
proof -
  note d = own_entriesD [OF own]
  have other: "number_of pc \<noteq> Some s" if "f_pcs c x = Some pc" "x \<noteq> t" for x pc using d(3) [OF that(1) t] that(2) by auto
  show ?thesis
  proof (rule own_entriesI, goal_cases)
    case 1
    then show ?case using d(1) by (simp add: f_goes_def Call_end_def)
  next
    case (2 x pc s')
    then show ?case using d(2) [of x pc s'] d(2) [OF t] by (auto simp: f_goes_def split: if_splits)
  next
    case (3 x pc x' pc' s')
    then show ?case using d(3) [of x pc x' pc' s'] other [of x pc] other [of x' pc'] by (auto simp: f_goes_def split: if_splits)
  next
    case (4 x pc s' ch')
    then have x: "f_pcs c x = Some pc" "x \<noteq> t" by (auto simp: f_goes_def split: if_splits)
    then have "s' \<noteq> s" using other holds_number 4(2) by blast
    then show ?case using d(4,5) [OF x(1) 4(2)] by (simp add: f_goes_def Call_end_def)
  qed
qed

lemma send_chan_keeps:
  "send_chan svc ch m = Some svc' \<Longrightarrow> sv_sessionID svc' = sv_sessionID svc \<and> sv_pending svc' = sv_pending svc
    \<and> (\<forall>x. ch_cap (sv_chans svc' x) = ch_cap (sv_chans svc x)) \<and> (\<forall>x. x \<noteq> ch \<longrightarrow> sv_chans svc' x = sv_chans svc x)"
  by (auto simp: send_chan_def try_send_def split: bind_splits if_splits)

lemma Call_wake_keeps:
  "Call_wake svc ch w = Some (svc', r) \<Longrightarrow> sv_sessionID svc' = sv_sessionID svc \<and> sv_pending svc' = sv_pending svc
    \<and> (\<forall>x. ch_cap (sv_chans svc' x) = ch_cap (sv_chans svc x)) \<and> (\<forall>x. x \<noteq> ch \<longrightarrow> sv_chans svc' x = sv_chans svc x)"
  by (auto simp: Call_wake_def recv_def split: wake.splits option.splits list.splits)

lemma own_step:
  assumes own: "own_entries n c" and ok: "sections_ok c" and step: "section_step c (Some c')"
    and n': "n' = (if sv_sessionID (f_svc c') = sv_sessionID (f_svc c) then n else Suc n)" "n' < 65536"
  shows "own_entries n' c'"
proof -
  note d = own_entriesD [OF own]
  note cl = sections_okD(1) [OF ok]
  have calls: "f_pcs c t = Some pc \<Longrightarrow> holds pc = Some (s, ch) \<Longrightarrow> cl_calls (f_client c) ch = Some s" for t pc s ch using sections_okD(3) [OF ok] .
  have next_n: "s \<noteq> sv_sessionID (f_svc c) \<Longrightarrow> s = sv_sessionID (f_svc c) + 1 \<Longrightarrow> n < 65535 \<Longrightarrow> unat s = Suc n" for s
    using d(1) by (simp add: unat_plus_if')
  from step show ?thesis
  proof cases
    case (fs_test t m p)
    then show ?thesis using own_goes [OF own, of "f_svc c" "Call_test (f_svc c) m p" t] n' by (simp add: Call_test_def f_goes_def)
  next
    case (fs_number t m p svc s)
    then have v: "svc = (f_svc c)\<lparr>sv_sessionID := sv_sessionID (f_svc c) + 1\<rparr>" "s = sv_sessionID (f_svc c) + 1"
      by (auto simp: nextSession_def Let_def)
    have "n' = Suc n" using n'(1) fs_number(1) by (simp add: f_goes_def v)
    then show ?thesis using own_numbered [OF own _ fs_number(2)] n'(2) fs_number(1) by (simp add: v)
  next
    case (fs_enter t m p s)
    let ?cc = "(cl_calls (f_client c))(sv_next (f_svc c) \<mapsto> s)"
    have "c' = c\<lparr>f_client := (f_client c)\<lparr>cl_svc := entered (f_svc c) s, cl_calls := ?cc\<rparr>, f_pcs := (f_pcs c)(t \<mapsto> Entered m p s (sv_next (f_svc c)))\<rparr>"
      using fs_enter(1) by (cases c) (simp add: Call_enter_eq f_goes_def)
    moreover from this have "n' = n" using n'(1) by (simp add: entered_def)
    ultimately show ?thesis using own_entered [OF own ok fs_enter(2), of ?cc] by simp
  next
    case (fs_write t m p s ch wr)
    let ?f = "wire (request (f_svc c) m s MsgTypeRequest p)"
    have g: "own_entries n (f_goes c t svc pc)" if "svc = f_svc c \<or> svc = send_udp (f_svc c) ?f" "holds pc = Some (s, ch)" "number_of pc = Some s"
      for svc pc
      using own_goes [OF own, of svc pc t] fs_write(2) that by (auto simp: send_udp_def)
    show ?thesis
    proof (cases "wr ?f")
      case None
      then have c': "c' = f_goes c t (send_udp (f_svc c) ?f) (Selecting s ch)" using fs_write(1) by (simp add: Call_write_eq)
      then have "n' = n" using n'(1) by (simp add: f_goes_def send_udp_def)
      then show ?thesis unfolding c' using g by simp
    next
      case (Some e)
      then have c': "c' = f_goes c t (f_svc c) (Leaving s ch (Inl (Errorf ''udp: send'' e)))" using fs_write(1) by (simp add: Call_write_eq)
      then have "n' = n" using n'(1) by (simp add: f_goes_def)
      then show ?thesis unfolding c' using g by simp
    qed
  next
    case (fs_wake t s ch w svc r)
    note k = Call_wake_keeps [OF fs_wake(3)]
    have "own_entries n (f_goes c t svc (Leaving s ch r))" using own_goes [OF own] k fs_wake(2) by simp
    then show ?thesis using fs_wake(1) n'(1) k by (simp add: f_goes_def)
  next
    case (fs_leave t s ch r)
    then show ?thesis using own_left [OF own fs_leave(2)] n'(1) by (simp add: f_goes_def Call_end_def)
  next
    case (fs_lookup frame)
    then obtain svc r where l: "read_lookup (f_svc c) frame = Some (svc, r)"
      "c' = c\<lparr>f_client := (f_client c)\<lparr>cl_svc := svc\<rparr>, f_read := r\<rparr>"
      by (cases "read_lookup (f_svc c) frame") auto
    have k: "sv_sessionID svc = sv_sessionID (f_svc c)" "sv_pending svc = sv_pending (f_svc c)"
      using lookup_keeps_session [OF l(1)] ok_lookup [OF cl, of frame] l(1) by auto
    have "own_entries (unat (sv_sessionID (cl_svc ((f_client c)\<lparr>cl_svc := svc\<rparr>)))) (c\<lparr>f_client := (f_client c)\<lparr>cl_svc := svc\<rparr>, f_read := r\<rparr>)"
      using k d(1) lookup_keeps [OF l(1) cl calls] by (intro own_client [OF own]) auto
    then show ?thesis using l(2) n'(1) k d(1) by simp
  next
    case (fs_hand ch m)
    then obtain svc where l: "send_chan (f_svc c) ch m = Some svc" "c' = c\<lparr>f_client := (f_client c)\<lparr>cl_svc := svc\<rparr>, f_read := None\<rparr>"
      by (cases "send_chan (f_svc c) ch m") auto
    note k = send_chan_keeps [OF l(1)]
    have "own_entries (unat (sv_sessionID (cl_svc ((f_client c)\<lparr>cl_svc := svc\<rparr>)))) (c\<lparr>f_client := (f_client c)\<lparr>cl_svc := svc\<rparr>, f_read := None\<rparr>)"
      using k d(1) by (intro own_client [OF own]) auto
    then show ?thesis using l(2) n'(1) k d(1) by simp
  next
    case (fs_other r)
    then obtain cl' where l: "other_step (f_client c) (Some cl')" "c' = c\<lparr>f_client := cl'\<rparr>" by (cases r) auto
    have k: "sv_pending (cl_svc cl') = sv_pending (f_svc c)" using other_step_ok [OF l(1) cl] by simp
    have n: "unat (sv_sessionID (cl_svc cl')) = n'" using other_draws [OF l(1)] next_n n' d(1) l(2) by (auto split: if_splits)
    have "own_entries (unat (sv_sessionID (cl_svc cl'))) (c\<lparr>f_client := cl', f_read := f_read c\<rparr>)"
      using k n n'(1) other_keeps [OF l(1) cl calls] by (intro own_client [OF own]) (auto split: if_splits)
    then show ?thesis using l(2) n by (cases c) simp
  qed
qed

lemma drawn_own: "drawn n c \<Longrightarrow> n < 65536 \<Longrightarrow> own_entries n c"
proof (induction rule: drawn.induct)
  case (drawn_new resolve listen addr sid iid t svc)
  then show ?case by (auto simp: own_entries_def NewService_def split: sum.splits option.splits)
next
  case (drawn_next n c c')
  then have "n < 65536" by (auto split: if_splits)
  then show ?case
    using drawn_next own_step [OF _ sections_reachable_ok [OF drawn_reachable [OF drawn_next.hyps(1)]] drawn_next.hyps(2)] by blast
qed

section \<open>An answer on its way\<close>

text \<open>The read loop holds the answer, or it is the first in the channel of the call.\<close>

definition on_its_way :: "calls \<Rightarrow> nat \<Rightarrow> u16 \<Rightarrow> nat \<Rightarrow> message \<Rightarrow> bool" where
  "on_its_way c t s ch m \<longleftrightarrow> f_pcs c t = Some (Selecting s ch) \<and> ch_cap (sv_chans (f_svc c) ch) = 1 \<and>
     (f_read c = Some (ch, m) \<and> ch_queue (sv_chans (f_svc c) ch) = [] \<or> (\<exists>xs. ch_queue (sv_chans (f_svc c) ch) = m # xs))"

text \<open>A step after which the call is where it was.\<close>

definition call_stays :: "nat \<Rightarrow> calls \<Rightarrow> calls \<Rightarrow> bool" where
  "call_stays t c c' \<longleftrightarrow> section_step c (Some c') \<and> f_pcs c' t = f_pcs c t"

lemma on_its_way_kept:
  "on_its_way c t s ch m \<Longrightarrow> f_pcs c' t = f_pcs c t \<Longrightarrow> sv_chans (f_svc c') ch = sv_chans (f_svc c) ch \<Longrightarrow>
   f_read c' = f_read c \<or> f_read c = None \<Longrightarrow> on_its_way c' t s ch m"
  unfolding on_its_way_def by auto

lemma on_its_way_step:
  assumes way: "on_its_way c t s ch m" and ok: "sections_ok c" and st: "call_stays t c c'"
  shows "on_its_way c' t s ch m"
proof -
  have t: "f_pcs c t = Some (Selecting s ch)" and same: "f_pcs c' t = f_pcs c t" and step: "section_step c (Some c')"
    using way st unfolding on_its_way_def call_stays_def by blast+
  have calls: "cl_calls (f_client c) ch = Some s" using sections_okD(3) [OF ok t] by simp
  note cl = sections_okD(1) [OF ok]
  note keep = on_its_way_kept [OF way same]
  have op: "\<not> ch_closed (sv_chans (f_svc c) ch)" "ch \<noteq> sv_next (f_svc c)" using client_okD(3) [OF cl calls] by auto
  from step show ?thesis
  proof cases
    case (fs_number u mm p svc k)
    then show ?thesis by (intro keep) (auto simp: f_goes_def nextSession_def Let_def)
  next
    case (fs_enter u mm p k)
    then show ?thesis using op(2) by (intro keep) (auto simp: f_goes_def Call_enter_eq entered_def)
  next
    case (fs_write u mm p k x wr)
    then show ?thesis
      by (intro keep) (auto simp: f_goes_def Call_write_eq Let_def send_udp_def split: option.splits)
  next
    case (fs_wake u k x w svc r)
    have "x \<noteq> ch"
    proof
      assume "x = ch"
      then have "u = t" using sections_okD(4) [OF ok fs_wake(2) t] by simp
      then show False using same t fs_wake(1) by (simp add: f_goes_def)
    qed
    then show ?thesis using fs_wake(1) Call_wake_keeps [OF fs_wake(3)] by (intro keep) (auto simp: f_goes_def)
  next
    case (fs_lookup frame)
    then obtain svc r where l: "read_lookup (f_svc c) frame = Some (svc, r)"
      "c' = c\<lparr>f_client := (f_client c)\<lparr>cl_svc := svc\<rparr>, f_read := r\<rparr>"
      by (cases "read_lookup (f_svc c) frame") auto
    then show ?thesis using lookup_keeps [OF l(1) cl calls] fs_lookup(2) by (intro keep) auto
  next
    case (fs_hand x mm)
    then obtain svc where l: "send_chan (f_svc c) x mm = Some svc" "c' = c\<lparr>f_client := (f_client c)\<lparr>cl_svc := svc\<rparr>, f_read := None\<rparr>"
      by (cases "send_chan (f_svc c) x mm") auto
    show ?thesis
    proof (cases "x = ch")
      case True
      have q: "ch_cap (sv_chans (f_svc c) ch) = 1" using way unfolding on_its_way_def by blast
      from way have "mm = m \<and> ch_queue (sv_chans (f_svc c) ch) = [] \<or> (\<exists>xs. ch_queue (sv_chans (f_svc c) ch) = m # xs)"
        using fs_hand(2) True unfolding on_its_way_def by auto
      then show ?thesis using l True q op(1) t
        by (auto simp: on_its_way_def send_chan_def try_send_def split: bind_splits if_splits)
    next
      case False
      then have "sv_chans svc ch = sv_chans (f_svc c) ch" using send_chan_keeps [OF l(1)] by auto
      then show ?thesis using way fs_hand(2) False l(2) unfolding on_its_way_def by auto
    qed
  next
    case (fs_other r)
    then obtain cl' where l: "other_step (f_client c) (Some cl')" "c' = c\<lparr>f_client := cl'\<rparr>" by (cases r) auto
    then show ?thesis using other_keeps [OF l(1) cl calls] by (intro keep) auto
  qed (intro keep; auto simp: f_goes_def Call_end_def)+
qed

lemma on_its_way_stays:
  "(call_stays t)\<^sup>*\<^sup>* c c' \<Longrightarrow> on_its_way c t s ch m \<Longrightarrow> sections_ok c \<Longrightarrow> on_its_way c' t s ch m \<and> sections_ok c'"
proof (induction rule: rtranclp_induct)
  case (step c1 c2)
  then have "on_its_way c2 t s ch m" using on_its_way_step by blast
  moreover have "sections_ok c2" using step section_step_ok unfolding call_stays_def by blast
  ultimately show ?case by blast
qed simp

lemma read_lookup_response:
  assumes "response_frame m"
  shows "read_lookup svc (wire m) = Some (svc, map_option (\<lambda>ch. (ch, m)) (sv_pending svc (SessionID m)))"
proof -
  have "Decode (wire m) = Some (Inr (m\<lparr>ProtocolVersion := 1\<rparr>))" using assms by (intro Decode_wire) (simp add: response_frame_def)
  moreover have "m\<lparr>ProtocolVersion := 1\<rparr> = m" using assms by (simp add: response_frame_def)
  ultimately show ?thesis
    using assms by (auto simp: read_lookup_def response_frame_def is_sd_def msg_types)
qed

section \<open>Properties\<close>

text \<open>C9: an answer is not lost. A client has drawn fewer than 65536 session numbers, a call waits, its channel is empty, and the read
  loop reads the answer. It finds the call; and from then on, whatever steps other calls, subscriptions, closes and the read
  loop take, as long as the call itself goes on waiting, either the read loop holds the answer and has nothing else to do
  than to hand it over, or the \<open>select\<close> of the call can take it, before any other.\<close>

theorem answer_not_lost:
  assumes "drawn n c" "n < 65536" "f_pcs c t = Some (Selecting s ch)" "f_read c = None"
    and "ch_queue (sv_chans (f_svc c) ch) = []" "response_frame m" "SessionID m = s"
  shows "read_lookup (f_svc c) (wire m) = Some (f_svc c, Some (ch, m)) \<and>
    section_step c (Some (c\<lparr>f_read := Some (ch, m)\<rparr>)) \<and>
    (\<forall>c'. (call_stays t)\<^sup>*\<^sup>* (c\<lparr>f_read := Some (ch, m)\<rparr>) c' \<longrightarrow>
       f_read c' = Some (ch, m) \<and> send_chan (f_svc c') ch m \<noteq> None \<or>
       (\<exists>svc. Call_wake (f_svc c') ch Woken_by_response = Some (svc, Inr m)))"
proof (intro conjI allI impI)
  note own = own_entriesD [OF drawn_own [OF assms(1,2)]]
  have p: "sv_pending (f_svc c) s = Some ch" "ch_cap (sv_chans (f_svc c) ch) = 1" using own(4,5) [OF assms(3)] by simp_all
  show l: "read_lookup (f_svc c) (wire m) = Some (f_svc c, Some (ch, m))" using read_lookup_response [OF assms(6)] p(1) assms(7) by simp
  show step: "section_step c (Some (c\<lparr>f_read := Some (ch, m)\<rparr>))" using fs_lookup [OF assms(4), of "wire m"] l by simp
  have ok: "sections_ok (c\<lparr>f_read := Some (ch, m)\<rparr>)"
    using section_step_ok [OF step sections_reachable_ok [OF drawn_reachable [OF assms(1)]]] by simp
  have way: "on_its_way (c\<lparr>f_read := Some (ch, m)\<rparr>) t s ch m" using assms(3,5) p(2) by (simp add: on_its_way_def)
  fix c'
  assume "(call_stays t)\<^sup>*\<^sup>* (c\<lparr>f_read := Some (ch, m)\<rparr>) c'"
  from on_its_way_stays [OF this way ok] have w: "on_its_way c' t s ch m" and ok': "sections_ok c'" by simp_all
  show "f_read c' = Some (ch, m) \<and> send_chan (f_svc c') ch m \<noteq> None \<or> (\<exists>svc. Call_wake (f_svc c') ch Woken_by_response = Some (svc, Inr m))"
  proof (cases "ch_queue (sv_chans (f_svc c') ch)")
    case Nil
    then have "f_read c' = Some (ch, m)" using w by (simp add: on_its_way_def)
    moreover from this have "send_chan (f_svc c') ch m \<noteq> None" using section_step_ok [OF fs_hand ok'] by fastforce
    ultimately show ?thesis by blast
  next
    case (Cons x xs)
    then show ?thesis using w by (auto simp: on_its_way_def Call_wake_def recv_def)
  qed
qed

lemma drawn_same: "drawn n c \<Longrightarrow> section_step c (Some c') \<Longrightarrow> sv_sessionID (f_svc c') = sv_sessionID (f_svc c) \<Longrightarrow> drawn n c'"
  using drawn_next [of n c c'] by simp

text \<open>A client with one call that waits.\<close>

lemma drawn_waiting:
  "\<exists>c. drawn 1 c \<and> f_pcs c 0 = Some (Selecting 1 0) \<and> f_read c = None \<and> ch_queue (sv_chans (f_svc c) 0) = []"
proof -
  let ?st = "\<lambda>svc calls pc. \<lparr>f_client = \<lparr>cl_svc = svc, cl_calls = calls, cl_subs = Map.empty, cl_closing = {}\<rparr>, f_pcs = [0 \<mapsto> pc], f_read = None\<rparr>"
  let ?svc1 = "sample_service\<lparr>sv_sessionID := 1\<rparr>"
  let ?svc2 = "send_udp (entered ?svc1 1) (wire (request (entered ?svc1 1) 1 1 MsgTypeRequest [7]))"
  have new: "NewService (\<lambda>_. Inr sample_addr) None [] 0x1234 1 0 = Inr sample_service" by (simp add: NewService_def sample_service_def)
  have v: "sv_closed sample_service = False" "sv_sessionID sample_service = 0" "sv_next ?svc1 = 0" by (simp_all add: sample_service_def)
  have "drawn 0 (?st sample_service Map.empty (Passed 1 [7]))"
    using drawn_next [OF drawn_new [OF new] fs_test [of _ 0 1 "[7]"]] by (simp add: f_goes_def Call_test_def v)
  from drawn_next [OF this fs_number [of _ 0 1 "[7]" ?svc1 1]] have "drawn 1 (?st ?svc1 Map.empty (Numbered 1 [7] 1))"
    by (simp add: f_goes_def nextSession_def v)
  moreover have "section_step (?st ?svc1 Map.empty (Numbered 1 [7] 1)) (Some (?st (entered ?svc1 1) [0 \<mapsto> 1] (Entered 1 [7] 1 0)))"
    using fs_enter [of "?st ?svc1 Map.empty (Numbered 1 [7] 1)" 0 1 "[7]" 1] by (simp add: f_goes_def Call_enter_eq v(3))
  ultimately have "drawn 1 (?st (entered ?svc1 1) [0 \<mapsto> 1] (Entered 1 [7] 1 0))" by (rule drawn_same) (simp add: entered_def)
  moreover have "section_step (?st (entered ?svc1 1) [0 \<mapsto> 1] (Entered 1 [7] 1 0)) (Some (?st ?svc2 [0 \<mapsto> 1] (Selecting 1 0)))"
    using fs_write [of "?st (entered ?svc1 1) [0 \<mapsto> 1] (Entered 1 [7] 1 0)" 0 1 "[7]" 1 0 "\<lambda>_. None"] by (simp add: f_goes_def Call_write_eq)
  ultimately have "drawn 1 (?st ?svc2 [0 \<mapsto> 1] (Selecting 1 0))" by (rule drawn_same) (simp add: entered_def send_udp_def)
  moreover have "ch_queue (sv_chans ?svc2 0) = []" by (simp add: entered_def send_udp_def v(3))
  ultimately show ?thesis by (intro exI [of _ "?st ?svc2 [0 \<mapsto> 1] (Selecting 1 0)"]) simp
qed

theorem answer_not_lost_witness:
  "\<exists>c. let resp = zero_message\<lparr>SessionID := 1, ProtocolVersion := 1, MessageType := MsgTypeResponse, Payload := [7]\<rparr> in
     drawn 1 c \<and> f_pcs c 0 = Some (Selecting 1 0) \<and> section_step c (Some (c\<lparr>f_read := Some (0, resp)\<rparr>)) \<and>
     (\<exists>c' svc. (call_stays 0)\<^sup>*\<^sup>* (c\<lparr>f_read := Some (0, resp)\<rparr>) c' \<and> f_read c' = None \<and>
        Call_wake (f_svc c') 0 Woken_by_response = Some (svc, Inr resp))"
proof -
  let ?m = "zero_message\<lparr>SessionID := 1, ProtocolVersion := 1, MessageType := MsgTypeResponse, Payload := [7]\<rparr>"
  obtain c where c: "drawn 1 c" "f_pcs c 0 = Some (Selecting 1 0)" "f_read c = None" "ch_queue (sv_chans (f_svc c) 0) = []"
    using drawn_waiting by blast
  let ?c1 = "c\<lparr>f_read := Some (0, ?m)\<rparr>"
  have m: "response_frame ?m" "SessionID ?m = 1" by (simp_all add: response_frame_def fits_def is_sd_def zero_message_def SDServiceID_def)
  have one: "(1 :: nat) < 65536" by simp
  from answer_not_lost [OF c(1) one c(2-4) m] have st: "section_step c (Some ?c1)"
    and all: "\<forall>c'. (call_stays 0)\<^sup>*\<^sup>* ?c1 c' \<longrightarrow> f_read c' = Some (0, ?m) \<and> send_chan (f_svc c') 0 ?m \<noteq> None \<or>
       (\<exists>svc. Call_wake (f_svc c') 0 Woken_by_response = Some (svc, Inr ?m))" by blast+
  have "send_chan (f_svc ?c1) 0 ?m \<noteq> None"
    using all [rule_format, OF rtranclp.rtrancl_refl] c(4) by (auto simp: Call_wake_def recv_def)
  then obtain svc where "send_chan (f_svc ?c1) 0 ?m = Some svc" by blast
  then have "section_step ?c1 (Some (?c1\<lparr>f_client := (f_client ?c1)\<lparr>cl_svc := svc\<rparr>, f_read := None\<rparr>))"
    using fs_hand [of ?c1 0 ?m] by simp
  then have "(call_stays 0)\<^sup>*\<^sup>* ?c1 (?c1\<lparr>f_client := (f_client ?c1)\<lparr>cl_svc := svc\<rparr>, f_read := None\<rparr>)"
    by (intro r_into_rtranclp) (simp add: call_stays_def)
  moreover from this obtain svc' where "Call_wake (f_svc (?c1\<lparr>f_client := (f_client ?c1)\<lparr>cl_svc := svc\<rparr>, f_read := None\<rparr>)) 0 Woken_by_response = Some (svc', Inr ?m)"
    using all by force
  ultimately show ?thesis using c(1,2) st unfolding Let_def
    by - (rule exI [of _ c], intro conjI, assumption+, rule exI [of _ "?c1\<lparr>f_client := (f_client ?c1)\<lparr>cl_svc := svc\<rparr>, f_read := None\<rparr>"], rule exI [of _ svc'], simp)
qed

end
