(* ===== verification/Goroutines.thy ===== *)
theory Goroutines
  imports Interfaces
begin

text \<open>
  Goroutines that share a server, each with one operation: it may test the flag \<open>closed\<close>, it has one section under the
  lock, and then it writes what it has to write, one item at a time. A write to a socket may fail, and does when the socket
  has been closed or the item is too long for it; the code ignores it. The locale \<open>serial_sections\<close> says when such a server
  is one that performs its operations one after another.
\<close>

section \<open>The steps\<close>

text \<open>An operation that has begun; that has passed the test; that has left the lock and has items to write.\<close>

datatype ('x, 'e) go_pc = Begun 'x | Admitted 'x | Writing 'x "'e list"

primrec op_of :: "('x, 'e) go_pc \<Rightarrow> 'x" where
  "op_of (Begun x) = x"
| "op_of (Admitted x) = x"
| "op_of (Writing x es) = x"

fun to_write :: "('x, 'e) go_pc option \<Rightarrow> 'e list" where
  "to_write (Some (Writing x es)) = es"
| "to_write _ = []"

text \<open>The code of a server: which operations test the flag; what a refused one writes; the section under the lock,
  with what is then to be written; the flag; the log of what was written; the socket an item is written to, if it is; whether
  the item fits it; which sockets may be closed in a state.\<close>

record ('s, 'x, 'e) sections =
  sc_gated :: "'x \<Rightarrow> bool"
  sc_refuse :: "'s \<Rightarrow> 'x \<Rightarrow> 'e list"
  sc_enter :: "'s \<Rightarrow> 'x \<Rightarrow> 's \<times> 'e list"
  sc_closed :: "'s \<Rightarrow> bool"
  sc_shut :: "'s \<Rightarrow> 's"
  sc_note :: "'s \<Rightarrow> 'e list \<Rightarrow> 's"
  sc_via :: "'e \<Rightarrow> nat option"
  sc_fits :: "'e \<Rightarrow> bool"
  sc_may_cut :: "'s \<Rightarrow> nat \<Rightarrow> bool"

text \<open>Why a write had no effect: the socket is closed, the item too long, or the operating system refused it.\<close>

datatype failure = Cut | Too_long | Refused

text \<open>The closed sockets, and the writes that had no effect, are not in the state of the server.\<close>

record ('s, 'x, 'e) goroutines =
  go_state :: 's
  go_pcs :: "nat \<rightharpoonup> ('x, 'e) go_pc"
  go_cut :: "nat set"
  go_lost :: "('e \<times> failure) list"

definition go_start :: "'s \<Rightarrow> ('s, 'x, 'e) goroutines" where
  "go_start s = \<lparr>go_state = s, go_pcs = Map.empty, go_cut = {}, go_lost = []\<rparr>"

definition go_on :: "('s, 'x, 'e) goroutines \<Rightarrow> nat \<Rightarrow> 's \<Rightarrow> ('x, 'e) go_pc \<Rightarrow> ('s, 'x, 'e) goroutines" where
  "go_on c t s pc = c\<lparr>go_state := s, go_pcs := (go_pcs c)(t \<mapsto> pc)\<rparr>"

definition must_fail :: "('s, 'x, 'e) sections \<Rightarrow> nat set \<Rightarrow> 'e \<Rightarrow> failure option" where
  "must_fail K gone e =
     (case sc_via K e of
        None \<Rightarrow> None
      | Some d \<Rightarrow> if d \<in> gone then Some Cut else if \<not> sc_fits K e then Some Too_long else None)"

definition go_fails :: "('s, 'x, 'e) goroutines \<Rightarrow> nat \<Rightarrow> ('x, 'e) go_pc \<Rightarrow> 'e \<Rightarrow> failure \<Rightarrow> ('s, 'x, 'e) goroutines" where
  "go_fails c t pc e why = (go_on c t (go_state c) pc)\<lparr>go_lost := go_lost c @ [(e, why)]\<rparr>"

inductive go_step :: "('s, 'x, 'e) sections \<Rightarrow> ('s, 'x, 'e) goroutines \<Rightarrow> ('s, 'x, 'e) goroutines \<Rightarrow> bool" for K where
  go_begin: "go_pcs c t = None \<Longrightarrow> go_step K c (go_on c t (go_state c) (Begun x))"
| go_refused: "go_pcs c t = Some (Begun x) \<Longrightarrow> sc_gated K x \<Longrightarrow> sc_closed K (go_state c) \<Longrightarrow>
    go_step K c (go_on c t (go_state c) (Writing x (sc_refuse K (go_state c) x)))"
| go_admitted: "go_pcs c t = Some (Begun x) \<Longrightarrow> sc_gated K x \<Longrightarrow> \<not> sc_closed K (go_state c) \<Longrightarrow>
    go_step K c (go_on c t (go_state c) (Admitted x))"
| go_enter: "go_pcs c t = Some (Admitted x) \<or> go_pcs c t = Some (Begun x) \<and> \<not> sc_gated K x \<Longrightarrow>
    sc_enter K (go_state c) x = (s, es) \<Longrightarrow> go_step K c (go_on c t s (Writing x es))"
| go_write: "go_pcs c t = Some (Writing x (e # es)) \<Longrightarrow> must_fail K (go_cut c) e = None \<Longrightarrow>
    go_step K c (go_on c t (sc_note K (go_state c) [e]) (Writing x es))"
| go_fail: "go_pcs c t = Some (Writing x (e # es)) \<Longrightarrow> sc_via K e \<noteq> None \<Longrightarrow>
    why = (case must_fail K (go_cut c) e of Some y \<Rightarrow> y | None \<Rightarrow> Refused) \<Longrightarrow> go_step K c (go_fails c t (Writing x es) e why)"
| go_shut: "go_step K c (c\<lparr>go_state := sc_shut K (go_state c)\<rparr>)"
| go_unplug: "sc_may_cut K (go_state c) d \<Longrightarrow> go_step K c (c\<lparr>go_cut := insert d (go_cut c)\<rparr>)"

inductive go_reachable :: "('s, 'x, 'e) sections \<Rightarrow> 's \<Rightarrow> ('s, 'x, 'e) goroutines \<Rightarrow> bool" for K s0 where
  go_new: "go_reachable K s0 (go_start s0)"
| go_next: "go_reachable K s0 c \<Longrightarrow> go_step K c c' \<Longrightarrow> go_reachable K s0 c'"

text \<open>The next step of a goroutine, as a function, and a schedule: whose turn it is.\<close>

definition go_turn :: "('s, 'x, 'e) sections \<Rightarrow> ('s, 'x, 'e) goroutines \<Rightarrow> nat \<Rightarrow> ('s, 'x, 'e) goroutines" where
  "go_turn K c t =
     (let s = go_state c; enter = (\<lambda>x. case sc_enter K s x of (s', es) \<Rightarrow> go_on c t s' (Writing x es))
      in case go_pcs c t of
           Some (Begun x) \<Rightarrow>
             if \<not> sc_gated K x then enter x
             else if sc_closed K s then go_on c t s (Writing x (sc_refuse K s x)) else go_on c t s (Admitted x)
         | Some (Admitted x) \<Rightarrow> enter x
         | Some (Writing x (e # es)) \<Rightarrow> (case must_fail K (go_cut c) e of
             None \<Rightarrow> go_on c t (sc_note K s [e]) (Writing x es) | Some why \<Rightarrow> go_fails c t (Writing x es) e why)
         | _ \<Rightarrow> c)"

lemma must_fail_via: "must_fail K gone e = Some why \<Longrightarrow> sc_via K e \<noteq> None"
  by (auto simp: must_fail_def split: option.splits)

lemma go_write_step:
  assumes "go_pcs c t = Some (Writing x (e # es))"
  shows "go_step K c (case must_fail K (go_cut c) e of
    None \<Rightarrow> go_on c t (sc_note K (go_state c) [e]) (Writing x es) | Some why \<Rightarrow> go_fails c t (Writing x es) e why)"
proof (cases "must_fail K (go_cut c) e")
  case (Some why)
  then show ?thesis using go_fail [OF assms must_fail_via [OF Some], of why] by simp
qed (use go_write [OF assms, of K] in simp)

lemma go_turn_step: "go_turn K c t = c \<or> go_step K c (go_turn K c t)"
proof (cases "\<exists>x e es. go_pcs c t = Some (Writing x (e # es))")
  case True
  then show ?thesis using go_write_step [of c t] by (auto simp: go_turn_def Let_def)
qed (auto simp: go_turn_def Let_def intro: go_step.intros split: option.split go_pc.split list.split prod.split)

lemma go_turns: "(go_step K)\<^sup>*\<^sup>* c (foldl (go_turn K) c ts)"
proof (induction ts arbitrary: c)
  case (Cons t ts)
  then show ?case using go_turn_step [of K c t] by (metis converse_rtranclp_into_rtranclp foldl_Cons)
qed simp

lemma go_reachable_steps: "(go_step K)\<^sup>*\<^sup>* c c' \<Longrightarrow> go_reachable K s0 c \<Longrightarrow> go_reachable K s0 c'"
  by (induction rule: rtranclp_induct) (auto intro: go_reachable.go_next)

text \<open>Nothing is left to do.\<close>

definition go_idle :: "('s, 'x, 'e) goroutines \<Rightarrow> bool" where
  "go_idle c \<longleftrightarrow> (\<forall>t pc. go_pcs c t = Some pc \<longrightarrow> (\<exists>x. pc = Writing x []))"

text \<open>Whatever has been done, the goroutines can all come to their end: none waits for another.\<close>

lemma go_turns_write:
  "go_pcs c t = Some (Writing x es) \<Longrightarrow>
   \<exists>c'. (go_step K)\<^sup>*\<^sup>* c c' \<and> go_pcs c' t = Some (Writing x []) \<and> (\<forall>u. u \<noteq> t \<longrightarrow> go_pcs c' u = go_pcs c u)"
proof (induction es arbitrary: c)
  case (Cons e es)
  define c1 where "c1 = (case must_fail K (go_cut c) e of
    None \<Rightarrow> go_on c t (sc_note K (go_state c) [e]) (Writing x es) | Some why \<Rightarrow> go_fails c t (Writing x es) e why)"
  have "go_step K c c1" unfolding c1_def using Cons.prems by (rule go_write_step)
  moreover have c1: "go_pcs c1 = (go_pcs c)(t \<mapsto> Writing x es)" by (simp add: c1_def go_on_def go_fails_def split: option.split)
  moreover obtain c' where "(go_step K)\<^sup>*\<^sup>* c1 c'" "go_pcs c' t = Some (Writing x [])" "\<forall>u. u \<noteq> t \<longrightarrow> go_pcs c' u = go_pcs c1 u"
    using Cons.IH [of c1] c1 by auto
  ultimately show ?case by (intro exI [of _ c']) auto
qed blast

lemma go_turns_enter:
  assumes "go_pcs c t = Some (Admitted x) \<or> go_pcs c t = Some (Begun x) \<and> \<not> sc_gated K x"
  shows "\<exists>c'. (go_step K)\<^sup>*\<^sup>* c c' \<and> go_pcs c' t = Some (Writing x []) \<and> (\<forall>u. u \<noteq> t \<longrightarrow> go_pcs c' u = go_pcs c u)"
proof -
  obtain s es where "sc_enter K (go_state c) x = (s, es)" by fastforce
  from go_enter [OF assms this] have "go_step K c (go_on c t s (Writing x es))" .
  moreover obtain c' where "(go_step K)\<^sup>*\<^sup>* (go_on c t s (Writing x es)) c'" "go_pcs c' t = Some (Writing x [])"
    "\<forall>u. u \<noteq> t \<longrightarrow> go_pcs c' u = go_pcs (go_on c t s (Writing x es)) u"
    using go_turns_write [of "go_on c t s (Writing x es)" t x es K] by (auto simp: go_on_def)
  ultimately show ?thesis by (intro exI [of _ c']) (auto simp: go_on_def)
qed

lemma go_turns_end:
  assumes "go_pcs c t = Some pc"
  shows "\<exists>c'. (go_step K)\<^sup>*\<^sup>* c c' \<and> go_pcs c' t = Some (Writing (op_of pc) []) \<and> (\<forall>u. u \<noteq> t \<longrightarrow> go_pcs c' u = go_pcs c u)"
proof (cases pc)
  case (Begun x)
  show ?thesis
  proof (cases "sc_gated K x")
    case True
    define c1 where "c1 = go_turn K c t"
    have st: "(go_step K)\<^sup>*\<^sup>* c c1" using go_turns [of K c "[t]"] by (simp add: c1_def)
    have c1: "\<forall>u. u \<noteq> t \<longrightarrow> go_pcs c1 u = go_pcs c u" "go_pcs c1 t = Some (Admitted x) \<or> (\<exists>es. go_pcs c1 t = Some (Writing x es))"
      using assms Begun True by (auto simp: c1_def go_turn_def go_on_def Let_def)
    obtain c' where "(go_step K)\<^sup>*\<^sup>* c1 c'" "go_pcs c' t = Some (Writing x [])" "\<forall>u. u \<noteq> t \<longrightarrow> go_pcs c' u = go_pcs c1 u"
      using go_turns_enter [of c1 t x K] go_turns_write [of c1 t x _ K] c1(2) by blast
    then show ?thesis using st c1(1) Begun by (intro exI [of _ c']) auto
  qed (use go_turns_enter assms Begun in force)
next
  case (Admitted x)
  then show ?thesis using go_turns_enter [of c t x K] assms by simp
next
  case (Writing x es)
  then show ?thesis using go_turns_write [of c t x es K] assms by simp
qed

lemma go_reachable_finite: "go_reachable K s0 c \<Longrightarrow> finite (dom (go_pcs c))"
proof (induction rule: go_reachable.induct)
  case (go_next c c')
  from go_next.hyps(2) have "\<exists>t. dom (go_pcs c') \<subseteq> insert t (dom (go_pcs c))" by cases (auto simp: go_on_def go_fails_def)
  then show ?case using go_next.IH finite_subset finite_insert by metis
qed (simp add: go_start_def)

text \<open>What is lost was to be written to a socket, which was closed if that is the reason.\<close>

lemma go_lost_why:
  "go_reachable K s0 c \<Longrightarrow> (e, why) \<in> set (go_lost c) \<Longrightarrow>
   \<exists>d. sc_via K e = Some d \<and> (case why of Cut \<Rightarrow> d \<in> go_cut c | Too_long \<Rightarrow> \<not> sc_fits K e | Refused \<Rightarrow> sc_fits K e)"
proof (induction arbitrary: e why rule: go_reachable.induct)
  case (go_next c c')
  from go_next.hyps(2) consider "go_lost c' = go_lost c" "go_cut c \<subseteq> go_cut c'"
    | x y d where "go_lost c' = go_lost c @ [(x, y)]" "go_cut c' = go_cut c" "sc_via K x = Some d"
      "y = (case must_fail K (go_cut c) x of Some y \<Rightarrow> y | None \<Rightarrow> Refused)"
    by cases (auto simp: go_on_def go_fails_def)
  then show ?case
  proof cases
    case 1
    then show ?thesis using go_next.IH [of e why] go_next.prems by (auto split: failure.splits)
  next
    case (2 x y)
    then show ?thesis
      using go_next.IH [of e why] go_next.prems by (cases "(e, why) \<in> set (go_lost c)") (auto simp: must_fail_def split: failure.splits)
  qed
qed (simp add: go_start_def)

lemma go_completes:
  assumes "go_reachable K s0 c"
  shows "\<exists>c'. (go_step K)\<^sup>*\<^sup>* c c' \<and> go_idle c' \<and> (\<forall>t. map_option op_of (go_pcs c' t) = map_option op_of (go_pcs c t))"
proof -
  have "\<exists>c'. (go_step K)\<^sup>*\<^sup>* c c' \<and> (\<forall>t \<in> T. \<exists>x. go_pcs c' t = Some (Writing x [])) \<and> (\<forall>t. t \<notin> T \<longrightarrow> go_pcs c' t = go_pcs c t)
      \<and> (\<forall>t. map_option op_of (go_pcs c' t) = map_option op_of (go_pcs c t))" if "finite T" "T \<subseteq> dom (go_pcs c)" for T
    using that
  proof (induction T)
    case (insert t T)
    obtain c1 where c1: "(go_step K)\<^sup>*\<^sup>* c c1" "\<forall>t \<in> T. \<exists>x. go_pcs c1 t = Some (Writing x [])" "\<forall>t. t \<notin> T \<longrightarrow> go_pcs c1 t = go_pcs c t"
      "\<forall>t. map_option op_of (go_pcs c1 t) = map_option op_of (go_pcs c t)" using insert.IH insert.prems by blast
    obtain pc where pc: "go_pcs c1 t = Some pc" using c1(3) insert.hyps(2) insert.prems by fastforce
    obtain c2 where c2: "(go_step K)\<^sup>*\<^sup>* c1 c2" "go_pcs c2 t = Some (Writing (op_of pc) [])" "\<forall>u. u \<noteq> t \<longrightarrow> go_pcs c2 u = go_pcs c1 u"
      using go_turns_end [OF pc] by blast
    have "map_option op_of (go_pcs c2 u) = map_option op_of (go_pcs c u)" for u
      using c1(4) c2(2,3) pc by (cases "u = t") (auto dest: spec [of _ u])
    moreover have "\<exists>x. go_pcs c2 u = Some (Writing x [])" if "u \<in> insert t T" for u using that c1(2) c2(2,3) by (cases "u = t") auto
    moreover have "go_pcs c2 u = go_pcs c u" if "u \<notin> insert t T" for u using that c1(3) c2(3) by auto
    ultimately show ?case using rtranclp_trans [OF c1(1) c2(1)] by blast
  qed blast
  from this [OF go_reachable_finite [OF assms] subset_refl] obtain c' where "(go_step K)\<^sup>*\<^sup>* c c'"
    "\<forall>t \<in> dom (go_pcs c). \<exists>x. go_pcs c' t = Some (Writing x [])" "\<forall>t. t \<notin> dom (go_pcs c) \<longrightarrow> go_pcs c' t = go_pcs c t"
    "\<forall>t. map_option op_of (go_pcs c' t) = map_option op_of (go_pcs c t)" by blast
  moreover from this have "go_idle c'" unfolding go_idle_def by (metis domIff option.inject option.simps(3))
  ultimately show ?thesis by blast
qed

section \<open>The sections one after another\<close>

fun enters :: "('s, 'x, 'e) sections \<Rightarrow> 's \<Rightarrow> 'x list \<Rightarrow> 's \<times> 'e list" where
  "enters K s [] = (s, [])"
| "enters K s (x # xs) = (let (s, es) = sc_enter K s x; (s, fs) = enters K s xs in (s, es @ fs))"

text \<open>Operations one after another: \<open>xs\<close> before the server is closed and \<open>ys\<close> after that.\<close>

definition in_turn :: "('s \<Rightarrow> 'x \<Rightarrow> 's) \<Rightarrow> ('s \<Rightarrow> 's) \<Rightarrow> bool \<Rightarrow> 's \<Rightarrow> 'x list \<Rightarrow> 'x list \<Rightarrow> 's" where
  "in_turn f shut closed s xs ys = (if closed then foldl f (shut (foldl f s xs)) ys else foldl f s xs)"

lemma enters_snoc:
  "enters K s (xs @ [x]) = (let (s, es) = enters K s xs; (s, fs) = sc_enter K s x in (s, es @ fs))"
  by (induction xs arbitrary: s) (auto split: prod.splits)

text \<open>The goroutines that have been under the lock or were refused, with their operations, and what they have to write.\<close>

definition ran :: "(nat \<rightharpoonup> ('x, 'e) go_pc) \<Rightarrow> (nat \<times> 'x) list \<Rightarrow> bool" where
  "ran pcs ps \<longleftrightarrow> distinct (map fst ps) \<and> (\<forall>t x. (t, x) \<in> set ps \<longleftrightarrow> (\<exists>es. pcs t = Some (Writing x es)))"

definition unwritten :: "(nat \<rightharpoonup> ('x, 'e) go_pc) \<Rightarrow> (nat \<times> 'x) list \<Rightarrow> 'e multiset" where
  "unwritten pcs ps = (\<Sum>p \<in># mset ps. mset (to_write (pcs (fst p))))"

lemma ran_none: "ran pcs ps \<Longrightarrow> (\<And>x es. pcs t \<noteq> Some (Writing x es)) \<Longrightarrow> t \<notin> fst ` set ps"
  unfolding ran_def by fastforce

lemma unwritten_other: "t \<notin> fst ` set ps \<Longrightarrow> unwritten (pcs(t \<mapsto> pc)) ps = unwritten pcs ps"
  unfolding unwritten_def by (intro arg_cong [where f = sum_mset] image_mset_cong) auto

lemma ran_before:
  assumes "ran pcs ps" "\<And>x es. pcs t \<noteq> Some (Writing x es)" "\<And>x es. pc \<noteq> Writing x es"
  shows "ran (pcs(t \<mapsto> pc)) ps" "unwritten (pcs(t \<mapsto> pc)) ps = unwritten pcs ps"
proof -
  show "ran (pcs(t \<mapsto> pc)) ps" using assms unfolding ran_def by auto
  show "unwritten (pcs(t \<mapsto> pc)) ps = unwritten pcs ps" using unwritten_other [OF ran_none [OF assms(1,2)]] .
qed

lemma ran_new:
  assumes "ran pcs ps" "\<And>x es. pcs t \<noteq> Some (Writing x es)" "mset qs = add_mset (t, x) (mset ps)"
  shows "ran (pcs(t \<mapsto> Writing x es)) qs" "unwritten (pcs(t \<mapsto> Writing x es)) qs = mset es + unwritten pcs ps"
proof -
  note t = ran_none [OF assms(1,2)]
  have q: "mset qs = mset ((t, x) # ps)" using assms(3) by simp
  then have s: "set qs = insert (t, x) (set ps)" by (metis list.simps(15) set_mset_mset)
  have "mset (map fst qs) = mset (map fst ((t, x) # ps))" using q by (metis mset_map)
  then have "distinct (map fst qs)" using t assms(1) mset_eq_imp_distinct_iff unfolding ran_def by fastforce
  moreover have "(u, y) \<in> set qs \<longleftrightarrow> (\<exists>es'. (pcs(t \<mapsto> Writing x es)) u = Some (Writing y es'))" for u y
    using assms(1) t unfolding s ran_def by (cases "u = t") force+
  ultimately show "ran (pcs(t \<mapsto> Writing x es)) qs" unfolding ran_def by blast
  show "unwritten (pcs(t \<mapsto> Writing x es)) qs = mset es + unwritten pcs ps"
    using unwritten_other [OF t, of pcs "Writing x es"] unfolding unwritten_def q by simp
qed

lemma ran_write:
  assumes "ran pcs ps" "pcs t = Some (Writing x (e # es))"
  shows "ran (pcs(t \<mapsto> Writing x es)) ps" "unwritten pcs ps = add_mset e (unwritten (pcs(t \<mapsto> Writing x es)) ps)"
proof -
  show "ran (pcs(t \<mapsto> Writing x es)) ps" using assms unfolding ran_def by auto
  have m: "(t, x) \<in> set ps" "distinct (map fst ps)" using assms unfolding ran_def by blast+
  obtain as bs where ps: "ps = as @ (t, x) # bs" using m(1) by (auto simp: in_set_conv_decomp)
  have "t \<notin> fst ` set as" "t \<notin> fst ` set bs" using m(2) unfolding ps by auto
  from unwritten_other [OF this(1), of pcs "Writing x es"] unwritten_other [OF this(2), of pcs "Writing x es"]
  show "unwritten pcs ps = add_mset e (unwritten (pcs(t \<mapsto> Writing x es)) ps)"
    using assms(2) unfolding unwritten_def ps by simp
qed

locale serial_sections =
  fixes K :: "('s, 'x, 'e) sections" and atomic :: "'s \<Rightarrow> 'x \<Rightarrow> 's"
  assumes atomic: "atomic s x = (if sc_gated K x \<and> sc_closed K s then sc_note K s (sc_refuse K s x)
      else case sc_enter K s x of (s', es) \<Rightarrow> sc_note K s' es)"
    and enter_note: "sc_enter K (sc_note K s es) x = (case sc_enter K s x of (s', fs) \<Rightarrow> (sc_note K s' es, fs))"
    and enter_shut: "sc_enter K (sc_shut K s) x = (case sc_enter K s x of (s', fs) \<Rightarrow> (sc_shut K s', fs))"
    and enter_keeps: "sc_enter K s x = (s', es) \<Longrightarrow> sc_closed K s' = sc_closed K s \<and> sc_refuse K s' = sc_refuse K s"
    and note_keeps: "sc_closed K (sc_note K s es) = sc_closed K s" "sc_refuse K (sc_note K s es) = sc_refuse K s"
    and shut_keeps: "sc_closed K (sc_shut K s)" "sc_refuse K (sc_shut K s) = sc_refuse K s"
    and note_nil: "sc_note K s [] = s"
    and note_note: "sc_note K (sc_note K s es) fs = sc_note K s (es @ fs)"
    and shut_note: "sc_shut K (sc_note K s es) = sc_note K (sc_shut K s) es"
    and shut_shut: "sc_shut K (sc_shut K s) = sc_shut K s"
begin

lemma enters_keeps: "enters K s xs = (s', es) \<Longrightarrow> sc_closed K s' = sc_closed K s \<and> sc_refuse K s' = sc_refuse K s"
  by (induction xs arbitrary: s es) (auto dest: enter_keeps split: prod.splits)

lemma enters_note: "enters K (sc_note K s es) xs = (case enters K s xs of (s', fs) \<Rightarrow> (sc_note K s' es, fs))"
  by (induction xs arbitrary: s) (auto simp: enter_note split: prod.splits)

text \<open>Operations one after another, while the server is open and when it is closed.\<close>

lemma atomic_open:
  "\<not> sc_closed K s \<Longrightarrow> foldl atomic s xs = (case enters K s xs of (s', es) \<Rightarrow> sc_note K s' es)"
proof (induction xs arbitrary: s)
  case (Cons x xs)
  obtain s' es where e: "sc_enter K s x = (s', es)" by fastforce
  then have "\<not> sc_closed K (sc_note K s' es)" using Cons.prems enter_keeps note_keeps(1) by blast
  from Cons.IH [OF this] show ?case
    using Cons.prems e by (auto simp: atomic enters_note note_note split: prod.splits)
qed (simp add: note_nil)

lemma atomic_closed:
  "sc_closed K s \<Longrightarrow> list_all (sc_gated K) xs \<Longrightarrow> foldl atomic s xs = sc_note K s (concat (map (sc_refuse K s) xs))"
proof (induction xs arbitrary: s)
  case (Cons x xs)
  then have "sc_closed K (sc_note K s (sc_refuse K s x))" by (simp add: note_keeps)
  from Cons.IH [OF this] Cons.prems show ?case by (simp add: atomic note_note note_keeps)
qed (simp add: note_nil)

text \<open>The invariant: \<open>os\<close> are the goroutines that have been under the lock, in that order, with their operations, and \<open>fs\<close>
  those that were refused; \<open>L\<close> is what was written. That, what was lost and what is still to be written is what they write one after another.\<close>

definition stands :: "'s \<Rightarrow> 's \<Rightarrow> 'e list \<Rightarrow> (nat \<times> 'x) list \<Rightarrow> bool" where
  "stands s z L fs \<longleftrightarrow> (if sc_closed K s then s = sc_note K (sc_shut K z) L else fs = [] \<and> s = sc_note K z L)"

definition sendable :: "'e \<Rightarrow> bool" where
  "sendable e \<longleftrightarrow> sc_via K e = None \<or> sc_fits K e"

definition serial :: "'s \<Rightarrow> ('s, 'x, 'e) goroutines \<Rightarrow> (nat \<times> 'x) list \<Rightarrow> (nat \<times> 'x) list \<Rightarrow> 'e list \<Rightarrow> bool" where
  "serial s0 c os fs L \<longleftrightarrow> list_all sendable L \<and>
     ran (go_pcs c) (os @ fs) \<and> list_all (sc_gated K) (map snd fs) \<and> stands (go_state c) (fst (enters K s0 (map snd os))) L fs \<and>
     mset L + mset (map fst (go_lost c)) + unwritten (go_pcs c) (os @ fs) = mset (snd (enters K s0 (map snd os)) @ concat (map (sc_refuse K s0) (map snd fs)))"

text \<open>The kinds of step: before the lock, refused, under the lock, a write, the flag.\<close>

lemma serial_before:
  assumes "serial s0 c os fs L" "\<And>x es. go_pcs c t \<noteq> Some (Writing x es)" "\<And>x es. pc \<noteq> Writing x es"
  shows "serial s0 (go_on c t (go_state c) pc) os fs L"
  using assms ran_before [of "go_pcs c" "os @ fs" t pc] unfolding serial_def go_on_def by simp

lemma serial_refused:
  assumes "serial s0 c os fs L" "go_pcs c t = Some (Begun x)" "sc_gated K x" "sc_closed K (go_state c)"
    and "sc_refuse K (go_state c) = sc_refuse K s0"
  shows "serial s0 (go_on c t (go_state c) (Writing x (sc_refuse K (go_state c) x))) os (fs @ [(t, x)]) L"
  using assms ran_new [of "go_pcs c" "os @ fs" t "os @ fs @ [(t, x)]" x "sc_refuse K s0 x"]
  unfolding serial_def go_on_def by (simp add: stands_def ac_simps)

lemma serial_enter:
  assumes ser: "serial s0 c os fs L" and pc: "\<And>x es. go_pcs c t \<noteq> Some (Writing x es)"
    and e: "sc_enter K (go_state c) x = (s, es)"
  shows "serial s0 (go_on c t s (Writing x es)) (os @ [(t, x)]) fs L"
proof -
  obtain z E where z: "enters K s0 (map snd os) = (z, E)" by fastforce
  obtain z' fs' where z': "sc_enter K z x = (z', fs')" by fastforce
  have "stands (go_state c) z L fs" using ser unfolding serial_def z by simp
  then have "es = fs'" "stands s z' L fs"
    using e z' enter_keeps [OF e] unfolding stands_def by (auto simp: enter_note enter_shut split: if_splits)
  moreover have "enters K s0 (map snd (os @ [(t, x)])) = (z', E @ fs')" by (simp add: enters_snoc z z')
  ultimately show ?thesis
    using ser ran_new [of "go_pcs c" "os @ fs" t "(os @ [(t, x)]) @ fs" x es] pc z unfolding serial_def go_on_def
    by (simp add: ac_simps)
qed

lemma serial_write:
  assumes "serial s0 c os fs L" "go_pcs c t = Some (Writing x (e # es))" "must_fail K (go_cut c) e = None"
  shows "serial s0 (go_on c t (sc_note K (go_state c) [e]) (Writing x es)) os fs (L @ [e])"
proof -
  have "stands (sc_note K (go_state c) [e]) z (L @ [e]) fs" if "stands (go_state c) z L fs" for z
    using that unfolding stands_def by (simp add: note_keeps) (metis note_note)
  moreover have "sendable e" using assms(3) by (auto simp: sendable_def must_fail_def split: option.splits if_splits)
  ultimately show ?thesis
    using assms ran_write [of "go_pcs c" "os @ fs" t x e es] unfolding serial_def go_on_def by simp
qed

lemma serial_fail:
  assumes "serial s0 c os fs L" "go_pcs c t = Some (Writing x (e # es))"
  shows "serial s0 (go_fails c t (Writing x es) e why) os fs L"
  using assms ran_write [of "go_pcs c" "os @ fs" t x e es] unfolding serial_def go_on_def go_fails_def by simp

lemma serial_shut:
  assumes "serial s0 c os fs L"
  shows "serial s0 (c\<lparr>go_state := sc_shut K (go_state c)\<rparr>) os fs L"
proof -
  have "stands (sc_shut K (go_state c)) z L fs" if "stands (go_state c) z L fs" for z
    using that unfolding stands_def by (metis shut_keeps(1) shut_note shut_shut)
  then show ?thesis using assms unfolding serial_def by simp
qed

lemma serial_keeps_refuse: "serial s0 c os fs L \<Longrightarrow> sc_refuse K (go_state c) = sc_refuse K s0"
  unfolding serial_def stands_def
  by (metis enters_keeps note_keeps(2) prod.collapse shut_keeps(2))

lemma serial_step:
  assumes "go_step K c c'" and ser: "serial s0 c os fs L"
  shows "\<exists>os fs L. serial s0 c' os fs L"
  using assms(1)
proof cases
  case (go_begin t x)
  then have "serial s0 c' os fs L" using serial_before [OF ser, of t "Begun x"] by simp
  then show ?thesis by blast
next
  case (go_refused t x)
  then show ?thesis using serial_refused [OF ser _ _ _ serial_keeps_refuse [OF ser]] by blast
next
  case (go_admitted t x)
  then have "serial s0 c' os fs L" using serial_before [OF ser, of t "Admitted x"] by simp
  then show ?thesis by blast
next
  case (go_enter t x s es)
  then have "go_pcs c t \<noteq> Some (Writing y fs)" for y fs by auto
  then show ?thesis using serial_enter [OF ser] go_enter by blast
next
  case (go_write t x e es)
  then show ?thesis using serial_write [OF ser] by blast
next
  case (go_fail t x e es why)
  then show ?thesis using serial_fail [OF ser] by blast
next
  case (go_unplug d)
  then have "serial s0 c' os fs L" using ser unfolding serial_def by simp
  then show ?thesis by blast
next
  case go_shut
  then show ?thesis using serial_shut [OF ser] by blast
qed

lemma serial_reachable:
  assumes "go_reachable K s0 c" "\<not> sc_closed K s0"
  shows "\<exists>os fs L. serial s0 c os fs L"
  using assms(1)
proof (induction rule: go_reachable.induct)
  case go_new
  have "serial s0 (go_start s0) [] [] []"
    using assms(2) by (simp add: serial_def ran_def stands_def unwritten_def note_nil go_start_def)
  then show ?case by blast
next
  case (go_next c c')
  then show ?case using serial_step by blast
qed

lemma cut_closed:
  assumes "go_reachable K s0 c" "\<And>s d. sc_may_cut K s d \<Longrightarrow> sc_closed K s" "d \<in> go_cut c"
  shows "sc_closed K (go_state c)"
  using assms(1,3)
proof (induction arbitrary: d rule: go_reachable.induct)
  case (go_next c c')
  from go_next.hyps(2) show ?case
    by cases (use go_next assms(2) in \<open>auto simp: go_on_def go_fails_def shut_keeps note_keeps dest: enter_keeps\<close>)
qed (simp add: go_start_def)

text \<open>When nothing is left to do the server is as if it had performed the operations of the goroutines one after another, those
  that were refused after it was closed; but the log, in another order, lacks the writes that were lost.\<close>

lemma serializable:
  assumes "go_reachable K s0 c" "\<not> sc_closed K s0" "go_idle c"
  shows "\<exists>os fs z L L'. distinct (map fst (os @ fs)) \<and> (\<forall>t x. (t, x) \<in> set (os @ fs) \<longleftrightarrow> map_option op_of (go_pcs c t) = Some x) \<and>
    (\<not> sc_closed K (go_state c) \<longrightarrow> fs = []) \<and> go_state c = sc_note K z L \<and> list_all sendable L \<and>
    mset L' = mset L + mset (map fst (go_lost c)) \<and> (\<exists>b. z = (if b then sc_shut K else id) (fst (enters K s0 (map snd os)))) \<and>
    in_turn atomic (sc_shut K) (sc_closed K (go_state c)) s0 (map snd os) (map snd fs) = sc_note K z L'"
proof -
  obtain os fs L where ser: "serial s0 c os fs L" using serial_reachable [OF assms(1,2)] by blast
  obtain z E where z: "enters K s0 (map snd os) = (z, E)" by fastforce
  let ?F = "concat (map (sc_refuse K s0) (map snd fs))"
  have r: "ran (go_pcs c) (os @ fs)" and st: "stands (go_state c) z L fs" and g: "list_all (sc_gated K) (map snd fs)"
    and l: "mset L + mset (map fst (go_lost c)) + unwritten (go_pcs c) (os @ fs) = mset (E @ ?F)" and sd: "list_all sendable L"
    using ser unfolding serial_def z by simp_all
  have e: "(\<exists>es. go_pcs c t = Some (Writing x es)) \<longleftrightarrow> go_pcs c t = Some (Writing x [])" for t x
    using assms(3) unfolding go_idle_def by blast
  have "map_option op_of (go_pcs c t) = Some x \<longleftrightarrow> go_pcs c t = Some (Writing x [])" for t x
    using assms(3) unfolding go_idle_def by (cases "go_pcs c t") fastforce+
  then have ops: "(t, x) \<in> set (os @ fs) \<longleftrightarrow> map_option op_of (go_pcs c t) = Some x" for t x
    using r e unfolding ran_def by simp
  have "to_write (go_pcs c t) = []" if "(t, x) \<in> set (os @ fs)" for t x
    using that r e unfolding ran_def by fastforce
  then have "unwritten (go_pcs c) (os @ fs) = {#}" unfolding unwritten_def by fastforce
  then have L: "mset (E @ ?F) = mset L + mset (map fst (go_lost c))" using l by simp
  have o: "foldl atomic s0 (map snd os) = sc_note K z E" using atomic_open [OF assms(2)] z by simp
  have f: "foldl atomic (sc_shut K (sc_note K z E)) (map snd fs) = sc_note K (sc_shut K z) (E @ ?F)"
    using atomic_closed [OF _ g, of "sc_note K (sc_shut K z) E"] enters_keeps [OF z]
    by (simp add: shut_note note_keeps shut_keeps note_note)
  have d: "distinct (map fst (os @ fs))" using r unfolding ran_def by blast
  show ?thesis
  proof (cases "sc_closed K (go_state c)")
    case True
    then have "go_state c = sc_note K (sc_shut K z) L" using st by (simp add: stands_def)
    moreover have "in_turn atomic (sc_shut K) (sc_closed K (go_state c)) s0 (map snd os) (map snd fs) = sc_note K (sc_shut K z) (E @ ?F)"
      using True o f by (simp add: in_turn_def)
    moreover have "\<exists>b. sc_shut K z = (if b then sc_shut K else id) (fst (enters K s0 (map snd os)))" using z by (intro exI [of _ True]) simp
    ultimately show ?thesis using d ops L True sd by blast
  next
    case False
    then have "go_state c = sc_note K z L" "fs = []" using st by (simp_all add: stands_def)
    moreover have "in_turn atomic (sc_shut K) (sc_closed K (go_state c)) s0 (map snd os) (map snd fs) = sc_note K z E"
      using False o by (simp add: in_turn_def)
    moreover have "\<exists>b. z = (if b then sc_shut K else id) (fst (enters K s0 (map snd os)))" using z by (intro exI [of _ False]) simp
    moreover have "mset E = mset L + mset (map fst (go_lost c))" using L \<open>fs = []\<close> by simp
    ultimately show ?thesis using d ops False sd
      by - (rule exI [of _ os], rule exI [of _ fs], rule exI [of _ z], rule exI [of _ L], rule exI [of _ E], simp)
  qed
qed

end

end
