(* ===== verification/Server_Goroutines.thy ===== *)
theory Server_Goroutines
  imports UDP TCP Goroutines
begin

text \<open>
  The goroutines of a server (\<open>src/udp/udp.go\<close>, \<open>src/tcp/tcp.go\<close>): one for each datagram or message, and those of the application that
  emit and register. Their critical sections interleave; the locale \<open>serial_sections\<close> is interpreted on both servers.
\<close>

section \<open>A UDP server\<close>

datatype udp_server_op = Handles "byte list" udp_addr | Emits u16 "byte list" | Serves u16 handler
  | Subscribes u16 udp_addr | Unsubscribes u16 udp_addr

text \<open>An operation without interruption.\<close>

fun udp_performs :: "nat \<Rightarrow> UDP.Server \<Rightarrow> udp_server_op \<Rightarrow> UDP.Server option" where
  "udp_performs w s (Handles f a) = handleFrame w s f a"
| "udp_performs w s (Emits ev p) = map_option fst (UDP.Emit s ev p)"
| "udp_performs w s (Serves m h) = Some (fst (UDP.RegisterMethod s m h))"
| "udp_performs w s (Subscribes ev a) = Some (fst (RegisterSubscriber s ev a))"
| "udp_performs w s (Unsubscribes ev a) = Some (UnregisterSubscriber s ev a)"

text \<open>Its parts. What a frame is to \<open>handleFrame\<close>: nothing, the entry of a subscription, or a message for a method.\<close>

datatype frame_kind = Dropped | Subscription Entry | For_method message

definition frame_kind :: "nat \<Rightarrow> byte list \<Rightarrow> frame_kind" where
  "frame_kind w f =
     (case the (Decode f) of
        Inl _ \<Rightarrow> Dropped
      | Inr msg \<Rightarrow>
          if ServiceID msg = SDServiceID \<and> MethodID msg = SDMethodID
          then (case the (decodeSubscribeEntry w (Payload msg)) of None \<Rightarrow> Dropped | Some e \<Rightarrow> Subscription e)
          else For_method msg)"

definition subscriber_locked :: "UDP.Server \<Rightarrow> u16 \<Rightarrow> udp_addr \<Rightarrow> UDP.Server" where
  "subscriber_locked s eventID addr =
     (if list_ex (\<lambda>x. addr_text x = addr_text addr) (us_subs s eventID) then s
      else s\<lparr>us_subs := (us_subs s)(eventID := us_subs s eventID @ [addr])\<rparr>)"

definition ack :: "UDP.Server \<Rightarrow> Entry \<Rightarrow> udp_addr \<Rightarrow> udp_event list" where
  "ack s e addr =
     [Datagram addr (the (encodeSDEntryFrame EntryTypeSubscribeAck (us_ServiceID s) (us_InstanceID s) (e_EventgroupID e) (e_TTL e)))]"

text \<open>The handler is looked up under the lock; it runs, and its answer is written, without it.\<close>

definition answer :: "UDP.Server \<Rightarrow> message \<Rightarrow> udp_addr \<Rightarrow> udp_event list" where
  "answer s msg addr =
     (if MessageType msg = MsgTypeRequestNoReturn
      then (case us_handlers s (MethodID msg) of Some h \<Rightarrow> [Invoked (MethodID msg) msg] | None \<Rightarrow> [])
      else [Datagram addr (wire (UDP.server_answer s msg))])"

fun udp_gated :: "nat \<Rightarrow> udp_server_op \<Rightarrow> bool" where
  "udp_gated w (Handles f a) = (case frame_kind w f of Subscription e \<Rightarrow> e_TTL e \<noteq> 0 | _ \<Rightarrow> False)"
| "udp_gated w (Unsubscribes ev a) = False"
| "udp_gated w _ = True"

fun udp_refuse :: "nat \<Rightarrow> UDP.Server \<Rightarrow> udp_server_op \<Rightarrow> udp_event list" where
  "udp_refuse w s (Handles f a) = (case frame_kind w f of Subscription e \<Rightarrow> ack s e a | _ \<Rightarrow> [])"
| "udp_refuse w s _ = []"

fun udp_enter :: "nat \<Rightarrow> UDP.Server \<Rightarrow> udp_server_op \<Rightarrow> UDP.Server \<times> udp_event list" where
  "udp_enter w s (Handles f a) =
     (case frame_kind w f of
        Dropped \<Rightarrow> (s, [])
      | Subscription e \<Rightarrow>
          (if e_TTL e = 0 then UnregisterSubscriber s (e_EventgroupID e) a else subscriber_locked s (e_EventgroupID e) a, ack s e a)
      | For_method msg \<Rightarrow> (s, answer s msg a))"
| "udp_enter w s (Emits ev p) = (s, map (\<lambda>a. Datagram a (wire (notification s ev p))) (us_subs s ev))"
| "udp_enter w s (Serves m h) = (s\<lparr>us_handlers := (us_handlers s)(m \<mapsto> h)\<rparr>, [])"
| "udp_enter w s (Subscribes ev a) = (subscriber_locked s ev a, [])"
| "udp_enter w s (Unsubscribes ev a) = (UnregisterSubscriber s ev a, [])"

definition udp_close :: "UDP.Server \<Rightarrow> UDP.Server" where
  "udp_close s = fst (UDP.Server_Close (\<lambda>_. None) s)"

text \<open>There is one socket; \<open>Close\<close> closes it after it has set the flag. A datagram holds 65507 bytes.\<close>

fun udp_via :: "udp_event \<Rightarrow> nat option" where
  "udp_via (Datagram a f) = Some 0"
| "udp_via (Invoked m msg) = None"

fun udp_fits :: "udp_event \<Rightarrow> bool" where
  "udp_fits (Datagram a f) = (int (length f) \<le> maxUDPFrameSize)"
| "udp_fits (Invoked m msg) = True"

definition udp_sections :: "nat \<Rightarrow> (UDP.Server, udp_server_op, udp_event) sections" where
  "udp_sections w = \<lparr>sc_gated = udp_gated w, sc_refuse = udp_refuse w, sc_enter = udp_enter w, sc_closed = us_closed,
     sc_shut = udp_close, sc_note = (\<lambda>s es. s\<lparr>us_log := us_log s @ es\<rparr>),
     sc_via = udp_via, sc_fits = udp_fits, sc_may_cut = (\<lambda>s d. us_closed s)\<rparr>"

text \<open>Run without interruption, the sections are the operations of \<open>UDP\<close>.\<close>

lemma RegisterSubscriber_sections:
  "fst (RegisterSubscriber s ev a) = (if us_closed s then s else subscriber_locked s ev a)"
  by (simp add: RegisterSubscriber_def subscriber_locked_def)

lemma handleFrame_sections:
  "handleFrame w s f a = Some
     (case frame_kind w f of
        Dropped \<Rightarrow> s
      | Subscription e \<Rightarrow> let s' = (if e_TTL e = 0 then UnregisterSubscriber s (e_EventgroupID e) a else fst (RegisterSubscriber s (e_EventgroupID e) a))
          in s'\<lparr>us_log := us_log s' @ ack s e a\<rparr>
      | For_method msg \<Rightarrow> s\<lparr>us_log := us_log s @ answer s msg a\<rparr>)"
proof -
  obtain x where x: "Decode f = Some x" by (auto simp: Decode_eq)
  show ?thesis
  proof (cases x)
    case (Inl e)
    then show ?thesis by (simp add: handleFrame_def frame_kind_def x)
  next
    case (Inr msg)
    have "is_sd msg \<longleftrightarrow> ServiceID msg = SDServiceID \<and> MethodID msg = SDMethodID" by (simp add: is_sd_def)
    then show ?thesis
      using handleFrame_sd [of f msg w s a] handleFrame_request [of f msg w s a] x Inr
      by (cases "is_sd msg") (auto simp: frame_kind_def subscribe_effect_def write_udp_def ack_def answer_def encodeSDEntryFrame_eq Let_def
          UnregisterSubscriber_def RegisterSubscriber_def split: option.split)
  qed
qed

lemma udp_performs_sections:
  "udp_performs w s x = Some (if udp_gated w x \<and> us_closed s then s\<lparr>us_log := us_log s @ udp_refuse w s x\<rparr>
     else case udp_enter w s x of (s', es) \<Rightarrow> s'\<lparr>us_log := us_log s' @ es\<rparr>)"
proof (cases x)
  case (Handles f a)
  then show ?thesis
    by (cases "frame_kind w f") (auto simp: handleFrame_sections RegisterSubscriber_sections Let_def)
qed (auto simp: UDP.Emit_eq UDP.RegisterMethod_def RegisterSubscriber_sections)

lemma udp_enter_parts:
  "us_closed (fst (udp_enter w s x)) = us_closed s" "us_log (fst (udp_enter w s x)) = us_log s"
  "us_ServiceID (fst (udp_enter w s x)) = us_ServiceID s" "us_InstanceID (fst (udp_enter w s x)) = us_InstanceID s"
  "udp_enter w (s\<lparr>us_log := l\<rparr>) x = (case udp_enter w s x of (s', es) \<Rightarrow> (s'\<lparr>us_log := l\<rparr>, es))"
  "udp_enter w (s\<lparr>us_closed := b\<rparr>) x = (case udp_enter w s x of (s', es) \<Rightarrow> (s'\<lparr>us_closed := b\<rparr>, es))"
  by (cases s; cases x; simp add: UnregisterSubscriber_def subscriber_locked_def ack_def answer_def notification_def UDP.server_answer_def
      split: frame_kind.split)+

lemma udp_enter_log: "udp_enter w s x = (s', es) \<Longrightarrow> us_log s' = us_log s"
  using udp_enter_parts(2) [of w s x] by simp

lemma udp_refuse_parts:
  "us_ServiceID s' = us_ServiceID s \<Longrightarrow> us_InstanceID s' = us_InstanceID s \<Longrightarrow> udp_refuse w s' = udp_refuse w s"
proof
  show "us_ServiceID s' = us_ServiceID s \<Longrightarrow> us_InstanceID s' = us_InstanceID s \<Longrightarrow> udp_refuse w s' x = udp_refuse w s x" for x
    by (cases x) (simp_all add: ack_def split: frame_kind.split)
qed

lemma udp_close_eq: "udp_close s = s\<lparr>us_closed := True\<rparr>"
  by (cases s) (simp add: udp_close_def UDP.Server_Close_def)

lemma enters_log: "us_log (fst (enters (udp_sections w) s xs)) = us_log s"
proof (induction xs arbitrary: s)
  case (Cons x xs)
  have "fst (enters (udp_sections w) s (x # xs)) = fst (enters (udp_sections w) (fst (udp_enter w s x)) xs)"
    by (simp add: case_prod_beta Let_def udp_sections_def)
  then show ?case by (simp add: Cons.IH udp_enter_parts(2))
qed simp

interpretation udp_server: serial_sections "udp_sections w" "\<lambda>s x. the (udp_performs w s x)" for w
proof unfold_locales
  fix s s' :: UDP.Server and x and es :: "udp_event list"
  assume "sc_enter (udp_sections w) s x = (s', es)"
  then have e: "s' = fst (udp_enter w s x)" by (simp add: udp_sections_def)
  show "sc_closed (udp_sections w) s' = sc_closed (udp_sections w) s \<and> sc_refuse (udp_sections w) s' = sc_refuse (udp_sections w) s"
    using udp_refuse_parts [of s' s w] udp_enter_parts(1-4) [of w s x] by (simp add: udp_sections_def e)
qed (auto simp: udp_sections_def udp_performs_sections udp_enter_parts udp_close_eq split: prod.split
    intro!: udp_refuse_parts dest: udp_enter_log)

section \<open>A TCP server\<close>

datatype tcp_server_op = Reads nat message | Adds u16 handler

fun tcp_performs :: "TCP.Server \<Rightarrow> tcp_server_op \<Rightarrow> TCP.Server option" where
  "tcp_performs s (Reads conn msg) = handleMessage s conn msg"
| "tcp_performs s (Adds m h) = Some (fst (TCP.RegisterMethod s m h))"

text \<open>The handler is looked up under the lock; the interface version is not guarded by it.\<close>

fun tcp_enter :: "TCP.Server \<Rightarrow> tcp_server_op \<Rightarrow> TCP.Server \<times> tcp_event list" where
  "tcp_enter s (Reads conn msg) =
     (s, if MessageType msg = MsgTypeRequestNoReturn
         then (if InterfaceVersion msg = ts_InterfaceVersion s \<and> ts_handlers s (MethodID msg) \<noteq> None
               then [Started (MethodID msg) msg] else [])
         else [Wrote conn (wire (TCP.server_answer s msg))])"
| "tcp_enter s (Adds m h) = (s\<lparr>ts_handlers := (ts_handlers s)(m \<mapsto> h)\<rparr>, [])"

fun tcp_gated :: "tcp_server_op \<Rightarrow> bool" where
  "tcp_gated (Reads conn msg) = False"
| "tcp_gated (Adds m h) = True"

definition tcp_close :: "TCP.Server \<Rightarrow> TCP.Server" where
  "tcp_close s = fst (TCP.Server_Close (\<lambda>_. None) s)"

text \<open>Each connection is a socket, which its peer may end, or \<open>serveConn\<close> when it returns, at any time.\<close>

fun tcp_via :: "tcp_event \<Rightarrow> nat option" where
  "tcp_via (Wrote conn f) = Some conn"
| "tcp_via (Started m msg) = None"

definition tcp_sections :: "(TCP.Server, tcp_server_op, tcp_event) sections" where
  "tcp_sections = \<lparr>sc_gated = tcp_gated, sc_refuse = (\<lambda>s x. []), sc_enter = tcp_enter, sc_closed = ts_closed,
     sc_shut = tcp_close, sc_note = (\<lambda>s es. s\<lparr>ts_log := ts_log s @ es\<rparr>),
     sc_via = tcp_via, sc_fits = (\<lambda>_. True), sc_may_cut = (\<lambda>s d. True)\<rparr>"

lemma tcp_close_eq: "tcp_close s = s\<lparr>ts_closed := True\<rparr>"
  by (cases s) (simp add: tcp_close_def TCP.Server_Close_def)

lemma tcp_performs_sections:
  "tcp_performs s x = Some (if tcp_gated x \<and> ts_closed s then s
     else case tcp_enter s x of (s', es) \<Rightarrow> s'\<lparr>ts_log := ts_log s' @ es\<rparr>)"
  by (cases s; cases x) (simp_all add: handleMessage_eq TCP.write_conn_def TCP.RegisterMethod_def)

lemma tcp_answer_parts:
  "TCP.server_answer (s\<lparr>ts_log := l\<rparr>) m = TCP.server_answer s m" "TCP.server_answer (s\<lparr>ts_closed := b\<rparr>) m = TCP.server_answer s m"
  by (simp_all add: TCP.server_answer_def Let_def)

lemma tcp_enter_parts:
  "ts_closed (fst (tcp_enter s x)) = ts_closed s" "ts_log (fst (tcp_enter s x)) = ts_log s"
  "tcp_enter (s\<lparr>ts_log := l\<rparr>) x = (case tcp_enter s x of (s', es) \<Rightarrow> (s'\<lparr>ts_log := l\<rparr>, es))"
  "tcp_enter (s\<lparr>ts_closed := b\<rparr>) x = (case tcp_enter s x of (s', es) \<Rightarrow> (s'\<lparr>ts_closed := b\<rparr>, es))"
  by (cases x; simp add: tcp_answer_parts)+

lemma tcp_enter_keeps: "tcp_enter s x = (s', es) \<Longrightarrow> ts_log s' = ts_log s \<and> ts_closed s' = ts_closed s"
  using tcp_enter_parts(1,2) [of s x] by simp

interpretation tcp_server: serial_sections tcp_sections "\<lambda>s x. the (tcp_performs s x)"
  by unfold_locales (auto simp: tcp_sections_def tcp_performs_sections tcp_enter_parts tcp_close_eq split: prod.split dest: tcp_enter_keeps)

section \<open>Subscriptions at the server\<close>

lemma frame_kind_sub:
  assumes "w = 32 \<or> w = 64"
  shows "frame_kind w (sub_frame svc ev ttl) = Subscription (entry_carried (sub_entry EntryTypeSubscribe (sv_ServiceID svc) (sv_InstanceID svc) ev ttl))"
proof -
  let ?m = "sub_message EntryTypeSubscribe (sv_ServiceID svc) (sv_InstanceID svc) ev ttl"
  have "Decode (wire ?m) = Some (Inr (?m\<lparr>ProtocolVersion := 1\<rparr>))" by (intro Decode_wire) (simp add: fits_def sub_message_def)
  moreover have "?m\<lparr>ProtocolVersion := 1\<rparr> = ?m" by (simp add: sub_message_def zero_message_def)
  moreover have "ServiceID ?m = SDServiceID" "MethodID ?m = SDMethodID" by (simp_all add: sub_message_def)
  ultimately show ?thesis
    using decode_sub_message [OF _ assms, of EntryTypeSubscribe "sv_ServiceID svc" "sv_InstanceID svc" ev ttl]
    by (simp add: frame_kind_def sub_frame_def)
qed

definition registered :: "UDP.Server \<Rightarrow> u16 \<Rightarrow> udp_addr \<Rightarrow> bool" where
  "registered s ev a \<longleftrightarrow> list_ex (\<lambda>x. addr_text x = addr_text a) (us_subs s ev)"

definition ack_frame :: "UDP.Server \<Rightarrow> u16 \<Rightarrow> u32 \<Rightarrow> byte list" where
  "ack_frame s ev ttl = wire (sub_message EntryTypeSubscribeAck (us_ServiceID s) (us_InstanceID s) ev ttl)"

lemma sub_entry_parts:
  "e_EventgroupID (entry_carried (sub_entry EntryTypeSubscribe sid iid ev ttl)) = ev"
  "e_TTL (entry_carried (sub_entry EntryTypeSubscribe sid iid ev ttl)) = take_bit 24 ttl"
  by (simp_all add: entry_carried_def sub_entry_def is_subscribe_def)

text \<open>The section of a goroutine that handles a subscription, and of one that ends it.\<close>

lemma udp_enter_sub:
  assumes "w = 32 \<or> w = 64"
  shows "sc_gated (udp_sections w) (Handles (sub_frame svc ev subscribeTTL) a)" "\<not> sc_gated (udp_sections w) (Handles (sub_frame svc ev 0) a)"
    "sc_enter (udp_sections w) s (Handles (sub_frame svc ev subscribeTTL) a) = (subscriber_locked s ev a, [Datagram a (ack_frame s ev subscribeTTL)])"
    "sc_enter (udp_sections w) s (Handles (sub_frame svc ev 0) a) = (UnregisterSubscriber s ev a, [Datagram a (ack_frame s ev 0)])"
proof -
  have "take_bit 24 subscribeTTL = subscribeTTL" "subscribeTTL \<noteq> 0" by (simp_all add: subscribeTTL_def take_bit_word_eq_self)
  then show "sc_gated (udp_sections w) (Handles (sub_frame svc ev subscribeTTL) a)" "\<not> sc_gated (udp_sections w) (Handles (sub_frame svc ev 0) a)"
    "sc_enter (udp_sections w) s (Handles (sub_frame svc ev subscribeTTL) a) = (subscriber_locked s ev a, [Datagram a (ack_frame s ev subscribeTTL)])"
    "sc_enter (udp_sections w) s (Handles (sub_frame svc ev 0) a) = (UnregisterSubscriber s ev a, [Datagram a (ack_frame s ev 0)])"
    by (simp_all add: udp_sections_def frame_kind_sub [OF assms] sub_entry_parts ack_def ack_frame_def encodeSDEntryFrame_eq)
qed

lemma registered_locked: "registered (subscriber_locked s ev a) ev a"
  by (auto simp: registered_def subscriber_locked_def)

text \<open>Two goroutines that have begun, and nothing else.\<close>

definition both_begun :: "UDP.Server \<Rightarrow> udp_server_op \<Rightarrow> udp_server_op \<Rightarrow> (UDP.Server, udp_server_op, udp_event) goroutines" where
  "both_begun s x y = (go_start s)\<lparr>go_pcs := [0 \<mapsto> Begun x, 1 \<mapsto> Begun y]\<rparr>"

lemma both_begun_reachable: "go_reachable (udp_sections w) s (both_begun s x y)"
proof -
  let ?c0 = "go_start s"
  have "go_step (udp_sections w) ?c0 (go_on ?c0 0 (go_state ?c0) (Begun x))" using go_begin [of ?c0 0 "udp_sections w" x] by (simp add: go_start_def)
  then have "go_reachable (udp_sections w) s (go_on ?c0 0 (go_state ?c0) (Begun x))" using go_new by (rule go_reachable.go_next [rotated])
  moreover have "go_step (udp_sections w) (go_on ?c0 0 (go_state ?c0) (Begun x)) (both_begun s x y)"
    using go_begin [of "go_on ?c0 0 (go_state ?c0) (Begun x)" 1 "udp_sections w" y] by (simp add: go_on_def both_begun_def go_start_def)
  ultimately show ?thesis by (rule go_reachable.go_next)
qed

definition two_begun :: "udp_server_op \<Rightarrow> udp_server_op \<Rightarrow> (UDP.Server, udp_server_op, udp_event) goroutines" where
  "two_begun x y = both_begun sample_server x y"

lemma two_begun:
  "go_reachable (udp_sections w) sample_server (two_begun x y)" "\<not> us_closed (go_state (two_begun x y))" "us_log (go_state (two_begun x y)) = []"
  "go_pcs (two_begun x y) 0 = Some (Begun x)" "go_pcs (two_begun x y) 1 = Some (Begun y)" "0 \<notin> go_cut (two_begun x y)"
  using both_begun_reachable by (simp_all add: two_begun_def) (simp_all add: both_begun_def go_start_def sample_server_def)

section \<open>Properties\<close>

text \<open>C10: a UDP server serves its goroutines as if one after another. Datagrams are handled, events emitted and methods and subscribers
  registered by goroutines whose sections and writes interleave; \<open>Close\<close> sets the flag and closes the socket, in two steps, at any time;
  a write fails, and nobody takes notice, when the socket is closed, when the datagram would be longer than 65507 bytes, or when the
  operating system refuses it. When all goroutines have ended there is an order of the operations in which the server, performing each
  without interruption, comes to the same handlers and the same subscribers; those that found the server closed come after the
  \<open>Close\<close>. What it then would write is, datagram by datagram, in some order, what was sent and what was lost: nothing is sent that
  this order does not send, and what is lost is a datagram that was too long or was refused or, if \<open>Close\<close> was called, one that was
  not written when the socket was closed. No operation panics.\<close>

theorem udp_server_serializable:
  assumes "\<not> us_closed s0" and "go_reachable (udp_sections w) s0 c" "go_idle c"
  shows "(\<forall>s x. udp_performs w s x \<noteq> None) \<and>
    (\<exists>os fs s L. distinct (map fst (os @ fs)) \<and> (\<forall>t x. (t, x) \<in> set (os @ fs) \<longleftrightarrow> map_option op_of (go_pcs c t) = Some x) \<and>
      (\<not> us_closed (go_state c) \<longrightarrow> fs = []) \<and>
      in_turn (\<lambda>s x. the (udp_performs w s x)) udp_close (us_closed (go_state c)) s0 (map snd os) (map snd fs) = s \<and>
      us_handlers s = us_handlers (go_state c) \<and> us_subs s = us_subs (go_state c) \<and> us_closed s = us_closed (go_state c) \<and>
      us_log (go_state c) = us_log s0 @ L \<and> mset (us_log s) = mset (us_log s0) + mset L + mset (map fst (go_lost c)) \<and>
      (\<forall>a f. Datagram a f \<in> set L \<longrightarrow> length f \<le> 65507) \<and>
      (\<forall>e why. (e, why) \<in> set (go_lost c) \<longrightarrow> (\<exists>a f. e = Datagram a f \<and>
        (case why of Cut \<Rightarrow> us_closed (go_state c) | Too_long \<Rightarrow> 65507 < length f | Refused \<Rightarrow> length f \<le> 65507))))"
proof
  let ?K = "udp_sections w"
  show "\<forall>s x. udp_performs w s x \<noteq> None" by (simp add: udp_performs_sections)
  have op: "\<not> sc_closed ?K s0" using assms(1) by (simp add: udp_sections_def)
  from udp_server.serializable [OF assms(2) op assms(3)] obtain os fs z L L' b where
    o: "distinct (map fst (os @ fs))" "\<forall>t x. (t, x) \<in> set (os @ fs) \<longleftrightarrow> map_option op_of (go_pcs c t) = Some x"
    "\<not> us_closed (go_state c) \<longrightarrow> fs = []" and st: "go_state c = z\<lparr>us_log := us_log z @ L\<rparr>" and sd: "list_all (udp_server.sendable w) L"
    and l: "mset L' = mset L + mset (map fst (go_lost c))" and z: "z = (if b then udp_close else id) (fst (enters ?K s0 (map snd os)))"
    and run: "in_turn (\<lambda>s x. the (udp_performs w s x)) udp_close (us_closed (go_state c)) s0 (map snd os) (map snd fs) = z\<lparr>us_log := us_log z @ L'\<rparr>"
    unfolding udp_sections_def sections.simps by (elim exE conjE)
  have log: "us_log z = us_log s0" using enters_log [of w s0 "map snd os"] by (simp add: z udp_close_eq)
  have fit: "length f \<le> 65507" if "Datagram a f \<in> set L" for a f
  proof -
    have "udp_server.sendable w (Datagram a f)" using sd that by (simp add: list_all_iff)
    then show ?thesis unfolding udp_server.sendable_def by (simp add: udp_sections_def maxUDPFrameSize_def)
  qed
  have lost: "\<exists>a f. e = Datagram a f \<and> (case why of Cut \<Rightarrow> us_closed (go_state c) | Too_long \<Rightarrow> 65507 < length f | Refused \<Rightarrow> length f \<le> 65507)"
    if m: "(e, why) \<in> set (go_lost c)" for e why
  proof -
    obtain d where d: "sc_via ?K e = Some d" "case why of Cut \<Rightarrow> d \<in> go_cut c | Too_long \<Rightarrow> \<not> sc_fits ?K e | Refused \<Rightarrow> sc_fits ?K e"
      using go_lost_why [OF assms(2) m] by blast
    moreover have "us_closed (go_state c)" if "d \<in> go_cut c"
      using udp_server.cut_closed [OF assms(2) _ that] by (simp add: udp_sections_def)
    ultimately show ?thesis by (cases e; cases why) (auto simp: udp_sections_def maxUDPFrameSize_def)
  qed
  show "\<exists>os fs s L. distinct (map fst (os @ fs)) \<and> (\<forall>t x. (t, x) \<in> set (os @ fs) \<longleftrightarrow> map_option op_of (go_pcs c t) = Some x) \<and>
      (\<not> us_closed (go_state c) \<longrightarrow> fs = []) \<and>
      in_turn (\<lambda>s x. the (udp_performs w s x)) udp_close (us_closed (go_state c)) s0 (map snd os) (map snd fs) = s \<and>
      us_handlers s = us_handlers (go_state c) \<and> us_subs s = us_subs (go_state c) \<and> us_closed s = us_closed (go_state c) \<and>
      us_log (go_state c) = us_log s0 @ L \<and> mset (us_log s) = mset (us_log s0) + mset L + mset (map fst (go_lost c)) \<and>
      (\<forall>a f. Datagram a f \<in> set L \<longrightarrow> length f \<le> 65507) \<and>
      (\<forall>e why. (e, why) \<in> set (go_lost c) \<longrightarrow> (\<exists>a f. e = Datagram a f \<and>
        (case why of Cut \<Rightarrow> us_closed (go_state c) | Too_long \<Rightarrow> 65507 < length f | Refused \<Rightarrow> length f \<le> 65507)))"
    using o run fit lost
    by - (rule exI [of _ os], rule exI [of _ fs], rule exI [of _ "z\<lparr>us_log := us_log z @ L'\<rparr>"], rule exI [of _ L],
      intro conjI; (assumption | simp add: st l log ac_simps | blast))
qed

text \<open>An \<open>Emit\<close> to two subscribers is cut by \<open>Close\<close>: the first datagram is sent, the second is not. A subscription that
  was let in before \<open>Close\<close> is made after it, and its acknowledgement is lost.\<close>

definition emitting_server :: UDP.Server where
  "emitting_server = sample_server\<lparr>us_subs := (\<lambda>_. [])(7 := [sample_addr, sample_addr\<lparr>a_Port := 9\<rparr>])\<rparr>"

theorem udp_server_serializable_witness:
  "let x = Emits 7 [5]; y = Handles (sub_frame sample_service 8 subscribeTTL) sample_addr in
   \<exists>c os fs s. go_reachable (udp_sections 64) emitting_server c \<and> go_idle c \<and> us_closed (go_state c) \<and> registered (go_state c) 8 sample_addr \<and>
     us_log (go_state c) = [Datagram sample_addr (wire (notification emitting_server 7 [5]))] \<and> map snd (go_lost c) = [Cut, Cut] \<and>
     set (os @ fs) = {(0 :: nat, x), (1, y)} \<and>
     in_turn (\<lambda>s x. the (udp_performs 64 s x)) udp_close True emitting_server (map snd os) (map snd fs) = s \<and>
     us_subs s = us_subs (go_state c) \<and> length (us_log s) = 3"
proof -
  let ?x = "Emits 7 [5]" and ?y = "Handles (sub_frame sample_service 8 subscribeTTL) sample_addr"
  let ?K = "udp_sections 64" and ?n = "wire (notification emitting_server 7 [5])" and ?b = "sample_addr\<lparr>a_Port := 9\<rparr>"
  define c1 where "c1 = foldl (go_turn ?K) (both_begun emitting_server ?x ?y) [0, 0, 0, 1]"
  define c2 where "c2 = c1\<lparr>go_state := sc_shut ?K (go_state c1)\<rparr>"
  define c3 where "c3 = c2\<lparr>go_cut := insert 0 (go_cut c2)\<rparr>"
  define c4 where "c4 = foldl (go_turn ?K) c3 [0, 1, 1]"
  have w: "(64 :: nat) = 32 \<or> (64 :: nat) = 64" by simp
  have K: "sc_closed ?K s = us_closed s" "sc_note ?K s es = s\<lparr>us_log := us_log s @ es\<rparr>" "sc_shut ?K s = s\<lparr>us_closed := True\<rparr>"
    "sc_may_cut ?K s d = us_closed s" for s es d
    by (simp_all add: udp_sections_def udp_close_eq)
  have e: "sc_gated ?K ?x" "sc_enter ?K emitting_server ?x = (emitting_server, [Datagram sample_addr ?n, Datagram ?b ?n])"
    by (simp_all add: udp_sections_def emitting_server_def notification_def)
  have f: "must_fail ?K {} (Datagram a ?n) = None" "must_fail ?K {0} (Datagram a g) = Some Cut" for a g
    by (simp_all add: must_fail_def udp_sections_def notification_def maxUDPFrameSize_def)
  have op: "\<not> us_closed emitting_server" "us_log emitting_server = []" by (simp_all add: emitting_server_def sample_server_def)
  have c1: "go_state c1 = emitting_server\<lparr>us_log := [Datagram sample_addr ?n]\<rparr>" "go_pcs c1 = [0 \<mapsto> Writing ?x [Datagram ?b ?n], 1 \<mapsto> Admitted ?y]"
    "go_cut c1 = {}" "go_lost c1 = []"
    by (simp_all add: c1_def go_turn_def go_on_def udp_enter_sub [OF w] K e f op both_begun_def go_start_def fun_upd_twist)
  have c3: "go_state c3 = emitting_server\<lparr>us_log := [Datagram sample_addr ?n], us_closed := True\<rparr>"
    "go_pcs c3 = [0 \<mapsto> Writing ?x [Datagram ?b ?n], 1 \<mapsto> Admitted ?y]" "go_cut c3 = {0}" "go_lost c3 = []"
    by (simp_all add: c3_def c2_def c1 K)
  have c4: "go_pcs c4 = [0 \<mapsto> Writing ?x [], 1 \<mapsto> Writing ?y []]" "us_closed (go_state c4)" "map snd (go_lost c4) = [Cut, Cut]"
    "us_log (go_state c4) = [Datagram sample_addr ?n]" "us_subs (go_state c4) 8 = [sample_addr]"
    by (simp_all add: c4_def c3 Let_def go_turn_def go_on_def go_fails_def udp_enter_sub [OF w] K f subscriber_locked_def)
      (simp_all add: emitting_server_def sample_server_def)
  have "go_reachable ?K emitting_server c1" unfolding c1_def by (rule go_reachable_steps [OF go_turns both_begun_reachable])
  then have "go_reachable ?K emitting_server c2" unfolding c2_def using go_shut by (rule go_reachable.go_next)
  then have "go_reachable ?K emitting_server c3" unfolding c3_def by (rule go_reachable.go_next [OF _ go_unplug]) (simp add: c2_def K)
  then have r: "go_reachable ?K emitting_server c4" unfolding c4_def by (rule go_reachable_steps [OF go_turns])
  have idle: "go_idle c4" by (auto simp: go_idle_def c4(1) split: if_splits)
  from udp_server_serializable [OF op(1) r idle, unfolded c4(2) [THEN eqTrueI]] obtain os fs s L where
    s: "\<forall>t x. (t, x) \<in> set (os @ fs) \<longleftrightarrow> map_option op_of (go_pcs c4 t) = Some x"
    "in_turn (\<lambda>s x. the (udp_performs 64 s x)) udp_close True emitting_server (map snd os) (map snd fs) = s"
    "us_subs s = us_subs (go_state c4)" "us_log (go_state c4) = us_log emitting_server @ L"
    "mset (us_log s) = mset (us_log emitting_server) + mset L + mset (map fst (go_lost c4))" by blast
  have "length (go_lost c4) = 2" using arg_cong [OF c4(3), of length] by simp
  moreover have "length L = 1" using s(4) unfolding c4(4) op(2) by (cases L) auto
  ultimately have "size (mset (us_log s)) = 3" unfolding s(5) op(2) by simp
  then have "length (us_log s) = 3" by (simp only: size_mset)
  moreover have "(t, x) \<in> set (os @ fs) \<longleftrightarrow> (t, x) \<in> {(0, ?x), (1, ?y)}" for t x using s(1) by (auto simp: c4(1))
  then have "set (os @ fs) = {(0, ?x), (1, ?y)}" by (intro set_eqI) (simp only: split_paired_all)
  moreover have "registered (go_state c4) 8 sample_addr" by (simp add: registered_def c4(5))
  ultimately show ?thesis unfolding Let_def using r idle c4 s
    by - (rule exI [of _ c4], rule exI [of _ os], rule exI [of _ fs], rule exI [of _ s], simp)
qed

text \<open>None of them waits for another: from any point they can all come to their end.\<close>

theorem udp_server_comes_to_rest:
  assumes "go_reachable (udp_sections w) s0 c"
  shows "\<exists>c'. (go_step (udp_sections w))\<^sup>*\<^sup>* c c' \<and> go_idle c' \<and> (\<forall>t. map_option op_of (go_pcs c' t) = map_option op_of (go_pcs c t))"
  using assms by (rule go_completes)

text \<open>C24: the order of datagrams is lost. A client subscribes and then unsubscribes, and the server, which is open and its socket too, has
  started a goroutine for each of the two datagrams. It may come to end with both acknowledged in the order they were sent, and the client registered: it
  receives events it no longer wants until it unsubscribes again. It may as well end as the client means it.\<close>

theorem udp_order_lost:
  assumes "w = 32 \<or> w = 64" "\<not> us_closed (go_state c)" "t \<noteq> u" and plugged: "0 \<notin> go_cut c"
    and t: "go_pcs c t = Some (Begun (Handles (sub_frame svc ev subscribeTTL) a))"
    and u: "go_pcs c u = Some (Begun (Handles (sub_frame svc ev 0) a))"
  shows "\<exists>s1 s2. registered s1 ev a \<and> \<not> registered s2 ev a \<and>
    (\<forall>s \<in> {s1, s2}. us_log s = us_log (go_state c) @ [Datagram a (ack_frame (go_state c) ev subscribeTTL), Datagram a (ack_frame (go_state c) ev 0)] \<and>
      (go_step (udp_sections w))\<^sup>*\<^sup>* c (c\<lparr>go_state := s, go_pcs := (go_pcs c)
        (t \<mapsto> Writing (Handles (sub_frame svc ev subscribeTTL) a) [], u \<mapsto> Writing (Handles (sub_frame svc ev 0) a) [])\<rparr>))"
proof -
  let ?K = "udp_sections w" and ?s = "go_state c"
  let ?x = "Handles (sub_frame svc ev subscribeTTL) a" and ?y = "Handles (sub_frame svc ev 0) a"
  let ?l = "us_log ?s @ [Datagram a (ack_frame ?s ev subscribeTTL), Datagram a (ack_frame ?s ev 0)]"
  let ?s1 = "(subscriber_locked (UnregisterSubscriber ?s ev a) ev a)\<lparr>us_log := ?l\<rparr>"
  let ?s2 = "(UnregisterSubscriber (subscriber_locked ?s ev a) ev a)\<lparr>us_log := ?l\<rparr>"
  let ?fin = "\<lambda>s. c\<lparr>go_state := s, go_pcs := (go_pcs c)(t \<mapsto> Writing ?x [], u \<mapsto> Writing ?y [])\<rparr>"
  have K: "sc_closed ?K s = us_closed s" "sc_note ?K s es = s\<lparr>us_log := us_log s @ es\<rparr>" for s es by (simp_all add: udp_sections_def)
  have ids: "ack_frame (UnregisterSubscriber s ev a) ev n = ack_frame s ev n" "ack_frame (subscriber_locked s ev a) ev n = ack_frame s ev n"
    "us_log (UnregisterSubscriber s ev a) = us_log s" "us_log (subscriber_locked s ev a) = us_log s" for s n
    by (simp_all add: ack_frame_def UnregisterSubscriber_def subscriber_locked_def)
  have "must_fail ?K (go_cut c) (Datagram a (ack_frame s ev n)) = None" for s n
    using plugged by (simp add: must_fail_def udp_sections_def ack_frame_def maxUDPFrameSize_def sub_message_def)
  note run = go_turn_def go_on_def Let_def udp_enter_sub [OF assms(1)] K ids this
  have "foldl (go_turn ?K) c [t, u, t, t, u] = ?fin ?s1" "foldl (go_turn ?K) c [t, t, u, t, u] = ?fin ?s2"
    using assms(2,3) t u by (simp_all add: run fun_upd_twist)
  then have "(go_step ?K)\<^sup>*\<^sup>* c (?fin ?s1)" "(go_step ?K)\<^sup>*\<^sup>* c (?fin ?s2)" by (metis go_turns)+
  moreover have "registered ?s1 ev a" "\<not> registered ?s2 ev a"
    using registered_locked [of "UnregisterSubscriber ?s ev a" ev a] by (simp_all add: registered_def UnregisterSubscriber_def list_ex_iff)
  ultimately show ?thesis by - (rule exI [of _ ?s1], rule exI [of _ ?s2], simp)
qed

theorem udp_order_lost_witness:
  "let x = Handles (sub_frame sample_service 7 subscribeTTL) sample_addr; y = Handles (sub_frame sample_service 7 0) sample_addr in
   go_reachable (udp_sections 64) sample_server (two_begun x y) \<and>
   (\<exists>s. registered s 7 sample_addr \<and> length (us_log s) = 2 \<and>
      (go_step (udp_sections 64))\<^sup>*\<^sup>* (two_begun x y)
        ((two_begun x y)\<lparr>go_state := s, go_pcs := (go_pcs (two_begun x y))(0 \<mapsto> Writing x [], 1 \<mapsto> Writing y [])\<rparr>))"
proof -
  let ?x = "Handles (sub_frame sample_service 7 subscribeTTL) sample_addr" and ?y = "Handles (sub_frame sample_service 7 0) sample_addr"
  note b = two_begun [where x = ?x and y = ?y]
  from udp_order_lost [OF disjI2 [OF refl] b(2) zero_neq_one b(6,4,5), unfolded b(3)] obtain s where s: "registered s 7 sample_addr"
    "us_log s = [] @ [Datagram sample_addr (ack_frame (go_state (two_begun ?x ?y)) 7 subscribeTTL), Datagram sample_addr (ack_frame (go_state (two_begun ?x ?y)) 7 0)]"
    "(go_step (udp_sections 64))\<^sup>*\<^sup>* (two_begun ?x ?y)
      ((two_begun ?x ?y)\<lparr>go_state := s, go_pcs := (go_pcs (two_begun ?x ?y))(0 \<mapsto> Writing ?x [], 1 \<mapsto> Writing ?y [])\<rparr>)"
    by blast
  have "length (us_log s) = 2" unfolding s(2) by simp
  then show ?thesis unfolding Let_def using b(1) s(1,3) by blast
qed


text \<open>The same of a TCP server; what it loses are answers to connections that have ended, or whose writes fail.\<close>

theorem tcp_server_serializable:
  assumes "\<not> ts_closed s0" "go_reachable tcp_sections s0 c" "go_idle c"
  shows "\<exists>os fs s. distinct (map fst (os @ fs)) \<and> (\<forall>t x. (t, x) \<in> set (os @ fs) \<longleftrightarrow> map_option op_of (go_pcs c t) = Some x) \<and>
      (\<not> ts_closed (go_state c) \<longrightarrow> fs = []) \<and>
      in_turn (\<lambda>s x. the (tcp_performs s x)) tcp_close (ts_closed (go_state c)) s0 (map snd os) (map snd fs) = s \<and>
      ts_handlers s = ts_handlers (go_state c) \<and> ts_closed s = ts_closed (go_state c) \<and>
      mset (ts_log s) = mset (ts_log (go_state c)) + mset (map fst (go_lost c)) \<and>
      (\<forall>e why. (e, why) \<in> set (go_lost c) \<longrightarrow> (\<exists>conn f. e = Wrote conn f \<and> (why = Refused \<or> why = Cut \<and> conn \<in> go_cut c)))"
proof -
  have "\<not> sc_closed tcp_sections s0" using assms(1) by (simp add: tcp_sections_def)
  from tcp_server.serializable [OF assms(2) this assms(3)] obtain os fs z L L' where
    o: "distinct (map fst (os @ fs))" "\<forall>t x. (t, x) \<in> set (os @ fs) \<longleftrightarrow> map_option op_of (go_pcs c t) = Some x"
    "\<not> ts_closed (go_state c) \<longrightarrow> fs = []" and st: "go_state c = z\<lparr>ts_log := ts_log z @ L\<rparr>" and l: "mset L' = mset L + mset (map fst (go_lost c))"
    and run: "in_turn (\<lambda>s x. the (tcp_performs s x)) tcp_close (ts_closed (go_state c)) s0 (map snd os) (map snd fs) = z\<lparr>ts_log := ts_log z @ L'\<rparr>"
    unfolding tcp_sections_def sections.simps by (elim exE conjE)
  have lost: "\<exists>conn f. e = Wrote conn f \<and> (why = Refused \<or> why = Cut \<and> conn \<in> go_cut c)" if "(e, why) \<in> set (go_lost c)" for e why
    using go_lost_why [OF assms(2) that] by (cases e; cases why) (auto simp: tcp_sections_def)
  show ?thesis
    using o run lost
    by - (rule exI [of _ os], rule exI [of _ fs], rule exI [of _ "z\<lparr>ts_log := ts_log z @ L'\<rparr>"],
      intro conjI; (assumption | simp add: st l ac_simps | blast))
qed

end
