(* ===== verification/TCP_Client.thy ===== *)
theory TCP_Client
  imports TCP
begin

text \<open>
  The goroutines of a TCP client (\<open>src/tcp/tcp.go\<close>): \<open>Call\<close>, \<open>CallNoReturn\<close> and the read loop in their critical sections.
  \<open>Call_begin\<close>, \<open>Call_select\<close>, \<open>CallNoReturn\<close> and \<open>deliver\<close> of \<open>TCP\<close> are many sections in one step; here each is a step of
  its own, with those of all other calls, of the read loop and of \<open>Close\<close> between them. What the read loop reads is any
  message at all: \<open>TCP\<close> says which ones a given stream holds.
\<close>

section \<open>The sections\<close>

text \<open>Where a goroutine is. In \<open>Call\<close>: past the test of \<open>closed\<close>; with its number; in the table, having read whether there is a
  connection; in the \<open>select\<close>; before the deferred deletion; done. In \<open>CallNoReturn\<close>: past the test; past the test of the
  connection; with its number; done.\<close>

datatype tcp_pc =
    Passed u16 "byte list"
  | Numbered u16 "byte list" u16
  | Entered u16 "byte list" u16 nat bool
  | Selecting u16 nat
  | Leaving u16 nat "goerr + message"
  | Returned "u16 option" "goerr + message"
  | Send_passed u16 "byte list"
  | Send_connected u16 "byte list"
  | Send_numbered u16 "byte list" u16
  | Send_returned "goerr option"

definition Call_test :: "Service \<Rightarrow> u16 \<Rightarrow> byte list \<Rightarrow> tcp_pc" where
  "Call_test svc m p = (if tv_closed svc then Returned None (Inl ErrClosed) else Passed m p)"

definition Call_enter :: "Service \<Rightarrow> u16 \<Rightarrow> (Service \<times> nat \<times> bool) option" where
  "Call_enter svc sessionID = do {
     (svc, ch) \<leftarrow> new_chan svc 1;
     Some (svc\<lparr>tv_pending := (tv_pending svc)(sessionID \<mapsto> ch)\<rparr>, ch, tv_connected svc)
   }"

definition Call_write :: "Service \<Rightarrow> u16 \<Rightarrow> byte list \<Rightarrow> u16 \<Rightarrow> bool \<Rightarrow> (byte list \<Rightarrow> goerr option) \<Rightarrow> (Service \<times> goerr option) option" where
  "Call_write svc methodID payload sessionID connected write =
     (if \<not> connected then Some (svc, Some ErrNotConnected)
      else do {
        frame \<leftarrow> encode_frame (zero_message\<lparr>ServiceID := tv_ServiceID svc, MethodID := methodID, SessionID := sessionID,
          ClientID := 0x0001, MessageType := MsgTypeRequest, ReturnCode := RetOK, Payload := payload\<rparr>);
        Some (case write frame of
          Some e \<Rightarrow> (svc, Some (Errorf ''tcp: send'' e))
        | None \<Rightarrow> (svc\<lparr>tv_out := tv_out svc @ [frame]\<rparr>, None))
      })"

definition Call_wake :: "Service \<Rightarrow> nat \<Rightarrow> wake \<Rightarrow> (Service \<times> (goerr + message)) option" where
  "Call_wake svc ch w =
     (case w of
        Woken_by_response \<Rightarrow> (case recv (tv_chans svc ch) of
            Some (resp, c) \<Rightarrow> Some (svc\<lparr>tv_chans := (tv_chans svc)(ch := c)\<rparr>, Inr resp)
          | None \<Rightarrow> None)
      | Woken_by_deadline \<Rightarrow> Some (svc, Inl ErrTimeout)
      | Woken_by_context e \<Rightarrow> Some (svc, Inl e))"

definition Send_test :: "Service \<Rightarrow> u16 \<Rightarrow> byte list \<Rightarrow> tcp_pc" where
  "Send_test svc m p = (if tv_closed svc then Send_returned (Some ErrClosed) else Send_passed m p)"

definition Send_connect :: "Service \<Rightarrow> u16 \<Rightarrow> byte list \<Rightarrow> tcp_pc" where
  "Send_connect svc m p = (if \<not> tv_connected svc then Send_returned (Some ErrNotConnected) else Send_connected m p)"

definition Send_write :: "Service \<Rightarrow> u16 \<Rightarrow> byte list \<Rightarrow> u16 \<Rightarrow> (byte list \<Rightarrow> goerr option) \<Rightarrow> (Service \<times> goerr option) option" where
  "Send_write svc methodID payload sessionID write = do {
     frame \<leftarrow> encode_frame (zero_message\<lparr>ServiceID := tv_ServiceID svc, MethodID := methodID, SessionID := sessionID,
       ClientID := 0x0001, MessageType := MsgTypeRequestNoReturn, ReturnCode := RetOK, Payload := payload\<rparr>);
     Some (case write frame of Some e \<Rightarrow> (svc, Some e) | None \<Rightarrow> (svc\<lparr>tv_out := tv_out svc @ [frame]\<rparr>, None))
   }"

text \<open>The read loop looks the channel up under the lock and sends without it.\<close>

definition read_lookup :: "Service \<Rightarrow> message \<Rightarrow> (nat \<times> message) option" where
  "read_lookup svc msg = map_option (\<lambda>ch. (ch, msg)) (tv_pending svc (SessionID msg))"

definition hand_over :: "Service \<Rightarrow> nat \<Rightarrow> message \<Rightarrow> Service option" where
  "hand_over svc ch msg = do {
     c \<leftarrow> try_send (tv_chans svc ch) msg;
     Some (svc\<lparr>tv_chans := (tv_chans svc)(ch := c)\<rparr>)
   }"

text \<open>Run without interruption, the sections are the operations of \<open>TCP\<close>.\<close>

lemma tcp_Call_begin_sections:
  "Call_begin svc m p write =
     (case Call_test svc m p of
        Passed m p \<Rightarrow> do {
          let (svc, s) = nextSession svc;
          (svc, ch, connected) \<leftarrow> Call_enter svc s;
          (svc, e) \<leftarrow> Call_write svc m p s connected write;
          Some (case e of None \<Rightarrow> (svc, Inr (s, ch)) | Some e \<Rightarrow> (Call_end svc s, Inl e))
        }
      | _ \<Rightarrow> Some (svc, Inl ErrClosed))"
  by (simp add: Call_begin_def Call_test_def Call_enter_def Call_write_def nextSession_def new_chan_def make_chan_def Let_def split: option.split)

lemma tcp_Call_select_sections: "Call_select svc s ch w = map_option (\<lambda>(svc, r). (Call_end svc s, r)) (Call_wake svc ch w)"
  by (simp add: Call_select_def Call_wake_def split: wake.split option.split)

lemma tcp_CallNoReturn_sections:
  "CallNoReturn svc m p write =
     (case Send_test svc m p of
        Send_passed m p \<Rightarrow> (case Send_connect svc m p of
            Send_connected m p \<Rightarrow> (let (svc, s) = nextSession svc in Send_write svc m p s write)
          | Send_returned e \<Rightarrow> Some (svc, e)
          | _ \<Rightarrow> None)
      | Send_returned e \<Rightarrow> Some (svc, e)
      | _ \<Rightarrow> None)"
  by (simp add: CallNoReturn_def Send_test_def Send_connect_def Send_write_def nextSession_def Let_def split: option.split)

lemma deliver_sections: "deliver svc msg = (case read_lookup svc msg of None \<Rightarrow> Some svc | Some (ch, msg) \<Rightarrow> hand_over svc ch msg)"
  by (simp add: deliver_def read_lookup_def hand_over_def split: option.split)

lemma tcp_CallNoReturn_eq:
  "CallNoReturn svc m p write = Some
     (if tv_closed svc then (svc, Some ErrClosed)
      else if \<not> tv_connected svc then (svc, Some ErrNotConnected)
      else let svc' = svc\<lparr>tv_sessionID := tv_sessionID svc + 1\<rparr>;
               frame = wire (request svc m (tv_sessionID svc + 1) MsgTypeRequestNoReturn p)
           in case write frame of None \<Rightarrow> (svc'\<lparr>tv_out := tv_out svc @ [frame]\<rparr>, None) | Some e \<Rightarrow> (svc', Some e))"
  by (simp add: CallNoReturn_def nextSession_def request_def Let_def split: option.split)

section \<open>The steps\<close>

text \<open>The client; the session of the call each channel was made for; the goroutines; what the read loop has looked up.\<close>

record tcp_client =
  tc_svc :: Service
  tc_calls :: "nat \<rightharpoonup> u16"
  tc_pcs :: "nat \<rightharpoonup> tcp_pc"
  tc_read :: "(nat \<times> message) option"

definition tc_goes :: "tcp_client \<Rightarrow> nat \<Rightarrow> Service \<Rightarrow> tcp_pc \<Rightarrow> tcp_client" where
  "tc_goes c t svc pc = c\<lparr>tc_svc := svc, tc_pcs := (tc_pcs c)(t \<mapsto> pc)\<rparr>"

inductive tcp_step :: "tcp_client \<Rightarrow> tcp_client option \<Rightarrow> bool" where
  tc_test: "tc_pcs c t = None \<Longrightarrow> tcp_step c (Some (tc_goes c t (tc_svc c) (Call_test (tc_svc c) m p)))"
| tc_number: "tc_pcs c t = Some (Passed m p) \<Longrightarrow> nextSession (tc_svc c) = (svc, s) \<Longrightarrow> tcp_step c (Some (tc_goes c t svc (Numbered m p s)))"
| tc_enter: "tc_pcs c t = Some (Numbered m p s) \<Longrightarrow>
    tcp_step c (map_option (\<lambda>(svc, ch, connected). (tc_goes c t svc (Entered m p s ch connected))\<lparr>tc_calls := (tc_calls c)(ch \<mapsto> s)\<rparr>) (Call_enter (tc_svc c) s))"
| tc_write: "tc_pcs c t = Some (Entered m p s ch connected) \<Longrightarrow>
    tcp_step c (map_option (\<lambda>(svc, e). tc_goes c t svc (case e of None \<Rightarrow> Selecting s ch | Some e \<Rightarrow> Leaving s ch (Inl e)))
      (Call_write (tc_svc c) m p s connected write))"
| tc_wake: "tc_pcs c t = Some (Selecting s ch) \<Longrightarrow> Call_wake (tc_svc c) ch w = Some (svc, r) \<Longrightarrow>
    tcp_step c (Some (tc_goes c t svc (Leaving s ch r)))"
| tc_leave: "tc_pcs c t = Some (Leaving s ch r) \<Longrightarrow> tcp_step c (Some (tc_goes c t (Call_end (tc_svc c) s) (Returned (Some s) r)))"
| tc_send_test: "tc_pcs c t = None \<Longrightarrow> tcp_step c (Some (tc_goes c t (tc_svc c) (Send_test (tc_svc c) m p)))"
| tc_send_connect: "tc_pcs c t = Some (Send_passed m p) \<Longrightarrow> tcp_step c (Some (tc_goes c t (tc_svc c) (Send_connect (tc_svc c) m p)))"
| tc_send_number: "tc_pcs c t = Some (Send_connected m p) \<Longrightarrow> nextSession (tc_svc c) = (svc, s) \<Longrightarrow>
    tcp_step c (Some (tc_goes c t svc (Send_numbered m p s)))"
| tc_send_write: "tc_pcs c t = Some (Send_numbered m p s) \<Longrightarrow>
    tcp_step c (map_option (\<lambda>(svc, e). tc_goes c t svc (Send_returned e)) (Send_write (tc_svc c) m p s write))"
| tc_lookup: "tc_read c = None \<Longrightarrow> tcp_step c (Some (c\<lparr>tc_read := read_lookup (tc_svc c) msg\<rparr>))"
| tc_hand: "tc_read c = Some (ch, msg) \<Longrightarrow>
    tcp_step c (map_option (\<lambda>svc. c\<lparr>tc_svc := svc, tc_read := None\<rparr>) (hand_over (tc_svc c) ch msg))"
| tc_close: "tcp_step c (Some (c\<lparr>tc_svc := fst (Service_Close cc (tc_svc c))\<rparr>))"

definition tcp_start :: "Service \<Rightarrow> tcp_client" where
  "tcp_start svc = \<lparr>tc_svc = svc, tc_calls = Map.empty, tc_pcs = Map.empty, tc_read = None\<rparr>"

inductive tcp_reachable :: "tcp_client \<Rightarrow> bool" where
  tcp_new: "NewService dial addr sid iid t dt = Inr svc \<Longrightarrow> tcp_reachable (tcp_start svc)"
| tcp_next: "tcp_reachable c \<Longrightarrow> tcp_step c (Some c') \<Longrightarrow> tcp_reachable c'"

section \<open>The invariant\<close>

text \<open>The number and channel of a call that is in the table, or was.\<close>

fun holds :: "tcp_pc \<Rightarrow> (u16 \<times> nat) option" where
  "holds (Entered m p s ch connected) = Some (s, ch)"
| "holds (Selecting s ch) = Some (s, ch)"
| "holds (Leaving s ch r) = Some (s, ch)"
| "holds _ = None"

fun own_result :: "tcp_pc \<Rightarrow> bool" where
  "own_result (Leaving s ch r) = (\<forall>m. r = Inr m \<longrightarrow> SessionID m = s)"
| "own_result (Returned (Some s) r) = (\<forall>m. r = Inr m \<longrightarrow> SessionID m = s)"
| "own_result (Returned None r) = (r = Inl ErrClosed)"
| "own_result _ = True"

text \<open>A channel made for a call is open for ever, has room for one message and holds only messages of the session of
  the call; the table and the read loop refer to such channels only.\<close>

definition call_chan :: "message chan \<Rightarrow> u16 \<Rightarrow> bool" where
  "call_chan q s \<longleftrightarrow> \<not> ch_closed q \<and> ch_cap q = 1 \<and> length (ch_queue q) \<le> 1 \<and> (\<forall>m \<in> set (ch_queue q). SessionID m = s)"

definition tcp_client_ok :: "tcp_client \<Rightarrow> bool" where
  "tcp_client_ok c \<longleftrightarrow> tv_connected (tc_svc c) \<and>
     (\<forall>ch s. tc_calls c ch = Some s \<longrightarrow> ch < tv_next (tc_svc c) \<and> call_chan (tv_chans (tc_svc c) ch) s) \<and>
     (\<forall>t pc. tc_pcs c t = Some pc \<longrightarrow> own_result pc) \<and>
     (\<forall>t pc s ch. tc_pcs c t = Some pc \<and> holds pc = Some (s, ch) \<longrightarrow> tc_calls c ch = Some s) \<and>
     (\<forall>s ch. tv_pending (tc_svc c) s = Some ch \<longrightarrow> (\<exists>t pc. tc_pcs c t = Some pc \<and> holds pc = Some (s, ch))) \<and>
     (\<forall>ch m. tc_read c = Some (ch, m) \<longrightarrow> tc_calls c ch = Some (SessionID m))"

lemma tcp_okI:
  assumes "tv_connected (tc_svc c)"
    and "\<And>ch s. tc_calls c ch = Some s \<Longrightarrow> ch < tv_next (tc_svc c) \<and> call_chan (tv_chans (tc_svc c) ch) s"
    and "\<And>t pc. tc_pcs c t = Some pc \<Longrightarrow> own_result pc"
    and "\<And>t pc s ch. tc_pcs c t = Some pc \<Longrightarrow> holds pc = Some (s, ch) \<Longrightarrow> tc_calls c ch = Some s"
    and "\<And>s ch. tv_pending (tc_svc c) s = Some ch \<Longrightarrow> \<exists>t pc. tc_pcs c t = Some pc \<and> holds pc = Some (s, ch)"
    and "\<And>ch m. tc_read c = Some (ch, m) \<Longrightarrow> tc_calls c ch = Some (SessionID m)"
  shows "tcp_client_ok c"
  using assms unfolding tcp_client_ok_def by blast

lemma tcp_okD:
  assumes "tcp_client_ok c"
  shows "tv_connected (tc_svc c)"
    and "tc_calls c ch = Some s \<Longrightarrow> ch < tv_next (tc_svc c) \<and> call_chan (tv_chans (tc_svc c) ch) s"
    and "tc_pcs c t = Some pc \<Longrightarrow> own_result pc"
    and "tc_pcs c t = Some pc \<Longrightarrow> holds pc = Some (s, ch) \<Longrightarrow> tc_calls c ch = Some s"
    and "tv_pending (tc_svc c) s = Some ch \<Longrightarrow> \<exists>t pc. tc_pcs c t = Some pc \<and> holds pc = Some (s, ch)"
    and "tc_read c = Some (ch, m) \<Longrightarrow> tc_calls c ch = Some (SessionID m)"
  using assms unfolding tcp_client_ok_def by blast+

text \<open>A step of one goroutine that keeps its number and channel, and keeps or offers to the channels of calls.\<close>

lemma tcp_ok_goes:
  assumes ok: "tcp_client_ok c" and svc: "tv_connected svc" "tv_pending svc = tv_pending (tc_svc c)" "tv_next svc = tv_next (tc_svc c)"
    and chans: "\<And>ch s. tc_calls c ch = Some s \<Longrightarrow> call_chan (tv_chans svc ch) s"
    and held: "holds pc' = (case tc_pcs c t of None \<Rightarrow> None | Some pc \<Rightarrow> holds pc)" and own: "own_result pc'"
  shows "tcp_client_ok (tc_goes c t svc pc')"
proof -
  note d = tcp_okD [OF ok]
  have h: "\<exists>q. tc_pcs c x = Some q \<and> holds q = Some k" if "((tc_pcs c)(t \<mapsto> pc')) x = Some q" "holds q = Some k" for x q k
    using that held by (cases "tc_pcs c t") (auto split: if_splits)
  show ?thesis
  proof (rule tcp_okI, goal_cases)
    case (4 x q s ch)
    then show ?case using h [of x q] d(4) by (auto simp: tc_goes_def)
  next
    case (5 s ch)
    then obtain x q where x: "tc_pcs c x = Some q" "holds q = Some (s, ch)" using d(5) svc(2) by (force simp: tc_goes_def)
    then show ?case using held by (cases "x = t") (auto simp: tc_goes_def)
  qed (use svc d chans own in \<open>auto simp: tc_goes_def split: if_splits\<close>)
qed

lemma tcp_ok_svc:
  assumes ok: "tcp_client_ok c" and svc: "tv_connected svc" "tv_pending svc = tv_pending (tc_svc c)" "tv_next svc = tv_next (tc_svc c)"
    and chans: "\<And>ch s. tc_calls c ch = Some s \<Longrightarrow> call_chan (tv_chans svc ch) s"
    and rd: "\<And>ch m. rd = Some (ch, m) \<Longrightarrow> tc_calls c ch = Some (SessionID m)"
  shows "tcp_client_ok (c\<lparr>tc_svc := svc, tc_read := rd\<rparr>)"
  using tcp_okD [OF ok] svc chans rd by (intro tcp_okI) (simp; blast)+

lemma tcp_ok_entered:
  assumes ok: "tcp_client_ok c" and t: "tc_pcs c t = Some (Numbered m p s)"
  shows "\<exists>svc ch b. Call_enter (tc_svc c) s = Some (svc, ch, b) \<and>
    tcp_client_ok ((tc_goes c t svc (Entered m p s ch b))\<lparr>tc_calls := (tc_calls c)(ch \<mapsto> s)\<rparr>)"
proof -
  note d = tcp_okD [OF ok]
  let ?n = "tv_next (tc_svc c)"
  let ?svc = "(tc_svc c)\<lparr>tv_chans := (tv_chans (tc_svc c))(?n := \<lparr>ch_queue = [], ch_cap = 1, ch_closed = False\<rparr>),
     tv_next := ?n + 1, tv_pending := (tv_pending (tc_svc c))(s \<mapsto> ?n)\<rparr>"
  have fresh: "tc_calls c ?n = None" using d(2) [of ?n] by fastforce
  have e: "Call_enter (tc_svc c) s = Some (?svc, ?n, True)" using d(1) by (simp add: Call_enter_def new_chan_def make_chan_def)
  have "tcp_client_ok ((tc_goes c t ?svc (Entered m p s ?n True))\<lparr>tc_calls := (tc_calls c)(?n \<mapsto> s)\<rparr>)"
  proof (rule tcp_okI, goal_cases)
    case (2 ch s')
    then show ?case using d(2) [of ch s'] by (auto simp: tc_goes_def call_chan_def split: if_splits)
  next
    case (4 x pc s' ch)
    then show ?case using d(4) [of x pc s' ch] fresh by (auto simp: tc_goes_def split: if_splits)
  next
    case (5 s' ch)
    show ?case
    proof (cases "s' = s")
      case False
      then obtain x pc where "tc_pcs c x = Some pc" "holds pc = Some (s', ch)" using 5 d(5) by (force simp: tc_goes_def)
      then show ?thesis using t by (intro exI [of _ x]) (auto simp: tc_goes_def)
    qed (use 5 in \<open>auto simp: tc_goes_def\<close>)
  next
    case (6 ch x)
    then show ?case using d(6) [of ch x] fresh by (auto simp: tc_goes_def)
  qed (use d in \<open>auto simp: tc_goes_def split: if_splits\<close>)
  with e show ?thesis by blast
qed

lemma tcp_ok_left:
  assumes ok: "tcp_client_ok c" and t: "tc_pcs c t = Some (Leaving s ch r)"
  shows "tcp_client_ok (tc_goes c t (Call_end (tc_svc c) s) (Returned (Some s) r))"
proof -
  note d = tcp_okD [OF ok]
  show ?thesis
  proof (rule tcp_okI, goal_cases)
    case (3 x pc)
    then show ?case using d(3) [of x pc] d(3) [OF t] by (auto simp: tc_goes_def split: if_splits)
  next
    case (4 x pc s' ch)
    then show ?case using d(4) [of x pc] by (auto simp: tc_goes_def split: if_splits)
  next
    case (5 s' ch')
    then have s': "s' \<noteq> s" "tv_pending (tc_svc c) s' = Some ch'" by (auto simp: tc_goes_def Call_end_def split: if_splits)
    then obtain x pc where "tc_pcs c x = Some pc" "holds pc = Some (s', ch')" using d(5) by blast
    then show ?case using t s'(1) by (intro exI [of _ x]) (auto simp: tc_goes_def)
  qed (use d in \<open>auto simp: tc_goes_def Call_end_def\<close>)
qed

lemma tcp_Call_write_eq:
  "Call_write svc m p s True write = Some (let frame = wire (request svc m s MsgTypeRequest p) in
     case write frame of Some e \<Rightarrow> (svc, Some (Errorf ''tcp: send'' e)) | None \<Rightarrow> (svc\<lparr>tv_out := tv_out svc @ [frame]\<rparr>, None))"
  by (simp add: Call_write_def request_def Let_def)

lemma tcp_ok_wake:
  assumes ok: "tcp_client_ok c" and call: "tc_calls c ch = Some s" and w: "Call_wake (tc_svc c) ch w = Some (svc, r)"
  shows "tv_connected svc \<and> tv_pending svc = tv_pending (tc_svc c) \<and> tv_next svc = tv_next (tc_svc c)
    \<and> (\<forall>ch s. tc_calls c ch = Some s \<longrightarrow> call_chan (tv_chans svc ch) s) \<and> (\<forall>m. r = Inr m \<longrightarrow> SessionID m = s)"
  using tcp_okD(1,2) [OF ok] tcp_okD(2) [OF ok call] w
  by (auto simp: Call_wake_def recv_def call_chan_def split: wake.splits list.splits option.splits if_splits)

lemma tcp_ok_hand:
  assumes ok: "tcp_client_ok c" and rd: "tc_read c = Some (ch, msg)"
  shows "\<exists>svc. hand_over (tc_svc c) ch msg = Some svc \<and> tcp_client_ok (c\<lparr>tc_svc := svc, tc_read := None\<rparr>)"
proof -
  note d = tcp_okD [OF ok]
  have q: "call_chan (tv_chans (tc_svc c) ch) (SessionID msg)" "tc_calls c ch = Some (SessionID msg)" using d(2,6) rd by blast+
  let ?q = "tv_chans (tc_svc c) ch"
  let ?q' = "if ch_queue ?q = [] then ?q\<lparr>ch_queue := [msg]\<rparr> else ?q"
  have "try_send ?q msg = Some ?q'" using q(1) by (auto simp: try_send_def call_chan_def Suc_le_eq)
  then have "hand_over (tc_svc c) ch msg = Some ((tc_svc c)\<lparr>tv_chans := (tv_chans (tc_svc c))(ch := ?q')\<rparr>)" by (simp add: hand_over_def)
  moreover have "tcp_client_ok (c\<lparr>tc_svc := (tc_svc c)\<lparr>tv_chans := (tv_chans (tc_svc c))(ch := ?q')\<rparr>, tc_read := None\<rparr>)"
  proof (rule tcp_ok_svc [OF ok])
    have "call_chan ?q' (SessionID msg)" using q(1) by (auto simp: call_chan_def)
    then show "call_chan (tv_chans ((tc_svc c)\<lparr>tv_chans := (tv_chans (tc_svc c))(ch := ?q')\<rparr>) ch') s" if "tc_calls c ch' = Some s" for ch' s
      using d(2) [OF that] that q(2) by (cases "ch' = ch") simp_all
  qed (use d(1) in simp_all)
  ultimately show ?thesis by blast
qed

lemma tcp_step_ok:
  assumes "tcp_step c r" and ok: "tcp_client_ok c"
  shows "\<exists>c'. r = Some c' \<and> tcp_client_ok c'"
proof -
  note d = tcp_okD [OF ok]
  note goes = tcp_ok_goes [OF ok]
  show ?thesis
    using assms(1)
  proof cases
    case (tc_test t m p)
    then show ?thesis using d(1,2) goes [of "tc_svc c" "Call_test (tc_svc c) m p" t] by (auto simp: Call_test_def)
  next
    case (tc_number t m p svc s)
    then have "svc = (tc_svc c)\<lparr>tv_sessionID := s\<rparr>" by (auto simp: nextSession_def Let_def)
    then show ?thesis using tc_number d(1,2) goes [of svc "Numbered m p s" t] by auto
  next
    case (tc_enter t m p s)
    then show ?thesis using tcp_ok_entered [OF ok tc_enter(2)] by auto
  next
    case (tc_write t m p s ch b wr)
    have "tcp_client_ok (tc_goes c t svc pc)" if "svc = tc_svc c \<or> (\<exists>out. svc = (tc_svc c)\<lparr>tv_out := out\<rparr>)"
      "pc = Selecting s ch \<or> (\<exists>e. pc = Leaving s ch (Inl e))" for svc pc
      using that d(1,2) tc_write(2) by (intro goes) auto
    then show ?thesis using tc_write by (auto simp: Call_write_def split: option.split)
  next
    case (tc_wake t s ch w svc x)
    have "tc_calls c ch = Some s" using d(4) [OF tc_wake(2)] by simp
    from tcp_ok_wake [OF ok this tc_wake(3)] show ?thesis using tc_wake goes [of svc "Leaving s ch x" t] by auto
  next
    case (tc_leave t s ch x)
    then show ?thesis using tcp_ok_left [OF ok tc_leave(2)] by blast
  next
    case (tc_send_test t m p)
    then show ?thesis using d(1,2) goes [of "tc_svc c" "Send_test (tc_svc c) m p" t] by (auto simp: Send_test_def)
  next
    case (tc_send_connect t m p)
    then show ?thesis using d(1,2) goes [of "tc_svc c" "Send_connect (tc_svc c) m p" t] by (auto simp: Send_connect_def)
  next
    case (tc_send_number t m p svc s)
    then have "svc = (tc_svc c)\<lparr>tv_sessionID := s\<rparr>" by (auto simp: nextSession_def Let_def)
    then show ?thesis using tc_send_number d(1,2) goes [of svc "Send_numbered m p s" t] by auto
  next
    case (tc_send_write t m p s wr)
    have "tcp_client_ok (tc_goes c t svc (Send_returned e))" if "svc = tc_svc c \<or> (\<exists>out. svc = (tc_svc c)\<lparr>tv_out := out\<rparr>)" for svc e
      using that d(1,2) tc_send_write(2) by (intro goes) auto
    then show ?thesis using tc_send_write by (auto simp: Send_write_def split: option.split)
  next
    case (tc_lookup msg)
    have "tc_calls c ch = Some s" if "tv_pending (tc_svc c) s = Some ch" for s ch using d(4) d(5) [OF that] by blast
    then have "tcp_client_ok (c\<lparr>tc_svc := tc_svc c, tc_read := read_lookup (tc_svc c) msg\<rparr>)"
      using d(1,2) by (intro tcp_ok_svc ok) (auto simp: read_lookup_def)
    then show ?thesis using tc_lookup by simp
  next
    case (tc_hand ch msg)
    then show ?thesis using tcp_ok_hand [OF ok] by auto
  next
    case (tc_close cc)
    have "tcp_client_ok (c\<lparr>tc_svc := fst (Service_Close cc (tc_svc c)), tc_read := tc_read c\<rparr>)"
      using d by (intro tcp_ok_svc ok) (auto simp: Service_Close_def Let_def)
    then show ?thesis using tc_close by simp
  qed
qed

lemma tcp_reachable_ok: "tcp_reachable c \<Longrightarrow> tcp_client_ok c"
proof (induction rule: tcp_reachable.induct)
  case (tcp_new dial addr sid iid t dt svc)
  then show ?case by (auto simp: NewService_def tcp_client_ok_def tcp_start_def Let_def split: option.splits)
next
  case (tcp_next c c')
  then show ?case using tcp_step_ok by blast
qed

section \<open>Properties\<close>

definition tcp_sample_client :: tcp_client where
  "tcp_sample_client = tcp_start (tcp_sample_service\<lparr>tv_sessionID := 0\<rparr>)"

lemma tcp_sample_reachable: "tcp_reachable tcp_sample_client"
proof -
  have "NewService (\<lambda>_ _. None) [] 0x1234 1 0 0 = Inr (tcp_sample_service\<lparr>tv_sessionID := 0\<rparr>)"
    by (simp add: NewService_def tcp_sample_service_def)
  then show ?thesis unfolding tcp_sample_client_def by (rule tcp_new)
qed

text \<open>C25: calls of a TCP client cut into their critical sections. However the sections of any number of calls and fire-and-forget
  requests, the lookup and the send of the read loop and closes interleave, no step panics, although the read loop may send to the
  channel of a call that has returned. A call that returned a message returned one of its own session, of whatever type. And no
  call leaves a trace: when all have returned, whether answered, timed out, cancelled or failed, the table of pending calls is
  empty.\<close>

theorem tcp_client_safe:
  assumes "tcp_reachable c"
  shows "(\<forall>r. tcp_step c r \<longrightarrow> r \<noteq> None) \<and>
    (\<forall>t s m. tc_pcs c t = Some (Returned (Some s) (Inr m)) \<longrightarrow> SessionID m = s) \<and>
    ((\<forall>t pc. tc_pcs c t = Some pc \<longrightarrow> (\<exists>s r. pc = Returned s r) \<or> (\<exists>e. pc = Send_returned e)) \<longrightarrow> tv_pending (tc_svc c) = Map.empty)"
proof (intro conjI impI allI)
  note ok = tcp_reachable_ok [OF assms]
  note d = tcp_okD [OF ok]
  show "tcp_step c r \<Longrightarrow> r \<noteq> None" for r using tcp_step_ok [OF _ ok] by blast
  show "SessionID m = s" if "tc_pcs c t = Some (Returned (Some s) (Inr m))" for t s m
    using d(3) [OF that] by simp
  show "tv_pending (tc_svc c) = Map.empty"
    if r: "\<forall>t pc. tc_pcs c t = Some pc \<longrightarrow> (\<exists>s r. pc = Returned s r) \<or> (\<exists>e. pc = Send_returned e)"
  proof
    fix s
    show "tv_pending (tc_svc c) s = None"
    proof (rule ccontr)
      assume "tv_pending (tc_svc c) s \<noteq> None"
      then obtain t pc ch where "tc_pcs c t = Some pc" "holds pc = Some (s, ch)" using d(5) by blast
      then show False using r by fastforce
    qed
  qed
qed

text \<open>A message with the number of the call is looked up: a request, which the client takes for the answer. The deadline of the call
  passes, the call deletes its entry and returns, and only then the read loop sends to the channel nobody reads.\<close>

theorem tcp_client_safe_witness:
  "\<exists>c. let msg = zero_message\<lparr>SessionID := 1, MessageType := MsgTypeRequest\<rparr> in
     tcp_reachable c \<and> tc_pcs c 0 = Some (Returned (Some 1) (Inl ErrTimeout)) \<and> ch_queue (tv_chans (tc_svc c) 0) = [msg]
     \<and> (\<forall>r. tcp_step c r \<longrightarrow> r \<noteq> None) \<and> tv_pending (tc_svc c) = Map.empty"
proof -
  let ?msg = "zero_message\<lparr>SessionID := 1, MessageType := MsgTypeRequest\<rparr>"
  let ?st = "\<lambda>svc calls pc rd. \<lparr>tc_svc = svc, tc_calls = calls, tc_pcs = [0 \<mapsto> pc], tc_read = rd\<rparr>"
  let ?q = "\<lparr>ch_queue = [], ch_cap = 1, ch_closed = False\<rparr>"
  let ?svc0 = "tcp_sample_service\<lparr>tv_sessionID := 0\<rparr>" and ?svc1 = "tcp_sample_service\<lparr>tv_sessionID := 1\<rparr>"
  let ?svc2 = "?svc1\<lparr>tv_chans := (tv_chans ?svc1)(0 := ?q), tv_next := 1, tv_pending := [1 \<mapsto> 0]\<rparr>"
  let ?svc3 = "?svc2\<lparr>tv_out := [wire (request ?svc2 1 1 MsgTypeRequest [])]\<rparr>"
  let ?svc4 = "Call_end ?svc3 1"
  let ?svc5 = "?svc4\<lparr>tv_chans := (tv_chans ?svc4)(0 := \<lparr>ch_queue = [?msg], ch_cap = 1, ch_closed = False\<rparr>)\<rparr>"
  have v: "tv_closed ?svc0 = False" "tv_connected ?svc1 = True" "tv_next ?svc1 = 0" "tv_pending ?svc1 = Map.empty" "tv_out ?svc1 = []"
    by (simp_all add: tcp_sample_service_def)
  have "tcp_reachable (?st ?svc0 Map.empty (Passed 1 []) None)"
    using tcp_next [OF tcp_sample_reachable tc_test [of _ 0 1 "[]"]] v by (simp add: tcp_sample_client_def tcp_start_def tc_goes_def Call_test_def)
  from tcp_next [OF this tc_number [of _ 0 1 "[]" ?svc1 1]] have "tcp_reachable (?st ?svc1 Map.empty (Numbered 1 [] 1) None)"
    by (simp add: tc_goes_def nextSession_def)
  from tcp_next [OF this] tc_enter [of "?st ?svc1 Map.empty (Numbered 1 [] 1) None" 0 1 "[]" 1]
  have "tcp_reachable (?st ?svc2 [0 \<mapsto> 1] (Entered 1 [] 1 0 True) None)"
    using v by (simp add: tc_goes_def Call_enter_def new_chan_def make_chan_def)
  from tcp_next [OF this] tc_write [of "?st ?svc2 [0 \<mapsto> 1] (Entered 1 [] 1 0 True) None" 0 1 "[]" 1 0 True "\<lambda>_. None"]
  have "tcp_reachable (?st ?svc3 [0 \<mapsto> 1] (Selecting 1 0) None)" using v by (simp add: tc_goes_def tcp_Call_write_eq)
  from tcp_next [OF this] tc_lookup [of "?st ?svc3 [0 \<mapsto> 1] (Selecting 1 0) None" ?msg]
  have "tcp_reachable (?st ?svc3 [0 \<mapsto> 1] (Selecting 1 0) (Some (0, ?msg)))" by (simp add: read_lookup_def)
  from tcp_next [OF this tc_wake [of _ 0 1 0 Woken_by_deadline ?svc3 "Inl ErrTimeout"]]
  have "tcp_reachable (?st ?svc3 [0 \<mapsto> 1] (Leaving 1 0 (Inl ErrTimeout)) (Some (0, ?msg)))" by (simp add: tc_goes_def Call_wake_def)
  from tcp_next [OF this tc_leave [of _ 0 1 0 "Inl ErrTimeout"]]
  have "tcp_reachable (?st ?svc4 [0 \<mapsto> 1] (Returned (Some 1) (Inl ErrTimeout)) (Some (0, ?msg)))" by (simp add: tc_goes_def)
  from tcp_next [OF this] tc_hand [of "?st ?svc4 [0 \<mapsto> 1] (Returned (Some 1) (Inl ErrTimeout)) (Some (0, ?msg))" 0 ?msg]
  have reach: "tcp_reachable (?st ?svc5 [0 \<mapsto> 1] (Returned (Some 1) (Inl ErrTimeout)) None)"
    by (simp add: hand_over_def try_send_def Call_end_def)
  from tcp_client_safe [OF this] have "(\<forall>r. tcp_step (?st ?svc5 [0 \<mapsto> 1] (Returned (Some 1) (Inl ErrTimeout)) None) r \<longrightarrow> r \<noteq> None)
    \<and> tv_pending ?svc5 = Map.empty" by simp
  then show ?thesis using reach unfolding Let_def
    by (intro exI [of _ "?st ?svc5 [0 \<mapsto> 1] (Returned (Some 1) (Inl ErrTimeout)) None"]) simp
qed

text \<open>Errors of a TCP client. It never forgets its connection: whatever happens to that, no call and no fire-and-forget
  request reports \<open>ErrNotConnected\<close> of itself. One that cannot be sent is refused with \<open>ErrClosed\<close> when the client is
  closed, and fails with the error of the write otherwise.\<close>

theorem tcp_client_errors:
  assumes "tcp_reachable c"
  shows "(case Call_begin (tc_svc c) m p wr of None \<Rightarrow> False | Some (svc, Inr _) \<Rightarrow> \<not> tv_closed (tc_svc c)
      | Some (svc, Inl e) \<Rightarrow> if tv_closed (tc_svc c) then e = ErrClosed
          else \<exists>we. wr (wire (request (tc_svc c) m (tv_sessionID (tc_svc c) + 1) MsgTypeRequest p)) = Some we \<and> e = Errorf ''tcp: send'' we)
    \<and> (case CallNoReturn (tc_svc c) m p wr of None \<Rightarrow> False | Some (svc, None) \<Rightarrow> \<not> tv_closed (tc_svc c)
      | Some (svc, Some e) \<Rightarrow> if tv_closed (tc_svc c) then e = ErrClosed
          else wr (wire (request (tc_svc c) m (tv_sessionID (tc_svc c) + 1) MsgTypeRequestNoReturn p)) = Some e)"
  using tcp_okD(1) [OF tcp_reachable_ok [OF assms]]
  by (auto simp: tcp_Call_begin_eq tcp_CallNoReturn_eq Let_def split: option.split)

theorem tcp_client_errors_witness:
  "\<exists>svc. Call_begin (tc_svc tcp_sample_client) 1 [] (\<lambda>_. Some (New ''broken pipe'')) = Some (svc, Inl (Errorf ''tcp: send'' (New ''broken pipe'')))"
proof -
  let ?wr = "\<lambda>_. Some (New ''broken pipe'')"
  obtain svc e where "Call_begin (tc_svc tcp_sample_client) 1 [] ?wr = Some (svc, Inl e)" "\<not> tv_closed (tc_svc tcp_sample_client)"
    by (simp add: tcp_Call_begin_eq tcp_sample_client_def tcp_start_def tcp_sample_service_def Let_def)
  then show ?thesis using tcp_client_errors [OF tcp_sample_reachable, where m = 1 and p = "[]" and wr = ?wr] by simp
qed

end
