(* ===== verification/Clients_Agree.thy ===== *)
theory Clients_Agree
  imports UDP TCP_Client
begin

text \<open>
  The clients of \<open>src/udp/udp.go\<close> and \<open>src/tcp/tcp.go\<close> side by side: where they do the same, they are the same machine. The
  operations of a client in any order, with what the world gives it: the result of each write, what wakes each call,
  and the responses that arrive. The locale \<open>lockstep\<close> is interpreted on the two.
\<close>

section \<open>Runs of a client\<close>

datatype client_op = Begins u16 "byte list" "goerr option" | Sends u16 "byte list" "goerr option" | Wakes u16 nat wake
  | Arrives message | Shuts "goerr option"

datatype outcome = Waits u16 nat | Gives message | Fails goerr | Done

text \<open>An error of a write without the text that names the transport.\<close>

fun unwrap :: "goerr \<Rightarrow> goerr" where
  "unwrap (Errorf s e) = (if s = ''udp: send'' \<or> s = ''tcp: send'' then e else Errorf s e)"
| "unwrap e = e"

definition done_or :: "goerr option \<Rightarrow> outcome" where
  "done_or e = (case e of None \<Rightarrow> Done | Some err \<Rightarrow> Fails (unwrap err))"

fun udp_op :: "UDP.Service \<Rightarrow> client_op \<Rightarrow> (UDP.Service \<times> outcome) option" where
  "udp_op svc (Begins m p e) = map_option (map_prod id (case_sum (\<lambda>err. Fails (unwrap err)) (\<lambda>(s, ch). Waits s ch))) (UDP.Call_begin svc m p (\<lambda>_. e))"
| "udp_op svc (Sends m p e) = map_option (map_prod id done_or) (UDP.CallNoReturn svc m p (\<lambda>_. e))"
| "udp_op svc (Wakes s ch w) = map_option (map_prod id (case_sum (\<lambda>err. Fails (unwrap err)) Gives)) (UDP.Call_select svc s ch w)"
| "udp_op svc (Arrives msg) = map_option (\<lambda>svc. (svc, Done)) (UDP.dispatchFrame svc (wire msg))"
| "udp_op svc (Shuts e) = Some (map_prod id done_or (UDP.Service_Close (\<lambda>_. e) svc))"

fun tcp_op :: "TCP.Service \<Rightarrow> client_op \<Rightarrow> (TCP.Service \<times> outcome) option" where
  "tcp_op svc (Begins m p e) = map_option (map_prod id (case_sum (\<lambda>err. Fails (unwrap err)) (\<lambda>(s, ch). Waits s ch))) (TCP.Call_begin svc m p (\<lambda>_. e))"
| "tcp_op svc (Sends m p e) = map_option (map_prod id done_or) (TCP.CallNoReturn svc m p (\<lambda>_. e))"
| "tcp_op svc (Wakes s ch w) = map_option (map_prod id (case_sum (\<lambda>err. Fails (unwrap err)) Gives)) (TCP.Call_select svc s ch w)"
| "tcp_op svc (Arrives msg) = map_option (\<lambda>svc. (svc, Done)) (deliver svc msg)"
| "tcp_op svc (Shuts e) = Some (map_prod id done_or (TCP.Service_Close (\<lambda>_. e) svc))"

text \<open>A response both take for one.\<close>

fun op_ok :: "client_op \<Rightarrow> bool" where
  "op_ok (Arrives msg) = response_frame msg"
| "op_ok _ = True"

section \<open>The simulation\<close>

definition sent_frames :: "UDP.Service \<Rightarrow> byte list list" where
  "sent_frames svc = [f. Datagram a f \<leftarrow> sv_log svc]"

definition same_client :: "UDP.Service \<Rightarrow> TCP.Service \<Rightarrow> bool" where
  "same_client u t \<longleftrightarrow> tv_connected t \<and> sv_ServiceID u = tv_ServiceID t \<and> sv_sessionID u = tv_sessionID t
     \<and> sv_pending u = tv_pending t \<and> sv_closed u = tv_closed t \<and> sv_chans u = tv_chans t \<and> sv_next u = tv_next t
     \<and> sent_frames u = tv_out t"

lemma sent_frames_send [simp]: "sent_frames (send_udp u f) = sent_frames u @ [f]"
  by (simp add: sent_frames_def send_udp_def)

lemma same_request: "same_client u t \<Longrightarrow> UDP.request u m s ty p = TCP.request t m s ty p"
  by (simp add: UDP.request_def TCP.request_def same_client_def)

lemma same_called: "same_client u t \<Longrightarrow> same_client (UDP.called u) (TCP.called t)"
  by (simp add: same_client_def UDP.called_def TCP.called_def sent_frames_def)

lemma same_ended: "same_client u t \<Longrightarrow> same_client (UDP.Call_end u s) (TCP.Call_end t s)"
  by (simp add: same_client_def UDP.Call_end_def TCP.Call_end_def sent_frames_def)

lemma same_sent: "same_client u t \<Longrightarrow> same_client (send_udp u f) (t\<lparr>tv_out := tv_out t @ [f]\<rparr>)"
  by (simp add: same_client_def, simp add: send_udp_def)

lemma same_op:
  assumes "same_client u t" "op_ok x"
  shows "rel_option (rel_prod same_client (=)) (udp_op u x) (tcp_op t x)"
proof (cases x)
  case (Begins m p e)
  have "tv_connected t" "sv_closed u = tv_closed t" "sv_sessionID u = tv_sessionID t" "sv_next u = tv_next t"
    using assms(1) by (simp_all add: same_client_def)
  then show ?thesis
    using same_ended [OF same_called [OF assms(1)]] same_sent [OF same_called [OF assms(1)]] assms(1)
    by (auto simp: Begins UDP.Call_begin_eq tcp_Call_begin_eq Let_def same_request [OF assms(1)] split: option.split)
      (auto simp: TCP.called_def)
next
  case (Sends m p e)
  have "tv_connected t" "sv_closed u = tv_closed t" "sv_sessionID u = tv_sessionID t" using assms(1) by (simp_all add: same_client_def)
  moreover have s: "same_client (u\<lparr>sv_sessionID := n\<rparr>) (t\<lparr>tv_sessionID := n\<rparr>)" for n
    using assms(1) by (simp add: same_client_def sent_frames_def)
  ultimately show ?thesis
    using same_sent [OF s] assms(1)
    by (auto simp: Sends UDP.CallNoReturn_eq tcp_CallNoReturn_eq Let_def same_request [OF assms(1)] done_or_def split: option.split)
next
  case (Wakes s ch w)
  have c: "sv_chans u = tv_chans t" using assms(1) by (simp add: same_client_def)
  have "same_client (u\<lparr>sv_chans := f\<rparr>) (t\<lparr>tv_chans := f\<rparr>)" for f using assms(1) by (simp add: same_client_def sent_frames_def)
  from same_ended [OF this] show ?thesis
    using same_ended [OF assms(1)] c
    by (auto simp: Wakes UDP.Call_select_def TCP.Call_select_def split: wake.split option.split)
next
  case (Arrives msg)
  have c: "sv_chans u = tv_chans t" "sv_pending u = tv_pending t" using assms(1) by (simp_all add: same_client_def)
  have "same_client (u\<lparr>sv_chans := f\<rparr>) (t\<lparr>tv_chans := f\<rparr>)" for f using assms(1) by (simp add: same_client_def sent_frames_def)
  moreover have "response_frame msg" using assms(2) by (simp add: Arrives)
  ultimately show ?thesis
    using assms(1) c by (cases "tv_pending t (SessionID msg)"; cases "try_send (tv_chans t (the (tv_pending t (SessionID msg)))) msg")
      (simp_all add: Arrives dispatchFrame_response deliver_def send_chan_def)
next
  case (Shuts e)
  have "same_client (u\<lparr>sv_closed := True\<rparr>) (t\<lparr>tv_closed := True\<rparr>)" using assms(1) by (simp add: same_client_def sent_frames_def)
  moreover have "tv_connected t" "sv_closed u = tv_closed t" using assms(1) by (simp_all add: same_client_def)
  ultimately show ?thesis
    using assms(1) by (auto simp: Shuts UDP.Service_Close_def TCP.Service_Close_def Let_def)
qed

interpretation clients: lockstep udp_op tcp_op same_client op_ok
  by unfold_locales (rule same_op)

section \<open>Properties\<close>

text \<open>C20: over UDP and over TCP a client is the same machine. From the same start, whatever calls, requests, answers,
  deadlines, cancellations and closes come in whatever order, the two give the same session numbers, results and errors, up to
  the name of the transport in the text of an error, and send the same frames. An answer here is a frame both take for one, as TCP
  takes any message. The waiting of a call on a channel that holds nothing blocks in both or in neither.\<close>

theorem clients_same_machine:
  assumes "UDP.NewService resolve listen addr sid iid timeout = Inr u"
    and "TCP.NewService dial addr' sid iid timeout' dialTimeout = Inr t"
    and "list_all op_ok xs"
  shows "case (outcomes udp_op u xs, outcomes tcp_op t xs) of (None, None) \<Rightarrow> True
    | (Some (u', ys), Some (t', zs)) \<Rightarrow> ys = zs \<and> sent_frames u' = tv_out t' | _ \<Rightarrow> False"
proof -
  have "same_client u t"
    using assms(1,2) by (auto simp: UDP.NewService_def TCP.NewService_def same_client_def sent_frames_def Let_def
        split: sum.splits option.splits)
  then show ?thesis using assms(3) by (rule clients.agree) (simp add: same_client_def)
qed

theorem clients_same_machine_witness:
  "\<exists>u t u' t' a b. let resp = zero_message\<lparr>MethodID := 1, SessionID := 1, ProtocolVersion := 1, MessageType := MsgTypeResponse, Payload := [7]\<rparr>;
       xs = [Begins 1 [7] None, Begins 2 [8] None, Arrives resp, Wakes 2 1 Woken_by_deadline, Wakes 1 0 Woken_by_response,
         Sends 3 [] (Some (New ''broken pipe'')), Shuts None, Begins 1 [7] None];
       ys = [Waits 1 0, Waits 2 1, Done, Fails ErrTimeout, Gives resp, Fails (New ''broken pipe''), Done, Fails ErrClosed] in
     UDP.NewService (\<lambda>_. Inr sample_addr) None [] 0x1234 1 0 = Inr u \<and> TCP.NewService (\<lambda>_ _. None) [] 0x1234 1 0 0 = Inr t \<and>
     outcomes udp_op u xs = Some (u', ys) \<and> outcomes tcp_op t xs = Some (t', ys) \<and> sent_frames u' = [a, b] \<and> tv_out t' = [a, b]"
proof -
  let ?resp = "zero_message\<lparr>MethodID := 1, SessionID := 1, ProtocolVersion := 1, MessageType := MsgTypeResponse, Payload := [7]\<rparr>"
  let ?xs = "[Begins 1 [7] None, Begins 2 [8] None, Arrives ?resp, Wakes 2 1 Woken_by_deadline, Wakes 1 0 Woken_by_response,
    Sends 3 [] (Some (New ''broken pipe'')), Shuts None, Begins 1 [7] None]"
  obtain u where u: "UDP.NewService (\<lambda>_. Inr sample_addr) None [] 0x1234 1 0 = Inr u" by (simp add: UDP.NewService_def)
  obtain t where t: "TCP.NewService (\<lambda>_ _. None) [] 0x1234 1 0 0 = Inr t" by (simp add: TCP.NewService_def)
  have run: "\<exists>t' a b. outcomes tcp_op t ?xs = Some (t', [Waits 1 0, Waits 2 1, Done, Fails ErrTimeout, Gives ?resp,
      Fails (New ''broken pipe''), Done, Fails ErrClosed]) \<and> tv_out t' = [a, b]"
    using t by (auto simp: TCP.NewService_def tcp_Call_begin_eq TCP.called_def deliver_def try_send_def TCP.Call_select_def recv_def
        TCP.Call_end_def tcp_CallNoReturn_eq done_or_def TCP.Service_Close_def ErrTimeout_def ErrClosed_def zero_message_def)
  then obtain t' a b where r: "outcomes tcp_op t ?xs = Some (t', [Waits 1 0, Waits 2 1, Done, Fails ErrTimeout, Gives ?resp,
      Fails (New ''broken pipe''), Done, Fails ErrClosed])" "tv_out t' = [a, b]" by blast
  have "list_all op_ok ?xs" by (simp add: response_frame_def fits_def is_sd_def zero_message_def SDServiceID_def)
  from clients_same_machine [OF u t this] obtain u' where "outcomes udp_op u ?xs = Some (u', [Waits 1 0, Waits 2 1, Done, Fails ErrTimeout,
      Gives ?resp, Fails (New ''broken pipe''), Done, Fails ErrClosed])" "sent_frames u' = [a, b]"
    using r by (auto split: option.splits prod.splits)
  then show ?thesis using u t r unfolding Let_def by blast
qed

end
