(* ===== verification/TCP_Server.thy ===== *)
theory TCP_Server
  imports TCP
begin

text \<open>
  The goroutines of a TCP server (\<open>src/tcp/tcp.go\<close>) and the wait group that counts them: \<open>acceptLoop\<close>, one
  \<open>serveConn\<close> for each connection, one \<open>handleMessage\<close> for each message, which the wait group does not count, and \<open>Close\<close>,
  which waits for the group. What the goroutines do with the messages is in \<open>TCP\<close>; here is when they run and when they end.
\<close>

section \<open>The goroutines\<close>

text \<open>How far the first \<open>Close\<close> has come: only the one that finds \<open>closed\<close> unset goes on. A connection is known by
  a number; \<open>sr_peers\<close> are those whose next read does not fail.\<close>

datatype close_pc = Not_called | Marked | Waiting | Returned

primrec sections_done :: "close_pc \<Rightarrow> nat" where
  "sections_done Not_called = 0"
| "sections_done Marked = 1"
| "sections_done Waiting = 2"
| "sections_done Returned = 3"

lemma sections_done_inject: "sections_done p = sections_done q \<Longrightarrow> p = q"
  by (cases p; cases q) simp_all

instantiation close_pc :: linorder
begin

definition less_eq_close_pc :: "close_pc \<Rightarrow> close_pc \<Rightarrow> bool" where
  "p \<le> q \<longleftrightarrow> sections_done p \<le> sections_done q"

definition less_close_pc :: "close_pc \<Rightarrow> close_pc \<Rightarrow> bool" where
  "p < q \<longleftrightarrow> sections_done p < sections_done q"

instance
  by intro_classes (auto simp: less_eq_close_pc_def less_close_pc_def intro: sections_done_inject)

end

lemma close_order [simp]:
  "Not_called < p \<longleftrightarrow> p \<noteq> Not_called" "p < Waiting \<longleftrightarrow> p \<in> {Not_called, Marked}" "Waiting \<le> p \<longleftrightarrow> p \<in> {Waiting, Returned}"
  "p \<le> Returned" "Not_called \<le> p" "Marked \<le> p \<longleftrightarrow> p \<noteq> Not_called" "Returned \<le> p \<longleftrightarrow> p = Returned"
  by (cases p; simp add: less_eq_close_pc_def less_close_pc_def)+

record server_run =
  sr_closed :: bool
  sr_close :: close_pc
  sr_listening :: bool
  sr_wg :: nat
  sr_accepting :: bool
  sr_conns :: "nat set"
  sr_peers :: "nat set"
  sr_handling :: nat

text \<open>\<open>Done\<close> panics when the counter would become negative.\<close>

definition wg_done :: "server_run \<Rightarrow> server_run option" where
  "wg_done r = (if sr_wg r = 0 then None else Some (r\<lparr>sr_wg := sr_wg r - 1\<rparr>))"

definition start_server :: server_run where
  "start_server = \<lparr>sr_closed = False, sr_close = Not_called, sr_listening = True, sr_wg = 1, sr_accepting = True,
     sr_conns = {}, sr_peers = {}, sr_handling = 0\<rparr>"

text \<open>One round of \<open>acceptLoop\<close>: a connection, or an error.\<close>

definition accept_round :: "server_run \<Rightarrow> nat option \<Rightarrow> server_run option" where
  "accept_round r conn =
     (case conn of
        None \<Rightarrow> if sr_closed r then wg_done (r\<lparr>sr_accepting := False\<rparr>) else Some r
      | Some c \<Rightarrow> Some (r\<lparr>sr_wg := sr_wg r + 1, sr_conns := insert c (sr_conns r), sr_peers := insert c (sr_peers r)\<rparr>))"

text \<open>One round of \<open>serveConn\<close>: a message starts a handler; an error ends the loop and closes the connection.\<close>

definition serve_round :: "server_run \<Rightarrow> nat \<Rightarrow> bool \<Rightarrow> server_run option" where
  "serve_round r c ok =
     (if ok then Some (r\<lparr>sr_handling := sr_handling r + 1\<rparr>)
      else wg_done (r\<lparr>sr_conns := sr_conns r - {c}, sr_peers := sr_peers r - {c}\<rparr>))"

text \<open>The sections of \<open>Close\<close>: the flag, the listener, the wait. A \<open>Close\<close> that finds the flag set returns at once.\<close>

definition close_mark :: "server_run \<Rightarrow> server_run" where
  "close_mark r = (if sr_closed r then r else r\<lparr>sr_closed := True, sr_close := Marked\<rparr>)"

definition close_listener :: "server_run \<Rightarrow> server_run" where
  "close_listener r = r\<lparr>sr_listening := False, sr_close := Waiting\<rparr>"

definition close_return :: "server_run \<Rightarrow> server_run option" where
  "close_return r = (if sr_wg r = 0 then Some (r\<lparr>sr_close := Returned\<rparr>) else None)"

section \<open>The steps\<close>

text \<open>\<open>Accept\<close> gives a connection only while the listener is open. \<open>Peer_ends\<close> is the world's: the peer of a
  connection closes it, or sends what is no frame. A step that panics leads to \<^term>\<open>None\<close>.\<close>

datatype label = Accepts nat | Accept_fails | Reads nat | Read_fails nat | Handled | Close_called | Close_listener
  | Close_returns | Peer_ends nat

inductive server_step :: "server_run \<Rightarrow> label \<Rightarrow> server_run option \<Rightarrow> bool" where
  accepts: "sr_accepting r \<Longrightarrow> sr_listening r \<Longrightarrow> c \<notin> sr_conns r \<Longrightarrow> server_step r (Accepts c) (accept_round r (Some c))"
| accept_fails: "sr_accepting r \<Longrightarrow> server_step r Accept_fails (accept_round r None)"
| reads: "c \<in> sr_conns r \<Longrightarrow> c \<in> sr_peers r \<Longrightarrow> server_step r (Reads c) (serve_round r c True)"
| read_fails: "c \<in> sr_conns r \<Longrightarrow> c \<notin> sr_peers r \<Longrightarrow> server_step r (Read_fails c) (serve_round r c False)"
| handled: "0 < sr_handling r \<Longrightarrow> server_step r Handled (Some (r\<lparr>sr_handling := sr_handling r - 1\<rparr>))"
| close_called: "server_step r Close_called (Some (close_mark r))"
| close_ln: "sr_close r = Marked \<Longrightarrow> server_step r Close_listener (Some (close_listener r))"
| close_returns: "sr_close r = Waiting \<Longrightarrow> close_return r = Some r' \<Longrightarrow> server_step r Close_returns (Some r')"
| peer_ends: "server_step r (Peer_ends c) (Some (r\<lparr>sr_peers := sr_peers r - {c}\<rparr>))"

inductive server_runs :: "server_run \<Rightarrow> label list \<Rightarrow> server_run \<Rightarrow> bool" where
  runs_nil: "server_runs r [] r"
| runs_cons: "server_step r l (Some r1) \<Longrightarrow> server_runs r1 ls r2 \<Longrightarrow> server_runs r (l # ls) r2"

definition server_reachable :: "server_run \<Rightarrow> bool" where
  "server_reachable r \<longleftrightarrow> (\<exists>ls. server_runs start_server ls r)"

inductive_simps server_runs_simps: "server_runs r [] r2" "server_runs r (l # ls) r2"

inductive_simps server_step_simps:
  "server_step r (Accepts c) x" "server_step r Accept_fails x" "server_step r (Reads c) x" "server_step r (Read_fails c) x"
  "server_step r Handled x" "server_step r Close_called x" "server_step r Close_listener x" "server_step r Close_returns x"
  "server_step r (Peer_ends c) x"

lemma runs_append: "server_runs r (ls @ ks) r2 \<longleftrightarrow> (\<exists>r1. server_runs r ls r1 \<and> server_runs r1 ks r2)"
  by (induction ls arbitrary: r) (auto simp: server_runs_simps)

lemma reachable_runs: "server_reachable r \<Longrightarrow> server_runs r ls r' \<Longrightarrow> server_reachable r'"
  unfolding server_reachable_def by (metis runs_append)

section \<open>The invariant\<close>

text \<open>The group counts the goroutines it should; \<open>Close\<close> is past a section exactly when the state shows it.\<close>

definition run_ok :: "server_run \<Rightarrow> bool" where
  "run_ok r \<longleftrightarrow> finite (sr_conns r) \<and> sr_wg r = (if sr_accepting r then 1 else 0) + card (sr_conns r)
     \<and> sr_closed r = (Not_called < sr_close r) \<and> sr_listening r = (sr_close r < Waiting)
     \<and> (sr_accepting r \<or> sr_closed r) \<and> (sr_close r = Returned \<longrightarrow> \<not> sr_accepting r \<and> sr_conns r = {})"

lemmas round_defs = accept_round_def serve_round_def close_mark_def close_listener_def close_return_def wg_done_def

lemma serve_ends:
  "run_ok r \<Longrightarrow> c \<in> sr_conns r \<Longrightarrow> sr_wg r = Suc ((if sr_accepting r then 1 else 0) + card (sr_conns r - {c}))"
  by (simp add: run_ok_def card.remove del: card_Diff_insert)

lemma server_step_ok:
  assumes "server_step r l x" "run_ok r"
  shows "\<exists>r'. x = Some r' \<and> run_ok r'"
  using assms(1)
proof cases
  case (read_fails c)
  then show ?thesis using assms(2) serve_ends [OF assms(2), of c]
    by (simp add: round_defs) (auto simp: run_ok_def)
qed (use assms(2) in \<open>auto simp: round_defs run_ok_def split: if_splits\<close>)

lemma server_runs_ok: "server_runs r ls r' \<Longrightarrow> run_ok r \<Longrightarrow> run_ok r'"
  by (induction rule: server_runs.induct) (auto dest: server_step_ok)

text \<open>\<open>Close\<close> only goes forward.\<close>

lemma close_forward: "server_step r l (Some r') \<Longrightarrow> run_ok r \<Longrightarrow> sr_close r \<le> sr_close r'"
  by (cases rule: server_step.cases) (auto simp: round_defs run_ok_def split: if_splits)

lemma close_goes_forward: "server_runs r ls r' \<Longrightarrow> run_ok r \<Longrightarrow> sr_close r \<le> sr_close r'"
proof (induction rule: server_runs.induct)
  case (runs_cons r l r1 ls r2)
  then have "run_ok r1" using server_step_ok by blast
  then show ?case using runs_cons close_forward order.trans by blast
qed simp

lemma server_reachable_ok: "server_reachable r \<Longrightarrow> run_ok r"
proof -
  have "run_ok start_server" by (simp add: run_ok_def start_server_def)
  then show "server_reachable r \<Longrightarrow> run_ok r" unfolding server_reachable_def using server_runs_ok by blast
qed

text \<open>A connection stays, and its peer with it, until the peer ends it.\<close>

lemma peer_stays:
  "server_runs r ls r' \<Longrightarrow> Peer_ends c \<notin> set ls \<Longrightarrow> c \<in> sr_conns r \<inter> sr_peers r \<Longrightarrow> c \<in> sr_conns r' \<inter> sr_peers r'"
proof (induction rule: server_runs.induct)
  case (runs_cons r l r1 ls r2)
  from runs_cons.hyps(1) have "c \<in> sr_conns r1 \<inter> sr_peers r1"
    by cases (use runs_cons.prems in \<open>auto simp: round_defs split: if_splits\<close>)
  then show ?case using runs_cons by simp
qed

text \<open>What the server itself does to come to its end.\<close>

fun winds_down :: "label \<Rightarrow> bool" where
  "winds_down Accept_fails = True"
| "winds_down (Read_fails c) = True"
| "winds_down Close_returns = True"
| "winds_down _ = False"

definition ending :: "server_run \<Rightarrow> bool" where
  "ending r \<longleftrightarrow> run_ok r \<and> Waiting \<le> sr_close r \<and> sr_conns r \<inter> sr_peers r = {}"

definition left :: "server_run \<Rightarrow> nat" where
  "left r = sr_wg r + (if sr_close r = Returned then 0 else 1)"

lemma ending_step:
  assumes "server_step r l (Some r')" "ending r"
  shows "ending r' \<and> left r = left r' + (if winds_down l then 1 else 0)"
proof -
  have ok: "run_ok r'" using server_step_ok [OF assms(1)] assms(2) by (auto simp: ending_def)
  from assms(1) show ?thesis
  proof cases
    case (read_fails c)
    then show ?thesis using ok assms(2) serve_ends [of r c]
      by (simp add: round_defs left_def ending_def) auto
  qed (use ok assms(2) in \<open>auto simp: ending_def round_defs run_ok_def left_def split: if_splits\<close>)
qed

lemma ending_run:
  "server_runs r ls r' \<Longrightarrow> ending r \<Longrightarrow> ending r' \<and> left r = left r' + length (filter winds_down ls)"
  by (induction rule: server_runs.induct) (auto dest: ending_step)

lemma ending_goes_on:
  assumes "ending r" "sr_close r \<noteq> Returned"
  shows "\<exists>l r'. winds_down l \<and> server_step r l (Some r')"
proof -
  consider "sr_accepting r" | (conn) c where "c \<in> sr_conns r" "c \<notin> sr_peers r" | "\<not> sr_accepting r" "sr_conns r = {}"
    using assms(1) by (auto simp: ending_def)
  then show ?thesis
  proof cases
    case 1
    then have "server_step r Accept_fails (accept_round r None)" by (rule accept_fails)
    moreover have "accept_round r None \<noteq> None"
      using 1 assms(1) by (auto simp: ending_def run_ok_def round_defs)
    ultimately show ?thesis by (intro exI [of _ Accept_fails]) auto
  next
    case conn
    then have "server_step r (Read_fails c) (serve_round r c False)" by (intro read_fails)
    moreover obtain r' where "serve_round r c False = Some r'"
      using server_step_ok [OF calculation] assms(1) by (auto simp: ending_def)
    ultimately show ?thesis by (intro exI [of _ "Read_fails c"]) auto
  next
    case 3
    then have "close_return r = Some (r\<lparr>sr_close := Returned\<rparr>)" using assms(1) by (simp add: ending_def run_ok_def round_defs)
    then have "server_step r Close_returns (Some (r\<lparr>sr_close := Returned\<rparr>))"
      using assms by (intro close_returns) (auto simp: ending_def)
    then show ?thesis by (intro exI [of _ Close_returns]) auto
  qed
qed

section \<open>Properties\<close>

text \<open>A run that is closed with a handler still at work.\<close>

definition sample_run :: "label list" where
  "sample_run = [Accepts 0, Reads 0, Close_called, Close_listener, Accept_fails, Peer_ends 0, Read_fails 0, Close_returns]"

lemma sample_run:
  "\<exists>r r'. server_runs start_server (take 4 sample_run) r \<and> sr_conns r = {0} \<and> sr_peers r = {0} \<and> sr_close r = Waiting \<and> sr_wg r = 2
     \<and> server_runs r (drop 4 sample_run) r' \<and> sr_close r' = Returned \<and> sr_handling r' = 1"
  by (simp add: sample_run_def server_runs_simps server_step_simps round_defs start_server_def)

text \<open>A closed server. In every reachable state no step makes the wait group panic, and it counts the accept loop
  and the connections that are served. When \<open>Close\<close> has returned neither is left and the listener is closed;
  handlers, which it does not count, may still run. \<open>Close\<close> never goes back to an earlier section.\<close>

theorem tcp_server_close_complete:
  assumes "server_reachable r"
  shows "(\<forall>l x. server_step r l x \<longrightarrow> x \<noteq> None) \<and> finite (sr_conns r)
    \<and> sr_wg r = (if sr_accepting r then 1 else 0) + card (sr_conns r)
    \<and> (sr_close r = Returned \<longrightarrow> sr_conns r = {} \<and> \<not> sr_accepting r \<and> \<not> sr_listening r)
    \<and> (\<forall>ls r'. server_runs r ls r' \<longrightarrow> sr_close r \<le> sr_close r')"
proof (intro conjI)
  show "\<forall>l x. server_step r l x \<longrightarrow> x \<noteq> None" using server_step_ok [OF _ server_reachable_ok [OF assms]] by fast
  show "\<forall>ls r'. server_runs r ls r' \<longrightarrow> sr_close r \<le> sr_close r'" using close_goes_forward server_reachable_ok [OF assms] by blast
qed (use server_reachable_ok [OF assms] in \<open>auto simp: run_ok_def\<close>)

theorem tcp_server_close_complete_witness:
  "\<exists>r. server_reachable r \<and> sr_close r = Returned \<and> sr_conns r = {} \<and> \<not> sr_accepting r \<and> sr_handling r = 1"
proof -
  obtain r1 r where "server_runs start_server (take 4 sample_run) r1" "server_runs r1 (drop 4 sample_run) r"
    "sr_close r = Returned" "sr_handling r = 1" using sample_run by blast
  moreover from this have r: "server_reachable r" unfolding server_reachable_def by (metis runs_append)
  ultimately show ?thesis using tcp_server_close_complete [OF r] by blast
qed

text \<open>C16: \<open>Close\<close> of a TCP server closes the listener and not the connections. As long as one client stays connected and
  sends nothing but frames it does not return, whatever else happens.\<close>

theorem tcp_server_close_blocks:
  assumes "server_reachable r" "c \<in> sr_conns r" "c \<in> sr_peers r" "server_runs r ls r'" "Peer_ends c \<notin> set ls"
  shows "sr_close r' \<noteq> Returned"
  using peer_stays [OF assms(4,5)] assms(2,3) server_reachable_ok [OF reachable_runs [OF assms(1,4)]]
  by (auto simp: run_ok_def)

theorem tcp_server_close_blocks_witness:
  "\<exists>r. server_runs start_server [Accepts 0, Reads 0, Close_called, Close_listener] r \<and> sr_close r = Waiting \<and>
     (\<forall>ls r'. server_runs r ls r' \<and> Peer_ends 0 \<notin> set ls \<longrightarrow> sr_close r' \<noteq> Returned)"
proof -
  obtain r where r: "server_runs start_server [Accepts 0, Reads 0, Close_called, Close_listener] r" "sr_conns r = {0}"
    "sr_peers r = {0}" "sr_close r = Waiting" using sample_run by (auto simp: sample_run_def)
  then have "server_reachable r" unfolding server_reachable_def by blast
  then show ?thesis using r tcp_server_close_blocks [of r 0] by auto
qed

text \<open>C17: when the listener is closed and no peer is left, \<open>Close\<close> comes to its end: the server takes exactly one step for each
  goroutine the group counts and one to return, however others step in between, and until \<open>Close\<close> has returned
  it always has such a step to take.\<close>

theorem tcp_server_close_returns:
  assumes "server_reachable r" "sr_close r = Waiting" "sr_conns r \<inter> sr_peers r = {}" "server_runs r ls r'"
  shows "length (filter winds_down ls) \<le> sr_wg r + 1 \<and> (sr_close r' = Returned \<longleftrightarrow> length (filter winds_down ls) = sr_wg r + 1)
    \<and> (sr_close r' = Returned \<or> (\<exists>l r2. winds_down l \<and> server_step r' l (Some r2)))"
proof -
  have e: "ending r" using assms server_reachable_ok by (simp add: ending_def)
  from ending_run [OF assms(4) this] have r': "ending r'" "left r = left r' + length (filter winds_down ls)" by auto
  then have "sr_close r' = Returned \<longleftrightarrow> left r' = 0" by (auto simp: ending_def run_ok_def left_def)
  moreover have "left r = sr_wg r + 1" using assms(2) by (simp add: left_def)
  ultimately show ?thesis using r' ending_goes_on [OF r'(1)] by auto
qed

theorem tcp_server_close_returns_witness:
  "\<exists>r r'. server_runs start_server (take 6 sample_run) r \<and> sr_wg r = 1 \<and>
     server_runs r [Handled, Read_fails 0, Close_called, Close_returns] r' \<and> sr_close r' = Returned"
proof -
  let ?ks = "[Handled, Read_fails 0, Close_called, Close_returns]"
  obtain r r' where r: "server_runs start_server (take 6 sample_run) r" "sr_wg r = 1" "sr_close r = Waiting" "sr_peers r = {}"
    "server_runs r ?ks r'"
    by (simp add: sample_run_def server_runs_simps server_step_simps round_defs start_server_def)
  then have "server_reachable r" unfolding server_reachable_def by blast
  from tcp_server_close_returns [OF this r(3) _ r(5)] r show ?thesis by auto
qed

end
