(* ===== verification/Contract.thy ===== *)
theory Contract
  imports UDP TCP Mock
begin

text \<open>
  The interfaces of \<open>src/someip.go\<close> that a transport provides, \<open>Service\<close>, \<open>Server\<close> and \<open>Subscription\<close>: records of operations,
  filled in by each transport, and what their comments promise as locales, interpreted on the transports.
\<close>

section \<open>The interfaces\<close>

text \<open>\<open>Call\<close> is taken up to the point where it is refused or accepted: an accepted call has its response at once on the bus, and
  waits for it with its session and channel over UDP and TCP. The channel depth stands for the options.\<close>

record ('s, 'r, 'u) Service_ops =
  do_Call :: "'s \<Rightarrow> u16 \<Rightarrow> byte list \<Rightarrow> ('s \<times> (goerr + 'r)) option"
  do_CallNoReturn :: "'s \<Rightarrow> u16 \<Rightarrow> byte list \<Rightarrow> ('s \<times> goerr option) option"
  do_Subscribe :: "'s \<Rightarrow> u16 \<Rightarrow> int \<Rightarrow> ('s \<times> (goerr + 'u)) option"
  do_Close :: "'s \<Rightarrow> 's \<times> goerr option"

record 's Server_ops =
  do_RegisterMethod :: "'s \<Rightarrow> u16 \<Rightarrow> handler \<Rightarrow> 's \<times> goerr option"
  do_Emit :: "'s \<Rightarrow> u16 \<Rightarrow> byte list \<Rightarrow> ('s \<times> goerr option) option"
  do_Close_server :: "'s \<Rightarrow> ('s \<times> goerr option) option"

record ('s, 'u) Subscription_ops =
  do_C :: "'s \<Rightarrow> 'u \<Rightarrow> message chan"
  do_Unsubscribe :: "'s \<Rightarrow> 'u \<Rightarrow> 's option"
  do_Close_sub :: "'s \<Rightarrow> 'u \<Rightarrow> 's option"

text \<open>The transports' implementations. A subscription over UDP is its event and its channel.\<close>

definition udp_service :: "(byte list \<Rightarrow> goerr option) \<Rightarrow> (UDP.Service \<Rightarrow> goerr option) \<Rightarrow> (UDP.Service, u16 \<times> nat, u16 \<times> nat) Service_ops" where
  "udp_service wr cc = \<lparr>do_Call = (\<lambda>s m p. UDP.Call_begin s m p wr), do_CallNoReturn = (\<lambda>s m p. UDP.CallNoReturn s m p wr),
     do_Subscribe = (\<lambda>s ev n. map_option (map_prod id (map_sum id (Pair ev))) (UDP.Subscribe s ev n wr)),
     do_Close = UDP.Service_Close cc\<rparr>"

definition tcp_service :: "(byte list \<Rightarrow> goerr option) \<Rightarrow> (TCP.Service \<Rightarrow> goerr option) \<Rightarrow> (TCP.Service, u16 \<times> nat, nat) Service_ops" where
  "tcp_service wr cc = \<lparr>do_Call = (\<lambda>s m p. TCP.Call_begin s m p wr), do_CallNoReturn = (\<lambda>s m p. TCP.CallNoReturn s m p wr),
     do_Subscribe = (\<lambda>s ev n. Some (s, TCP.Subscribe s ev)), do_Close = TCP.Service_Close cc\<rparr>"

definition mock_service :: "nat \<Rightarrow> (Bus, message, nat) Service_ops" where
  "mock_service svc = \<lparr>do_Call = (\<lambda>b m p. case Mock.Call b svc m p of (b, resp, e) \<Rightarrow>
       Some (b, case e of Some err \<Rightarrow> Inl err | None \<Rightarrow> Inr resp)),
     do_CallNoReturn = (\<lambda>b m p. Some (Mock.CallNoReturn b svc m p)), do_Subscribe = (\<lambda>b ev n. Mock.Subscribe b svc ev n),
     do_Close = (\<lambda>b. (Mock.Service_Close b svc, None))\<rparr>"

definition udp_server :: "(UDP.Server \<Rightarrow> goerr option) \<Rightarrow> UDP.Server Server_ops" where
  "udp_server cc = \<lparr>do_RegisterMethod = UDP.RegisterMethod, do_Emit = UDP.Emit, do_Close_server = (\<lambda>s. Some (UDP.Server_Close cc s))\<rparr>"

definition tcp_server :: "(TCP.Server \<Rightarrow> goerr option) \<Rightarrow> TCP.Server Server_ops" where
  "tcp_server cc = \<lparr>do_RegisterMethod = TCP.RegisterMethod, do_Emit = (\<lambda>s ev p. Some (TCP.Emit s ev p)),
     do_Close_server = (\<lambda>s. Some (TCP.Server_Close cc s))\<rparr>"

definition mock_server :: "(nat list \<Rightarrow> nat list) \<Rightarrow> ((u16 \<times> nat list) list \<Rightarrow> (u16 \<times> nat list) list) \<Rightarrow> nat \<Rightarrow> Bus Server_ops" where
  "mock_server ord ords s = \<lparr>do_RegisterMethod = (\<lambda>b. Mock.RegisterMethod b s), do_Emit = (\<lambda>b. Mock.Emit ord b s),
     do_Close_server = (\<lambda>b. map_option (\<lambda>b. (b, None)) (Mock.Server_Close ord ords b s))\<rparr>"

definition udp_subscription :: "(UDP.Service, u16 \<times> nat) Subscription_ops" where
  "udp_subscription = \<lparr>do_C = (\<lambda>s u. sv_chans s (snd u)), do_Unsubscribe = (\<lambda>s u. UDP.Unsubscribe s (fst u) (snd u)),
     do_Close_sub = (\<lambda>s u. UDP.Sub_Close s (fst u) (snd u))\<rparr>"

definition mock_subscription :: "(Bus, nat) Subscription_ops" where
  "mock_subscription = \<lparr>do_C = (\<lambda>b u. mu_ch (h_subs b u)), do_Unsubscribe = (\<lambda>b u. Some (Mock.Unsubscribe b u)),
     do_Close_sub = Mock.Sub_Close\<rparr>"

section \<open>What they promise\<close>

text \<open>A closed service refuses everything, and closing it again is no error. Any operation leaves a closed service closed.\<close>

datatype service_op = Op_Call u16 "byte list" | Op_CallNoReturn u16 "byte list" | Op_Subscribe u16 int | Op_Close

fun service_do :: "('s, 'r, 'u) Service_ops \<Rightarrow> 's \<Rightarrow> service_op \<Rightarrow> ('s \<times> goerr option) option" where
  "service_do ops s (Op_Call m p) = map_option (map_prod id (case_sum Some (\<lambda>_. None))) (do_Call ops s m p)"
| "service_do ops s (Op_CallNoReturn m p) = do_CallNoReturn ops s m p"
| "service_do ops s (Op_Subscribe ev n) = map_option (map_prod id (case_sum Some (\<lambda>_. None))) (do_Subscribe ops s ev n)"
| "service_do ops s Op_Close = Some (do_Close ops s)"

fun service_run :: "('s, 'r, 'u) Service_ops \<Rightarrow> 's \<Rightarrow> service_op list \<Rightarrow> ('s \<times> goerr option list) option" where
  "service_run ops s [] = Some (s, [])"
| "service_run ops s (x # xs) = do {
     (s, e) \<leftarrow> service_do ops s x;
     (s, es) \<leftarrow> service_run ops s xs;
     Some (s, e # es)
   }"

locale closable_service =
  fixes ops :: "('s, 'r, 'u) Service_ops" and is_closed :: "'s \<Rightarrow> bool" and no_events :: goerr
  assumes closes: "is_closed (fst (do_Close ops s))"
    and refuses: "is_closed s \<Longrightarrow> do_Call ops s m p = Some (s, Inl ErrClosed) \<and> do_CallNoReturn ops s m p = Some (s, Some ErrClosed)
      \<and> do_Subscribe ops s ev n = Some (s, Inl no_events) \<and> do_Close ops s = (s, None)"
begin

text \<open>After \<open>Close\<close>, whatever is done: nothing changes, each operation is refused.\<close>

lemma closed_for_ever:
  "is_closed s \<Longrightarrow> service_run ops s xs = Some (s, map (\<lambda>x. case x of Op_Close \<Rightarrow> None | Op_Subscribe _ _ \<Rightarrow> Some no_events | _ \<Rightarrow> Some ErrClosed) xs)"
proof (induction xs)
  case (Cons x xs)
  then show ?case by (cases x) (simp_all add: refuses)
qed simp

lemma after_close: "service_run ops (fst (do_Close ops s)) xs = Some (fst (do_Close ops s),
    map (\<lambda>x. case x of Op_Close \<Rightarrow> None | Op_Subscribe _ _ \<Rightarrow> Some no_events | _ \<Rightarrow> Some ErrClosed) xs)"
  by (rule closed_for_ever [OF closes])

end

locale closable_server =
  fixes ops :: "'s Server_ops" and is_closed :: "'s \<Rightarrow> bool" and handlers :: "'s \<Rightarrow> u16 \<rightharpoonup> handler"
  assumes closes: "do_Close_server ops s = Some (s', e) \<Longrightarrow> is_closed s'"
    and refuses: "is_closed s \<Longrightarrow> do_RegisterMethod ops s m h = (s, Some ErrClosed) \<and> do_Emit ops s ev p = Some (s, Some ErrClosed)
      \<and> do_Close_server ops s = Some (s, None)"
    and registers: "\<not> is_closed s \<Longrightarrow> \<exists>s'. do_RegisterMethod ops s m h = (s', None) \<and> \<not> is_closed s' \<and> handlers s' = (handlers s)(m \<mapsto> h)"
begin

text \<open>A handler replaces the one registered before for the same method.\<close>

lemma register_twice:
  assumes "\<not> is_closed s"
  shows "\<exists>s1 s2. do_RegisterMethod ops s m h1 = (s1, None) \<and> do_RegisterMethod ops s1 m h2 = (s2, None) \<and> handlers s2 = (handlers s)(m \<mapsto> h2)"
proof -
  obtain s1 where s1: "do_RegisterMethod ops s m h1 = (s1, None)" "\<not> is_closed s1" "handlers s1 = (handlers s)(m \<mapsto> h1)"
    using registers [OF assms] by blast
  obtain s2 where "do_RegisterMethod ops s1 m h2 = (s2, None)" "handlers s2 = (handlers s1)(m \<mapsto> h2)"
    using registers [OF s1(2)] by blast
  then show ?thesis using s1(1,3) by simp
qed

lemma refused_after_close:
  "do_Close_server ops s = Some (s', e) \<Longrightarrow> do_RegisterMethod ops s' m h = (s', Some ErrClosed) \<and> do_Emit ops s' ev p = Some (s', Some ErrClosed)"
  using refuses closes by blast

end

text \<open>\<open>Unsubscribe\<close> leaves the channel as it is, \<open>Close\<close> closes it; after either no event is delivered to it.\<close>

locale subscription_contract =
  fixes ops :: "('s, 'u) Subscription_ops" and delivered_to :: "'s \<Rightarrow> 'u \<Rightarrow> bool" and valid :: "'s \<Rightarrow> bool"
  assumes unsubscribes: "valid s \<Longrightarrow> \<exists>s'. do_Unsubscribe ops s u = Some s' \<and> valid s' \<and> do_C ops s' = do_C ops s
      \<and> (\<forall>v. delivered_to s' v = (delivered_to s v \<and> v \<noteq> u))"
    and closes: "valid s \<Longrightarrow> \<exists>s'. do_Close_sub ops s u = Some s' \<and> valid s' \<and> ch_closed (do_C ops s' u)
      \<and> ch_queue (do_C ops s' u) = ch_queue (do_C ops s u) \<and> (\<forall>v. delivered_to s' v = (delivered_to s v \<and> v \<noteq> u))"
begin

text \<open>In either order, and as often as one likes.\<close>

lemma close_twice:
  assumes "valid s"
  shows "\<exists>s1 s2. do_Close_sub ops s u = Some s1 \<and> do_Close_sub ops s1 u = Some s2 \<and> ch_closed (do_C ops s2 u) \<and> \<not> delivered_to s2 u"
proof -
  obtain s1 where "do_Close_sub ops s u = Some s1" "valid s1" using closes [OF assms] by blast
  then show ?thesis using closes [of s1 u] by auto
qed

end

section \<open>How the transports keep it\<close>

interpretation udp_closable: closable_service "udp_service wr cc" sv_closed ErrClosed for wr cc
  by unfold_locales (auto simp: udp_service_def UDP.Service_Close_def UDP.Call_begin_def UDP.CallNoReturn_def UDP.Subscribe_def)

interpretation tcp_closable: closable_service "tcp_service wr cc" tv_closed ErrNotConnected for wr cc
  by unfold_locales (auto simp: tcp_service_def TCP.Service_Close_def TCP.Call_begin_def TCP.CallNoReturn_def TCP.Subscribe_def Let_def)

interpretation mock_closable: closable_service "mock_service svc" "\<lambda>b. mc_closed (h_services b svc)" ErrClosed for svc
proof unfold_locales
  fix b :: Bus
  assume "mc_closed (h_services b svc)"
  then have "(h_services b svc)\<lparr>mc_closed := True\<rparr> = h_services b svc" by simp
  then have "Mock.Service_Close b svc = b" by (simp add: Mock.Service_Close_def)
  then show "do_Call (mock_service svc) b m p = Some (b, Inl ErrClosed) \<and> do_CallNoReturn (mock_service svc) b m p = Some (b, Some ErrClosed)
      \<and> do_Subscribe (mock_service svc) b ev n = Some (b, Inl ErrClosed) \<and> do_Close (mock_service svc) b = (b, None)" for m p ev n
    using \<open>mc_closed (h_services b svc)\<close> by (simp add: mock_service_def Mock.Call_def Mock.CallNoReturn_def Mock.Subscribe_def)
qed (simp add: mock_service_def Mock.Service_Close_def)

interpretation udp_serving: closable_server "udp_server cc" us_closed us_handlers for cc
  by unfold_locales (auto simp: udp_server_def UDP.Server_Close_def UDP.RegisterMethod_def UDP.Emit_def split: if_splits)

interpretation tcp_serving: closable_server "tcp_server cc" ts_closed ts_handlers for cc
  by unfold_locales (auto simp: tcp_server_def TCP.Server_Close_def TCP.RegisterMethod_def TCP.Emit_def split: if_splits)

lemma closing_keeps_servers:
  "closeOnce b u = Some b' \<Longrightarrow> h_servers b' = h_servers b"
  "close_subs b us = Some b' \<Longrightarrow> h_servers b' = h_servers b"
  "close_sets ord b sets = Some b' \<Longrightarrow> h_servers b' = h_servers b"
proof -
  show one: "h_servers b' = h_servers b" if "closeOnce b u = Some b'" for b b' u
    using that by (auto simp: closeOnce_def Let_def split: if_splits bind_splits)
  have subs: "close_subs b us = Some b' \<Longrightarrow> h_servers b' = h_servers b" for b us b'
    by (induction us arbitrary: b) (auto dest: one split: bind_splits)
  then show "close_subs b us = Some b' \<Longrightarrow> h_servers b' = h_servers b" .
  have "close_sets ord b sets = Some b' \<Longrightarrow> h_servers b' = h_servers b" for b
  proof (induction sets arbitrary: b)
    case (Cons x sets)
    obtain b1 where "close_subs b (ord (snd x)) = Some b1" "close_sets ord b1 sets = Some b'"
      using Cons.prems by (cases x) (auto split: bind_splits)
    then show ?case using Cons.IH subs by fastforce
  qed simp
  then show "close_sets ord b sets = Some b' \<Longrightarrow> h_servers b' = h_servers b" .
qed

interpretation mock_serving: closable_server "mock_server ord ords s" "\<lambda>b. ms_closed (h_servers b s)" "\<lambda>b. ms_handlers (h_servers b s)"
  for ord ords s
proof unfold_locales
  fix b b' e
  assume "do_Close_server (mock_server ord ords s) b = Some (b', e)"
  then show "ms_closed (h_servers b' s)"
    by (auto simp: mock_server_def Mock.Server_Close_def Let_def upd_server_def split: if_splits dest!: closing_keeps_servers(3))
qed (auto simp: mock_server_def Mock.RegisterMethod_def Mock.Emit_def Mock.Server_Close_def upd_server_def)

text \<open>A channel is closed exactly when its \<open>once\<close> has run.\<close>

definition once_ok :: "UDP.Service \<Rightarrow> bool" where
  "once_ok svc \<longleftrightarrow> (\<forall>ch. ch_closed (sv_chans svc ch) \<longleftrightarrow> ch \<in> sv_once svc)"

interpretation udp_subscribed: subscription_contract udp_subscription "\<lambda>svc u. snd u \<in> set (sv_subs svc (fst u))" once_ok
proof unfold_locales
  fix s :: UDP.Service and u :: "u16 \<times> nat"
  assume ok: "once_ok s"
  obtain ev ch where u: "u = (ev, ch)" by (cases u)
  let ?s = "send_udp (unsubscribe_locked s ev ch) (sub_frame s ev 0)"
  have un: "UDP.Unsubscribe s ev ch = Some ?s"
    by (simp add: UDP.Unsubscribe_eq)
  have ok': "once_ok ?s" using ok by (simp add: once_ok_def) (simp add: unsubscribe_locked_def)
  have d: "snd v \<in> set (sv_subs ?s (fst v)) \<longleftrightarrow> snd v \<in> set (sv_subs s (fst v)) \<and> v \<noteq> u" for v
    by (cases v) (auto simp: u unsubscribe_locked_def)
  have c: "sv_chans ?s = sv_chans s" by simp (simp add: unsubscribe_locked_def)
  show "\<exists>s'. do_Unsubscribe udp_subscription s u = Some s' \<and> once_ok s' \<and> do_C udp_subscription s' = do_C udp_subscription s
      \<and> (\<forall>v. (snd v \<in> set (sv_subs s' (fst v))) = (snd v \<in> set (sv_subs s (fst v)) \<and> v \<noteq> u))"
    using un ok' d c by (intro exI [of _ ?s]) (simp add: udp_subscription_def u)
  show "\<exists>s'. do_Close_sub udp_subscription s u = Some s' \<and> once_ok s' \<and> ch_closed (do_C udp_subscription s' u)
      \<and> ch_queue (do_C udp_subscription s' u) = ch_queue (do_C udp_subscription s u)
      \<and> (\<forall>v. (snd v \<in> set (sv_subs s' (fst v))) = (snd v \<in> set (sv_subs s (fst v)) \<and> v \<noteq> u))"
  proof (cases "ch \<in> sv_once ?s")
    case True
    then have "close_once ?s ch = Some ?s" by (simp add: close_once_def)
    moreover have "ch_closed (sv_chans s ch)" using True ok' c by (simp add: once_ok_def)
    ultimately show ?thesis using un ok' d c by (intro exI [of _ ?s]) (simp add: udp_subscription_def u UDP.Sub_Close_def)
  next
    case False
    let ?t = "?s\<lparr>sv_once := insert ch (sv_once ?s), sv_chans := (sv_chans ?s)(ch := (sv_chans ?s ch)\<lparr>ch_closed := True\<rparr>)\<rparr>"
    have "close_once ?s ch = Some ?t" using False ok' by (simp add: close_once_def close_chan_def once_ok_def)
    moreover have "once_ok ?t" using ok' by (auto simp: once_ok_def)
    ultimately show ?thesis using un d c by (intro exI [of _ ?t]) (simp add: udp_subscription_def u UDP.Sub_Close_def)
  qed
qed

text \<open>Over the bus: a subscription gets events while its server lists it under its event.\<close>

definition bus_delivers :: "Bus \<Rightarrow> nat \<Rightarrow> bool" where
  "bus_delivers b u = (case map_of (ms_subs (h_servers b (mu_srv (h_subs b u)))) (mu_eventID (h_subs b u)) of
     None \<Rightarrow> False | Some us \<Rightarrow> u \<in> set us)"

lemma bus_delivers_removed: "bus_delivers (Mock.Unsubscribe b u) v \<longleftrightarrow> bus_delivers b v \<and> v \<noteq> u"
  by (auto simp: bus_delivers_def Mock.Unsubscribe_def removeSub_def upd_server_def AList.update_conv' split: option.splits)

interpretation mock_subscribed: subscription_contract mock_subscription bus_delivers "\<lambda>b. subs_ok (h_subs b)"
proof unfold_locales
  fix b :: Bus and u
  assume ok: "subs_ok (h_subs b)"
  let ?b = "Mock.Unsubscribe b u"
  show "\<exists>s'. do_Unsubscribe mock_subscription b u = Some s' \<and> subs_ok (h_subs s') \<and> do_C mock_subscription s' = do_C mock_subscription b
      \<and> (\<forall>v. bus_delivers s' v = (bus_delivers b v \<and> v \<noteq> u))"
    using ok by (simp add: mock_subscription_def bus_delivers_removed)
  let ?c = "?b\<lparr>h_subs := (h_subs ?b)(u := closed_sub (h_subs ?b u))\<rparr>"
  have "do_Close_sub mock_subscription b u = Some ?c" using closeOnce_eq [of ?b u] ok by (simp add: mock_subscription_def Mock.Sub_Close_def)
  moreover have "bus_delivers ?c v = bus_delivers ?b v" for v
    by (simp add: bus_delivers_def closed_sub_def)
  moreover have "subs_ok (h_subs ?c)" using subs_ok_closed [of "h_subs b" u] ok by simp
  ultimately show "\<exists>s'. do_Close_sub mock_subscription b u = Some s' \<and> subs_ok (h_subs s') \<and> ch_closed (do_C mock_subscription s' u)
      \<and> ch_queue (do_C mock_subscription s' u) = ch_queue (do_C mock_subscription b u) \<and> (\<forall>v. bus_delivers s' v = (bus_delivers b v \<and> v \<noteq> u))"
    by (intro exI [of _ ?c]) (simp add: bus_delivers_removed mock_subscription_def closed_sub_def)
qed

section \<open>Properties\<close>

text \<open>C26: a closed service. Over each transport, whatever is called on a service after \<open>Close\<close>, in any order, changes nothing:
  calls and fire-and-forget requests fail with \<open>ErrClosed\<close>, closing again is no error, and \<open>Subscribe\<close> fails with
  \<open>ErrClosed\<close> over UDP and on the bus; over TCP it fails with \<open>ErrNotConnected\<close>, which is not \<open>ErrClosed\<close>.\<close>

theorem closed_services:
  "service_run (udp_service wr cc) (fst (UDP.Service_Close cc svc)) ops = Some (fst (UDP.Service_Close cc svc),
     map (\<lambda>x. if x = Op_Close then None else Some ErrClosed) ops)
   \<and> service_run (tcp_service wr2 cc2) (fst (TCP.Service_Close cc2 svc2)) ops = Some (fst (TCP.Service_Close cc2 svc2),
     map (\<lambda>x. case x of Op_Close \<Rightarrow> None | Op_Subscribe _ _ \<Rightarrow> Some ErrNotConnected | _ \<Rightarrow> Some ErrClosed) ops)
   \<and> service_run (mock_service i) (Mock.Service_Close b i) ops = Some (Mock.Service_Close b i,
     map (\<lambda>x. if x = Op_Close then None else Some ErrClosed) ops)
   \<and> \<not> errors_is ErrNotConnected ErrClosed"
proof -
  have m: "(\<lambda>x. case x of Op_Close \<Rightarrow> None | Op_Subscribe _ _ \<Rightarrow> Some ErrClosed | _ \<Rightarrow> Some ErrClosed)
      = (\<lambda>x. if x = Op_Close then None else Some ErrClosed)" by (auto simp: fun_eq_iff split: service_op.split)
  have u: "do_Close (udp_service wr cc) svc = UDP.Service_Close cc svc" by (simp add: udp_service_def)
  have t: "do_Close (tcp_service wr2 cc2) svc2 = TCP.Service_Close cc2 svc2" by (simp add: tcp_service_def)
  have b: "fst (do_Close (mock_service i) b) = Mock.Service_Close b i" by (simp add: mock_service_def)
  show ?thesis
    using udp_closable.after_close [of wr cc svc ops, unfolded m u] tcp_closable.after_close [of wr2 cc2 svc2 ops, unfolded t]
      mock_closable.after_close [of i b ops, unfolded m b]
    by (simp add: ErrNotConnected_def ErrClosed_def)
qed

text \<open>Subscriptions. Over UDP and on the bus, \<open>Unsubscribe\<close> leaves the channel open and what it holds in place, \<open>Close\<close>
  closes it and leaves what it holds to be read; after either the subscription gets no event, every other goes on getting
  what it got; and either can be repeated.\<close>

theorem subscriptions_end:
  "(once_ok svc \<longrightarrow> (\<exists>s1 s2 s3. UDP.Unsubscribe svc ev ch = Some s1 \<and> sv_chans s1 = sv_chans svc
      \<and> UDP.Sub_Close s1 ev ch = Some s2 \<and> ch_closed (sv_chans s2 ch) \<and> ch_queue (sv_chans s2 ch) = ch_queue (sv_chans svc ch)
      \<and> UDP.Sub_Close s2 ev ch = Some s3
      \<and> (\<forall>s \<in> {s1, s2, s3}. \<forall>e c. c \<in> set (sv_subs s e) \<longleftrightarrow> c \<in> set (sv_subs svc e) \<and> (e, c) \<noteq> (ev, ch))))
   \<and> (subs_ok (h_subs b) \<longrightarrow> (\<exists>b2 b3. mu_ch (h_subs (Mock.Unsubscribe b u) u) = mu_ch (h_subs b u)
      \<and> Mock.Sub_Close (Mock.Unsubscribe b u) u = Some b2 \<and> ch_closed (mu_ch (h_subs b2 u)) \<and> ch_queue (mu_ch (h_subs b2 u)) = ch_queue (mu_ch (h_subs b u))
      \<and> Mock.Sub_Close b2 u = Some b3
      \<and> (\<forall>s \<in> {Mock.Unsubscribe b u, b2, b3}. \<forall>v. bus_delivers s v \<longleftrightarrow> bus_delivers b v \<and> v \<noteq> u)))"
proof (intro conjI impI)
  assume "once_ok svc"
  then obtain s1 where s1: "do_Unsubscribe udp_subscription svc (ev, ch) = Some s1" "once_ok s1" "do_C udp_subscription s1 = do_C udp_subscription svc"
    "\<forall>v. snd v \<in> set (sv_subs s1 (fst v)) \<longleftrightarrow> snd v \<in> set (sv_subs svc (fst v)) \<and> v \<noteq> (ev, ch)" using udp_subscribed.unsubscribes by blast
  obtain s2 where s2: "do_Close_sub udp_subscription s1 (ev, ch) = Some s2" "once_ok s2" "ch_closed (do_C udp_subscription s2 (ev, ch))"
    "ch_queue (do_C udp_subscription s2 (ev, ch)) = ch_queue (do_C udp_subscription s1 (ev, ch))"
    "\<forall>v. snd v \<in> set (sv_subs s2 (fst v)) \<longleftrightarrow> snd v \<in> set (sv_subs s1 (fst v)) \<and> v \<noteq> (ev, ch)" using udp_subscribed.closes [OF s1(2)] by blast
  obtain s3 where s3: "do_Close_sub udp_subscription s2 (ev, ch) = Some s3"
    "\<forall>v. snd v \<in> set (sv_subs s3 (fst v)) \<longleftrightarrow> snd v \<in> set (sv_subs s2 (fst v)) \<and> v \<noteq> (ev, ch)" using udp_subscribed.closes [OF s2(2)] by blast
  have "sv_chans s1 ch' = sv_chans svc ch'" for ch'
    using fun_cong [OF s1(3), of "(ev, ch')"] by (simp add: udp_subscription_def)
  then have c: "sv_chans s1 = sv_chans svc" by (rule ext)
  have "\<forall>s \<in> {s1, s2, s3}. \<forall>e c. c \<in> set (sv_subs s e) \<longleftrightarrow> c \<in> set (sv_subs svc e) \<and> (e, c) \<noteq> (ev, ch)"
    using s1(4) s2(5) s3(2) by simp
  then show "\<exists>s1 s2 s3. UDP.Unsubscribe svc ev ch = Some s1 \<and> sv_chans s1 = sv_chans svc
      \<and> UDP.Sub_Close s1 ev ch = Some s2 \<and> ch_closed (sv_chans s2 ch) \<and> ch_queue (sv_chans s2 ch) = ch_queue (sv_chans svc ch)
      \<and> UDP.Sub_Close s2 ev ch = Some s3
      \<and> (\<forall>s \<in> {s1, s2, s3}. \<forall>e c. c \<in> set (sv_subs s e) \<longleftrightarrow> c \<in> set (sv_subs svc e) \<and> (e, c) \<noteq> (ev, ch))"
    using s1(1) s2(1,3,4) s3(1) c by - (rule exI [of _ s1], rule exI [of _ s2], rule exI [of _ s3], simp add: udp_subscription_def)
next
  assume ok: "subs_ok (h_subs b)"
  let ?b1 = "Mock.Unsubscribe b u"
  obtain b2 where b2: "do_Close_sub mock_subscription ?b1 u = Some b2" "subs_ok (h_subs b2)" "ch_closed (do_C mock_subscription b2 u)"
    "ch_queue (do_C mock_subscription b2 u) = ch_queue (do_C mock_subscription ?b1 u)"
    "\<forall>v. bus_delivers b2 v = (bus_delivers ?b1 v \<and> v \<noteq> u)" using mock_subscribed.closes [of ?b1 u] ok by auto
  obtain b3 where b3: "do_Close_sub mock_subscription b2 u = Some b3" "\<forall>v. bus_delivers b3 v = (bus_delivers b2 v \<and> v \<noteq> u)"
    using mock_subscribed.closes [OF b2(2)] by blast
  show "\<exists>b2 b3. mu_ch (h_subs ?b1 u) = mu_ch (h_subs b u)
      \<and> Mock.Sub_Close ?b1 u = Some b2 \<and> ch_closed (mu_ch (h_subs b2 u)) \<and> ch_queue (mu_ch (h_subs b2 u)) = ch_queue (mu_ch (h_subs b u))
      \<and> Mock.Sub_Close b2 u = Some b3 \<and> (\<forall>s \<in> {?b1, b2, b3}. \<forall>v. bus_delivers s v \<longleftrightarrow> bus_delivers b v \<and> v \<noteq> u)"
  proof (rule exI [of _ b2], rule exI [of _ b3], intro conjI)
    have "bus_delivers b2 v \<longleftrightarrow> bus_delivers b v \<and> v \<noteq> u" for v using b2(5) by (simp add: bus_delivers_removed)
    then show "\<forall>s \<in> {?b1, b2, b3}. \<forall>v. bus_delivers s v \<longleftrightarrow> bus_delivers b v \<and> v \<noteq> u"
      using b3(2) by (simp add: bus_delivers_removed)
    show "mu_ch (h_subs ?b1 u) = mu_ch (h_subs b u)" by simp
    show "Mock.Sub_Close ?b1 u = Some b2" "ch_closed (mu_ch (h_subs b2 u))" "ch_queue (mu_ch (h_subs b2 u)) = ch_queue (mu_ch (h_subs b u))"
      "Mock.Sub_Close b2 u = Some b3"
      using b2(1,3,4) b3(1) by (simp_all add: mock_subscription_def)
  qed
qed

theorem subscriptions_end_witness:
  "\<exists>s1 s2. UDP.Unsubscribe sample_service 1 0 = Some s1 \<and> UDP.Sub_Close s1 1 0 = Some s2 \<and> ch_closed (sv_chans s2 0)
    \<and> (\<exists>b2. Mock.Sub_Close (Mock.Unsubscribe NewBus 0) 0 = Some b2 \<and> ch_closed (mu_ch (h_subs b2 0)))"
proof -
  have "once_ok sample_service" "subs_ok (h_subs NewBus)"
    by (simp_all add: once_ok_def sample_service_def subs_ok_def NewBus_def)
  then show ?thesis using subscriptions_end [of sample_service 1 0 NewBus 0] by blast
qed

end
