(* ===== verification/Quickstart.thy ===== *)
theory Quickstart
  imports UDP Strconv
begin

text \<open>
  The two programs of the quickstart: \<open>src/examples/quickstart/server/main.go\<close> and
  \<open>src/examples/quickstart/client/main.go\<close>. The client is cut where it blocks: in the two calls and in its loop. The
  environment, the resolver, the sockets, the clock and the depth of a subscription's channel by default are arguments; a line of the log is
  its format and what it is given. What the echo handler logs is left out.
\<close>

section \<open>The server program\<close>

datatype line = Line string | Line_text string string | Line_bytes string "byte list" | Line_error string goerr

definition envOrDefault :: "(string \<Rightarrow> string) \<Rightarrow> string \<Rightarrow> string \<Rightarrow> string" where
  "envOrDefault env key def = (let v = env key in if v \<noteq> [] then v else def)"

definition text_bytes :: "string \<Rightarrow> byte list" where
  "text_bytes = map of_char"

definition echo_handler :: handler where
  "echo_handler req = Inr (Payload req)"

definition version_handler :: handler where
  "version_handler _ = Inr (text_bytes ''go-SOMEIP v0.1'')"

text \<open>\<open>main\<close> up to its loop: the server, or the line it ends with. The loop emits one heartbeat for each tick.\<close>

definition server_main :: "(string \<Rightarrow> string) \<Rightarrow> (string \<Rightarrow> goerr + udp_addr) \<Rightarrow> (udp_addr \<Rightarrow> goerr option) \<Rightarrow> line list \<times> Server option" where
  "server_main env resolve listen =
     (let addr = envOrDefault env ''SOMEIP_ADDR'' ''0.0.0.0:30509'' in
      case NewServer resolve listen addr 0x1234 0x0001 0x01 of
        Inl err \<Rightarrow> ([Line_error ''NewServer: %v'' err], None)
      | Inr srv \<Rightarrow>
          let out = [Line_text ''go-SOMEIP server listening on %s (ServiceID=0x1234, InstanceID=0x0001)'' addr];
              srv = fst (RegisterMethod srv 0x0001 echo_handler);
              srv = fst (RegisterMethod srv 0x0002 version_handler)
          in (out, Some srv))"

definition FormatInt :: "int \<Rightarrow> string" where
  "FormatInt n = (if n < 0 then CHR ''-'' # FormatUint (nat (- n)) else FormatUint (nat n))"

definition heartbeat :: "int \<Rightarrow> byte list" where
  "heartbeat unix = text_bytes (''heartbeat ts='' @ FormatInt unix)"

definition server_tick :: "Server \<Rightarrow> int \<Rightarrow> (Server \<times> line list) option" where
  "server_tick srv unix = do {
     (srv, err) \<leftarrow> Emit srv 0x8001 (heartbeat unix);
     Some (srv, case err of Some e \<Rightarrow> [Line_error ''Emit: %v'' e] | None \<Rightarrow> [])
   }"

section \<open>The client program\<close>

text \<open>Where it blocks, or its exit code.\<close>

datatype phase = In_echo u16 nat | In_version u16 nat | In_loop nat | Exited nat

record program =
  pr_svc :: Service
  pr_phase :: phase
  pr_out :: "line list"

text \<open>\<open>log.Fatalf\<close> exits at once, without the deferred calls.\<close>

definition fatal :: "program \<Rightarrow> string \<Rightarrow> goerr \<Rightarrow> program" where
  "fatal p format err = p\<lparr>pr_phase := Exited 1, pr_out := pr_out p @ [Line_error format err]\<rparr>"

definition client_main :: "(string \<Rightarrow> string) \<Rightarrow> (string \<Rightarrow> goerr + udp_addr) \<Rightarrow> goerr option \<Rightarrow> (byte list \<Rightarrow> goerr option) \<Rightarrow>
    (line list + program) option" where
  "client_main env resolve listen wr =
     (let serverAddr = envOrDefault env ''SOMEIP_SERVER'' ''localhost:30509'' in
      case NewService resolve listen serverAddr 0x1234 0x0001 (5 * 1000000000) of
        Inl err \<Rightarrow> Some (Inl [Line_error ''NewService: %v'' err])
      | Inr svc \<Rightarrow> do {
          let out = [Line_text ''connected to %s'' serverAddr];
          (svc, x) \<leftarrow> Call_begin svc 0x0001 (text_bytes ''hello from client'') wr;
          let p = \<lparr>pr_svc = svc, pr_phase = Exited 0, pr_out = out\<rparr>;
          Some (Inr (case x of
              Inl err \<Rightarrow> fatal p ''Call echo: %v'' err
            | Inr (s, ch) \<Rightarrow> p\<lparr>pr_phase := In_echo s ch\<rparr>))
        })"

definition echo_returns :: "program \<Rightarrow> u16 \<Rightarrow> nat \<Rightarrow> wake \<Rightarrow> (byte list \<Rightarrow> goerr option) \<Rightarrow> program option" where
  "echo_returns p s ch w wr = do {
     (svc, r) \<leftarrow> Call_select (pr_svc p) s ch w;
     let p = p\<lparr>pr_svc := svc\<rparr>;
     (case r of
        Inl err \<Rightarrow> Some (fatal p ''Call echo: %v'' err)
      | Inr resp \<Rightarrow> do {
          let p = p\<lparr>pr_out := pr_out p @ [Line_bytes ''echo response: %q'' (Payload resp)]\<rparr>;
          (svc, x) \<leftarrow> Call_begin svc 0x0002 [] wr;
          let p = p\<lparr>pr_svc := svc\<rparr>;
          Some (case x of
              Inl err \<Rightarrow> fatal p ''Call version: %v'' err
            | Inr (s, ch) \<Rightarrow> p\<lparr>pr_phase := In_version s ch\<rparr>)
        })
   }"

definition version_returns :: "int \<Rightarrow> program \<Rightarrow> u16 \<Rightarrow> nat \<Rightarrow> wake \<Rightarrow> (byte list \<Rightarrow> goerr option) \<Rightarrow> program option" where
  "version_returns depth p s ch w wr = do {
     (svc, r) \<leftarrow> Call_select (pr_svc p) s ch w;
     let p = p\<lparr>pr_svc := svc\<rparr>;
     (case r of
        Inl err \<Rightarrow> Some (fatal p ''Call version: %v'' err)
      | Inr resp \<Rightarrow> do {
          let p = p\<lparr>pr_out := pr_out p @ [Line_bytes ''server version: %s'' (Payload resp)]\<rparr>;
          (svc, x) \<leftarrow> Subscribe svc 0x8001 depth wr;
          let p = p\<lparr>pr_svc := svc\<rparr>;
          Some (case x of
              Inl err \<Rightarrow> fatal p ''Subscribe: %v'' err
            | Inr ch \<Rightarrow> p\<lparr>pr_phase := In_loop ch,
                pr_out := pr_out p @ [Line ''subscribed to heartbeat event (waiting 5 s)...'']\<rparr>)
        })
   }"

text \<open>The end of \<open>main\<close>: the deferred calls close the subscription and then the service.\<close>

definition finish :: "program \<Rightarrow> nat \<Rightarrow> (Service \<Rightarrow> goerr option) \<Rightarrow> program option" where
  "finish p ch cc = do {
     svc \<leftarrow> Sub_Close (pr_svc p) 0x8001 ch;
     Some (p\<lparr>pr_svc := fst (Service_Close cc svc), pr_phase := Exited 0\<rparr>)
   }"

text \<open>One round of the loop: the timer, or a receive; \<^term>\<open>None\<close> when the channel is open and empty.\<close>

definition loop_round :: "program \<Rightarrow> nat \<Rightarrow> bool \<Rightarrow> (Service \<Rightarrow> goerr option) \<Rightarrow> program option" where
  "loop_round p ch timer cc =
     (if timer then finish (p\<lparr>pr_out := pr_out p @ [Line ''done'']\<rparr>) ch cc
      else case recv (sv_chans (pr_svc p) ch) of
          Some (msg, c) \<Rightarrow> Some (p\<lparr>pr_svc := (pr_svc p)\<lparr>sv_chans := (sv_chans (pr_svc p))(ch := c)\<rparr>,
            pr_out := pr_out p @ [Line_bytes ''heartbeat: %s'' (Payload msg)]\<rparr>)
        | None \<Rightarrow> if ch_closed (sv_chans (pr_svc p) ch) then finish p ch cc else None)"

section \<open>Both together\<close>

text \<open>A network that carries each datagram at once: the client's last one to the server, and its answer back.\<close>

fun payload_of :: "udp_event \<Rightarrow> byte list" where
  "payload_of (Datagram _ f) = f"
| "payload_of (Invoked _ _) = []"

definition exchange :: "udp_addr \<Rightarrow> program \<times> Server \<Rightarrow> (program \<times> Server) option" where
  "exchange src = (\<lambda>(p, s). do {
     s \<leftarrow> handleFrame 64 s (payload_of (last (sv_log (pr_svc p)))) src;
     svc \<leftarrow> dispatchFrame (pr_svc p) (payload_of (last (us_log s)));
     Some (p\<lparr>pr_svc := svc\<rparr>, s)
   })"

definition one_tick :: "nat \<Rightarrow> program \<times> Server \<Rightarrow> int \<Rightarrow> (program \<times> Server) option" where
  "one_tick ch = (\<lambda>(p, s) unix. do {
     (s, _) \<leftarrow> server_tick s unix;
     svc \<leftarrow> dispatchFrame (pr_svc p) (payload_of (last (us_log s)));
     p \<leftarrow> loop_round (p\<lparr>pr_svc := svc\<rparr>) ch False (\<lambda>_. None);
     Some (p, s)
   })"

definition quickstart :: "(string \<Rightarrow> string) \<Rightarrow> (string \<Rightarrow> goerr + udp_addr) \<Rightarrow> udp_addr \<Rightarrow> int \<Rightarrow> int list \<Rightarrow> program option" where
  "quickstart env resolve src depth ticks =
     (case (server_main env resolve (\<lambda>_. None), client_main env resolve None (\<lambda>_. None)) of
        ((_, Some s), Some (Inr p)) \<Rightarrow> (case pr_phase p of In_echo k ch \<Rightarrow> do {
          (p, s) \<leftarrow> exchange src (p, s);
          p \<leftarrow> echo_returns p k ch Woken_by_response (\<lambda>_. None);
          (case pr_phase p of In_version k ch \<Rightarrow> do {
            (p, s) \<leftarrow> exchange src (p, s);
            p \<leftarrow> version_returns depth p k ch Woken_by_response (\<lambda>_. None);
            (case pr_phase p of In_loop ch \<Rightarrow> do {
              (p, s) \<leftarrow> exchange src (p, s);
              (p, s) \<leftarrow> run_all (one_tick ch) (p, s) ticks;
              loop_round p ch True (\<lambda>_. None)
            } | _ \<Rightarrow> None)
          } | _ \<Rightarrow> None)
        } | _ \<Rightarrow> None)
      | _ \<Rightarrow> None)"

section \<open>What the two do\<close>

lemma FormatUint_length: "n < 10 ^ k \<Longrightarrow> length (FormatUint n) \<le> max 1 k"
proof (induction k arbitrary: n)
  case 0
  then show ?case by (simp add: FormatUint.simps)
next
  case (Suc k)
  show ?case
  proof (cases "n < 10")
    case False
    then have "n div 10 < 10 ^ k" "k \<noteq> 0" using Suc.prems by (auto intro: ccontr)
    then show ?thesis using False Suc.IH [of "n div 10"] by (subst FormatUint.simps) simp
  qed (simp add: FormatUint.simps)
qed

lemma heartbeat_length: "\<bar>t\<bar> < 2 ^ 63 \<Longrightarrow> length (heartbeat t) \<le> 33"
proof -
  assume t: "\<bar>t\<bar> < 2 ^ 63"
  then have "nat \<bar>t\<bar> < 10 ^ 19" by simp
  then have "length (FormatUint (nat \<bar>t\<bar>)) \<le> 19" using FormatUint_length [of "nat \<bar>t\<bar>" 19] by simp
  then show ?thesis by (cases "t < 0") (simp_all add: heartbeat_def text_bytes_def FormatInt_def)
qed

text \<open>The servers that have what \<open>server_main\<close> sets up, with the client as the only subscriber or none.\<close>

definition quick_server :: "Server \<Rightarrow> udp_addr list \<Rightarrow> bool" where
  "quick_server s subs \<longleftrightarrow> us_ServiceID s = 0x1234 \<and> us_InterfaceVersion s = 1 \<and> \<not> us_closed s \<and> us_subs s 0x8001 = subs
     \<and> us_handlers s = [1 \<mapsto> echo_handler, 2 \<mapsto> version_handler]"

definition quick_client :: "Service \<Rightarrow> bool" where
  "quick_client svc \<longleftrightarrow> sv_ServiceID svc = 0x1234 \<and> \<not> sv_closed svc \<and> sv_subs svc = (\<lambda>_. []) \<and> sv_once svc = {}"

lemma server_main_ready:
  assumes "resolve (envOrDefault env ''SOMEIP_ADDR'' ''0.0.0.0:30509'') = Inr a"
  shows "\<exists>out s. server_main env resolve (\<lambda>_. None) = (out, Some s) \<and> quick_server s []"
  using assms by (auto simp: server_main_def NewServer_def RegisterMethod_def quick_server_def Let_def)

text \<open>A call, its exchange and its return.\<close>

lemma call_exchange:
  assumes "quick_client svc" "quick_server s subs" "length p + 8 < 2 ^ 32" "length out + 8 < 2 ^ 32"
    and h: "us_handlers s m = Some h" "\<And>req. Payload req = p \<Longrightarrow> h req = Inr out" and p: "pr_svc q = svc1"
    and b: "Call_begin svc m p (\<lambda>_. None) = Some (svc1, Inr (k, ch))"
  shows "\<exists>svc2 s2 svc3 resp. exchange src (q, s) = Some (q\<lparr>pr_svc := svc2\<rparr>, s2) \<and> quick_server s2 subs
    \<and> Call_select svc2 k ch Woken_by_response = Some (svc3, Inr resp) \<and> quick_client svc3 \<and> Payload resp = out"
proof -
  let ?rq = "request svc m (sv_sessionID svc + 1) MsgTypeRequest p"
  let ?req = "?rq\<lparr>ProtocolVersion := 1\<rparr>"
  let ?a = "server_answer s ?req"
  have sd: "sv_ServiceID svc \<noteq> SDServiceID" "us_ServiceID s \<noteq> SDServiceID"
    using assms(1,2) by (simp_all add: quick_client_def quick_server_def SDServiceID_def)
  have s1: "svc1 = send_udp (called svc) (wire ?rq)" "k = sv_sessionID svc + 1" "ch = sv_next svc"
    using b assms(1) by (auto simp: Call_begin_eq quick_client_def Let_def)
  have "Decode (wire ?rq) = Some (Inr ?req)" using assms(3) by (intro Decode_wire) (simp add: fits_def request_def)
  moreover have "\<not> is_sd ?req" "MessageType ?req \<noteq> MsgTypeRequestNoReturn" using sd(1) by (simp_all add: is_sd_def request_def msg_types)
  ultimately have hf: "handleFrame 64 s (wire ?rq) src = Some (write_udp s src (wire ?a))" using handleFrame_request by simp
  have "h ?req = Inr out" using h(2) by (simp add: request_def)
  then have pay: "Payload ?a = out" using h(1) by (simp add: server_answer_def request_def Let_def)
  then have "response_frame ?a" using sd(2) assms(4) udp_answer_simps [of s ?req] by (simp add: response_frame_def fits_def is_sd_def)
  note d = dispatchFrame_response [OF this, of svc1]
  have "SessionID ?a = k" by (simp add: udp_answer_simps s1 request_def)
  then have df: "dispatchFrame svc1 (wire ?a) =
      Some (svc1\<lparr>sv_chans := (sv_chans svc1)(ch := \<lparr>ch_queue = [?a], ch_cap = 1, ch_closed = False\<rparr>)\<rparr>)"
    unfolding d by (simp add: s1 called_def send_chan_def try_send_def)
  have l: "payload_of (last (sv_log svc1)) = wire ?rq" by (simp add: s1 send_udp_def)
  have "quick_server (write_udp s src (wire ?a)) subs" using assms(2) by (simp add: quick_server_def, simp add: write_udp_def)
  moreover have "\<exists>svc3. Call_select (svc1\<lparr>sv_chans := (sv_chans svc1)(ch := \<lparr>ch_queue = [?a], ch_cap = 1, ch_closed = False\<rparr>)\<rparr>) k ch Woken_by_response
      = Some (svc3, Inr ?a) \<and> quick_client svc3"
    using assms(1) by (simp add: Call_select_def recv_def quick_client_def Call_end_def s1 send_udp_def called_def)
  ultimately show ?thesis using hf df pay by (auto simp: exchange_def p l)
qed

text \<open>The client in its loop, with an empty channel.\<close>

definition listening :: "program \<Rightarrow> nat \<Rightarrow> bool" where
  "listening q ch \<longleftrightarrow> \<not> sv_closed (pr_svc q) \<and> sv_subs (pr_svc q) 0x8001 = [ch] \<and> sv_once (pr_svc q) = {}
     \<and> ch_queue (sv_chans (pr_svc q) ch) = [] \<and> 1 \<le> ch_cap (sv_chans (pr_svc q) ch) \<and> \<not> ch_closed (sv_chans (pr_svc q) ch)"

lemma subscribe_exchange:
  assumes "quick_client svc" "quick_server s []" "1 \<le> depth" and p: "pr_svc q = svc1"
    and sub: "Subscribe svc 0x8001 depth (\<lambda>_. None) = Some (svc1, Inr ch)"
  shows "\<exists>s2. exchange src (q, s) = Some (q, s2) \<and> quick_server s2 [src] \<and> listening q ch"
proof -
  have s1: "svc1 = send_udp (subscribed svc 0x8001 depth) (sub_frame svc 0x8001 subscribeTTL)" "ch = sv_next svc"
    using sub assms(1,3) by (auto simp: Subscribe_eq quick_client_def)
  let ?e = "entry_carried (sub_entry EntryTypeSubscribe (sv_ServiceID svc) (sv_InstanceID svc) 0x8001 subscribeTTL)"
  let ?s2 = "subscribe_effect s ?e src"
  have hf: "handleFrame 64 s (sub_frame svc 0x8001 subscribeTTL) src = Some ?s2" by (rule sub_frame_handled) simp
  have ttl: "subscribeTTL \<noteq> 0" by (simp add: subscribeTTL_def)
  have l: "payload_of (last (sv_log svc1)) = sub_frame svc 0x8001 subscribeTTL" by (simp add: s1 send_udp_def)
  have a: "payload_of (last (us_log ?s2)) = wire (sub_message EntryTypeSubscribeAck (us_ServiceID s) (us_InstanceID s) 0x8001 subscribeTTL)"
    by (simp add: subscribe_effect_def sub_entry_carried)
  have "quick_server ?s2 [src]" using assms(2) ttl
    by (simp add: subscribe_effect_def sub_entry_carried quick_server_def RegisterSubscriber_def) (simp add: write_udp_def)
  moreover have "listening q ch" using assms(1,3) by (simp add: listening_def p s1 quick_client_def subscribed_def)
  ultimately show ?thesis using hf a p by (cases q) (simp add: exchange_def l ack_ignored)
qed

lemma tick_heard:
  assumes "listening q ch" "quick_server s [src]" "\<bar>t\<bar> < 2 ^ 63"
  shows "\<exists>svc2 s2. one_tick ch (q, s) t = Some (q\<lparr>pr_svc := svc2, pr_out := pr_out q @ [Line_bytes ''heartbeat: %s'' (heartbeat t)]\<rparr>, s2)
    \<and> quick_server s2 [src] \<and> listening (q\<lparr>pr_svc := svc2\<rparr>) ch"
proof -
  let ?n = "notification s 0x8001 (heartbeat t)" and ?svc = "pr_svc q"
  let ?s2 = "s\<lparr>us_log := us_log s @ [Datagram src (wire ?n)]\<rparr>"
  let ?c = "(sv_chans ?svc ch)\<lparr>ch_queue := [?n]\<rparr>"
  have em: "server_tick s t = Some (?s2, [])" using assms(2) by (simp add: server_tick_def Emit_eq quick_server_def)
  have "Decode (wire ?n) = Some (Inr (?n\<lparr>ProtocolVersion := 1\<rparr>))"
    using heartbeat_length [OF assms(3)] by (intro Decode_wire) (simp add: fits_def notification_def)
  then have dec: "Decode (wire ?n) = Some (Inr ?n)" by (simp add: notification_def zero_message_def)
  have n: "ServiceID ?n \<noteq> SDServiceID" "MessageType ?n = MsgTypeNotification" "MethodID ?n = 0x8001" "Payload ?n = heartbeat t"
    using assms(2) by (simp_all add: notification_def quick_server_def SDServiceID_def)
  have d: "dispatchFrame ?svc (wire ?n) = Some (?svc\<lparr>sv_chans := (sv_chans ?svc)(ch := ?c)\<rparr>)"
    using assms(1) by (simp add: dispatchFrame_def dec n listening_def send_chan_def try_send_def)
  show ?thesis
    using assms(1,2) em d n
    by (cases q) (simp add: one_tick_def loop_round_def recv_def, simp add: listening_def quick_server_def)
qed

lemma ticks_heard:
  "listening q ch \<Longrightarrow> quick_server s [src] \<Longrightarrow> \<forall>t \<in> set ticks. \<bar>t\<bar> < 2 ^ 63 \<Longrightarrow>
   \<exists>svc2 s2. run_all (one_tick ch) (q, s) ticks
      = Some (q\<lparr>pr_svc := svc2, pr_out := pr_out q @ map (\<lambda>t. Line_bytes ''heartbeat: %s'' (heartbeat t)) ticks\<rparr>, s2)
    \<and> listening (q\<lparr>pr_svc := svc2\<rparr>) ch"
proof (induction ticks arbitrary: q s)
  case Nil
  then show ?case by (intro exI [of _ "pr_svc q"] exI [of _ s]) simp
next
  case (Cons t ticks)
  let ?q = "\<lambda>svc. q\<lparr>pr_svc := svc, pr_out := pr_out q @ [Line_bytes ''heartbeat: %s'' (heartbeat t)]\<rparr>"
  obtain svc1 s1 where s1: "one_tick ch (q, s) t = Some (?q svc1, s1)" "quick_server s1 [src]" "listening (q\<lparr>pr_svc := svc1\<rparr>) ch"
    using tick_heard [OF Cons.prems(1,2), of t] Cons.prems(3) by auto
  have "listening (?q svc1) ch" using s1(3) by (simp add: listening_def)
  from Cons.IH [OF this s1(2)] Cons.prems(3) show ?case using s1(1) by (auto simp: listening_def)
qed

lemma loop_ends:
  assumes "listening q ch"
  shows "\<exists>svc. loop_round q ch True cc = Some (q\<lparr>pr_svc := svc, pr_out := pr_out q @ [Line ''done''], pr_phase := Exited 0\<rparr>)
    \<and> sv_closed svc \<and> sv_subs svc 0x8001 = [] \<and> ch_closed (sv_chans svc ch)"
  using assms
  by (cases q) (simp add: loop_round_def finish_def Sub_Close_def Unsubscribe_eq close_once_def close_chan_def listening_def Service_Close_def,
      simp add: unsubscribe_locked_def send_udp_def)

section \<open>Properties\<close>

text \<open>C13: the quickstart works. Whatever addresses the environment sets, if they resolve and every datagram arrives, the client
  prints the echo of its greeting, the version of the server, and each heartbeat of the server between its subscription
  and the end of its 5 seconds, exactly once and in order; then it exits with 0, subscription and service closed.\<close>

theorem quickstart_works:
  assumes "resolve (envOrDefault env ''SOMEIP_ADDR'' ''0.0.0.0:30509'') = Inr listen_addr"
    and "resolve (envOrDefault env ''SOMEIP_SERVER'' ''localhost:30509'') = Inr server_addr"
    and "1 \<le> depth" "\<forall>t \<in> set ticks. \<bar>t\<bar> < 2 ^ 63"
  shows "\<exists>p. quickstart env resolve src depth ticks = Some p \<and> pr_phase p = Exited 0 \<and> sv_closed (pr_svc p)
    \<and> sv_subs (pr_svc p) 0x8001 = []
    \<and> pr_out p = [Line_text ''connected to %s'' (envOrDefault env ''SOMEIP_SERVER'' ''localhost:30509''),
        Line_bytes ''echo response: %q'' (text_bytes ''hello from client''), Line_bytes ''server version: %s'' (text_bytes ''go-SOMEIP v0.1''),
        Line ''subscribed to heartbeat event (waiting 5 s)...''] @ map (\<lambda>t. Line_bytes ''heartbeat: %s'' (heartbeat t)) ticks @ [Line ''done'']"
proof -
  let ?hello = "text_bytes ''hello from client''" and ?version = "text_bytes ''go-SOMEIP v0.1''"
  let ?conn = "Line_text ''connected to %s'' (envOrDefault env ''SOMEIP_SERVER'' ''localhost:30509'')"
  obtain out s where s: "server_main env resolve (\<lambda>_. None) = (out, Some s)" "quick_server s []" using server_main_ready assms(1) by blast
  obtain svc where svc: "NewService resolve None (envOrDefault env ''SOMEIP_SERVER'' ''localhost:30509'') 0x1234 1 5000000000 = Inr svc"
    "quick_client svc"
    using assms(2) by (auto simp: NewService_def quick_client_def)
  obtain svc1 k ch where b1: "Call_begin svc 1 ?hello (\<lambda>_. None) = Some (svc1, Inr (k, ch))"
    using svc(2) by (simp add: Call_begin_eq quick_client_def Let_def)
  let ?p1 = "\<lparr>pr_svc = svc1, pr_phase = In_echo k ch, pr_out = [?conn]\<rparr>"
  have main: "client_main env resolve None (\<lambda>_. None) = Some (Inr ?p1)" by (simp add: client_main_def svc(1) b1 Let_def)
  obtain svc2 s2 svc3 r1 where e1: "exchange src (?p1, s) = Some (?p1\<lparr>pr_svc := svc2\<rparr>, s2)" "quick_server s2 []"
    "Call_select svc2 k ch Woken_by_response = Some (svc3, Inr r1)" "quick_client svc3" "Payload r1 = ?hello"
    using call_exchange [OF svc(2) s(2), of ?hello ?hello 1 echo_handler ?p1 svc1 k ch src] b1 s(2)
    by (auto simp: quick_server_def echo_handler_def text_bytes_def)
  obtain svc4 k2 ch2 where b2: "Call_begin svc3 2 [] (\<lambda>_. None) = Some (svc4, Inr (k2, ch2))"
    using e1(4) by (simp add: Call_begin_eq quick_client_def Let_def)
  let ?p2 = "\<lparr>pr_svc = svc4, pr_phase = In_version k2 ch2, pr_out = [?conn, Line_bytes ''echo response: %q'' ?hello]\<rparr>"
  have echo: "echo_returns (?p1\<lparr>pr_svc := svc2\<rparr>) k ch Woken_by_response (\<lambda>_. None) = Some ?p2"
    by (simp add: echo_returns_def e1 b2 Let_def)
  obtain svc5 s3 svc6 r2 where e2: "exchange src (?p2, s2) = Some (?p2\<lparr>pr_svc := svc5\<rparr>, s3)" "quick_server s3 []"
    "Call_select svc5 k2 ch2 Woken_by_response = Some (svc6, Inr r2)" "quick_client svc6" "Payload r2 = ?version"
    using call_exchange [OF e1(4,2), of "[]" ?version 2 version_handler ?p2 svc4 k2 ch2 src] b2 e1(2)
    by (auto simp: quick_server_def version_handler_def text_bytes_def)
  obtain svc7 ch3 where sub: "Subscribe svc6 0x8001 depth (\<lambda>_. None) = Some (svc7, Inr ch3)"
    using e2(4) assms(3) by (simp add: Subscribe_eq quick_client_def)
  let ?p3 = "\<lparr>pr_svc = svc7, pr_phase = In_loop ch3, pr_out = [?conn, Line_bytes ''echo response: %q'' ?hello,
    Line_bytes ''server version: %s'' ?version, Line ''subscribed to heartbeat event (waiting 5 s)...'']\<rparr>"
  have version: "version_returns depth (?p2\<lparr>pr_svc := svc5\<rparr>) k2 ch2 Woken_by_response (\<lambda>_. None) = Some ?p3"
    by (simp add: version_returns_def e2 sub Let_def)
  obtain s4 where e3: "exchange src (?p3, s3) = Some (?p3, s4)" "quick_server s4 [src]" "listening ?p3 ch3"
    using subscribe_exchange [OF e2(4,2) assms(3), of ?p3 svc7 ch3 src] sub by auto
  obtain svc8 s5 where t: "run_all (one_tick ch3) (?p3, s4) ticks
      = Some (?p3\<lparr>pr_svc := svc8, pr_out := pr_out ?p3 @ map (\<lambda>t. Line_bytes ''heartbeat: %s'' (heartbeat t)) ticks\<rparr>, s5)"
    "listening (?p3\<lparr>pr_svc := svc8\<rparr>) ch3"
    using ticks_heard [OF e3(3,2) assms(4)] by blast
  let ?p4 = "?p3\<lparr>pr_svc := svc8, pr_out := pr_out ?p3 @ map (\<lambda>t. Line_bytes ''heartbeat: %s'' (heartbeat t)) ticks\<rparr>"
  have "listening ?p4 ch3" using t(2) by (simp add: listening_def)
  then obtain svc9 where "loop_round ?p4 ch3 True (\<lambda>_. None) = Some (?p4\<lparr>pr_svc := svc9, pr_out := pr_out ?p4 @ [Line ''done''], pr_phase := Exited 0\<rparr>)"
    "sv_closed svc9" "sv_subs svc9 0x8001 = []"
    using loop_ends by blast
  then show ?thesis by (simp add: quickstart_def s(1) main e1(1) e2(1) e3(1) echo [simplified] version [simplified] t(1) [simplified])
qed

theorem quickstart_works_witness:
  "\<exists>p. quickstart (\<lambda>_. []) (\<lambda>_. Inr sample_addr) sample_addr 64 [1700000000, 1700000001] = Some p \<and> pr_phase p = Exited 0
    \<and> length (pr_out p) = 7 \<and> pr_out p ! 5 = Line_bytes ''heartbeat: %s'' (heartbeat 1700000001)"
  using quickstart_works [of "\<lambda>_. Inr sample_addr" "\<lambda>_. []" sample_addr sample_addr 64 "[1700000000, 1700000001]" sample_addr]
  by (auto simp: eval_nat_numeral)

end
