(* ===== verification/UDP_Events.thy ===== *)
theory UDP_Events
  imports UDP
begin

text \<open>
  Events over UDP (\<open>src/udp/udp.go\<close>): a client subscribes, and from then on the server emits and the application takes what
  is in the channel of its subscription, in any order. The datagrams reach the read loop of the client at once.
\<close>

section \<open>Emitting and taking\<close>

datatype event_act = Emitted "byte list" | Taken

text \<open>What goes to an address, of what a server writes.\<close>

definition to_peer :: "udp_addr \<Rightarrow> udp_event list \<Rightarrow> byte list list" where
  "to_peer addr es = [f. Datagram a f \<leftarrow> es, addr_text a = addr_text addr]"

definition emit_act :: "u16 \<Rightarrow> udp_addr \<Rightarrow> Service \<times> Server \<Rightarrow> byte list \<Rightarrow> (Service \<times> Server) option" where
  "emit_act ev src st p = do {
     (s, _) \<leftarrow> Emit (snd st) ev p;
     (svc, _) \<leftarrow> Service_readLoop (fst st) (map Read (to_peer src (drop (length (us_log (snd st))) (us_log s))));
     Some (svc, s)
   }"

definition take_act :: "nat \<Rightarrow> Service \<Rightarrow> Service \<times> message list" where
  "take_act ch svc =
     (case recv (sv_chans svc ch) of None \<Rightarrow> (svc, []) | Some (m, c) \<Rightarrow> (svc\<lparr>sv_chans := (sv_chans svc)(ch := c)\<rparr>, [m]))"

text \<open>A run of them, with what the application has taken.\<close>

fun event_run :: "u16 \<Rightarrow> udp_addr \<Rightarrow> nat \<Rightarrow> Service \<times> Server \<Rightarrow> event_act list \<Rightarrow> ((Service \<times> Server) \<times> message list) option" where
  "event_run ev src ch st [] = Some (st, [])"
| "event_run ev src ch st (Emitted p # acts) = do { st \<leftarrow> emit_act ev src st p; event_run ev src ch st acts }"
| "event_run ev src ch st (Taken # acts) =
     (let (svc, ms) = take_act ch (fst st) in map_option (\<lambda>(st, ns). (st, ms @ ns)) (event_run ev src ch (svc, snd st) acts))"

text \<open>The specification: a queue of bounded length that drops what arrives when it is full. What is taken, and what is left.\<close>

fun fifo :: "nat \<Rightarrow> (byte list \<Rightarrow> 'a) \<Rightarrow> 'a list \<Rightarrow> event_act list \<Rightarrow> 'a list \<times> 'a list" where
  "fifo depth n q [] = ([], q)"
| "fifo depth n q (Emitted p # acts) = fifo depth n (if length q < depth then q @ [n p] else q) acts"
| "fifo depth n [] (Taken # acts) = fifo depth n [] acts"
| "fifo depth n (x # q) (Taken # acts) = (let (xs, left) = fifo depth n q acts in (x # xs, left))"

definition emitted :: "(byte list \<Rightarrow> 'a) \<Rightarrow> event_act list \<Rightarrow> 'a list" where
  "emitted f acts = [f p. Emitted p \<leftarrow> acts]"

lemma emitted_simps [simp]:
  "emitted f [] = []" "emitted f (Emitted p # acts) = f p # emitted f acts" "emitted f (Taken # acts) = emitted f acts"
  by (simp_all add: emitted_def)

lemma to_peer_append [simp]: "to_peer src [] = []" "to_peer src (es @ fs) = to_peer src es @ to_peer src fs"
  by (simp_all add: to_peer_def)

lemma to_peer_map: "to_peer src (map (\<lambda>a. Datagram a f) as) = replicate (length (filter (\<lambda>a. addr_text a = addr_text src) as)) f"
  by (induction as) (simp_all add: to_peer_def)

section \<open>A subscription that the server knows\<close>

definition linked :: "u16 \<Rightarrow> udp_addr \<Rightarrow> nat \<Rightarrow> nat \<Rightarrow> Service \<Rightarrow> Server \<Rightarrow> bool" where
  "linked ev src ch depth svc s \<longleftrightarrow>
     distinct (sv_subs svc ev) \<and> ch \<in> set (sv_subs svc ev) \<and> (\<forall>c \<in> set (sv_subs svc ev). \<not> ch_closed (sv_chans svc c)) \<and>
     ch_cap (sv_chans svc ch) = int depth \<and> \<not> us_closed s \<and> \<not> (us_ServiceID s = SDServiceID \<and> ev = SDMethodID) \<and>
     length (filter (\<lambda>a. addr_text a = addr_text src) (us_subs s ev)) = 1"

lemma notification_log [simp]: "notification (s\<lparr>us_log := l\<rparr>) = notification s"
  by (simp add: notification_def fun_eq_iff)

lemma linked_emit:
  assumes l: "linked ev src ch depth svc s" and p: "16 + length p \<le> 65507"
  shows "\<exists>svc' es. emit_act ev src (svc, s) p = Some (svc', s\<lparr>us_log := us_log s @ es\<rparr>) \<and> to_peer src es = [wire (notification s ev p)]
    \<and> linked ev src ch depth svc' (s\<lparr>us_log := us_log s @ es\<rparr>) \<and> sv_subs svc' = sv_subs svc
    \<and> ch_queue (sv_chans svc' ch) = (let q = ch_queue (sv_chans svc ch) in if length q < depth then q @ [notification s ev p] else q)
    \<and> (\<forall>c. c \<notin> set (sv_subs svc ev) \<longrightarrow> sv_chans svc' c = sv_chans svc c)"
proof -
  let ?n = "notification s ev p" and ?chs = "sv_subs svc ev"
  let ?es = "map (\<lambda>a. Datagram a (wire ?n)) (us_subs s ev)"
  have d: "distinct ?chs" "ch \<in> set ?chs" "\<forall>c \<in> set ?chs. \<not> ch_closed (sv_chans svc c)" "ch_cap (sv_chans svc ch) = int depth"
    "\<not> us_closed s" "\<not> (us_ServiceID s = SDServiceID \<and> ev = SDMethodID)"
    and one: "length (filter (\<lambda>a. addr_text a = addr_text src) (us_subs s ev)) = 1"
    using l unfolding linked_def by blast+
  have emit: "Emit s ev p = Some (s\<lparr>us_log := us_log s @ ?es\<rparr>, None)" using d(5) by (simp add: Emit_eq)
  have peer: "to_peer src ?es = [wire ?n]" unfolding to_peer_map one by simp
  have "Decode (wire ?n) = Some (Inr (?n\<lparr>ProtocolVersion := 1\<rparr>))"
    using p by (intro Decode_wire) (simp add: fits_def notification_def)
  then have dec: "Decode (wire ?n) = Some (Inr ?n)" by (simp add: notification_def zero_message_def)
  have uncut: "take (nat maxUDPFrameSize) (wire ?n) = wire ?n"
    using p by (intro take_all) (simp add: maxUDPFrameSize_def notification_def)
  obtain svc' where svc': "notify_loop svc ?chs ?n = Some svc'" "sv_subs svc' = sv_subs svc"
    "\<forall>c. sv_chans svc' c = (if c \<in> set ?chs then the (try_send (sv_chans svc c) ?n) else sv_chans svc c)"
    using notify_delivers [OF d(1,3)] by blast
  have "dispatchFrame svc (wire ?n) = Some svc'"
    using svc'(1) d(6) by (simp add: dispatchFrame_def dec) (auto simp: notification_def)
  then have act: "emit_act ev src (svc, s) p = Some (svc', s\<lparr>us_log := us_log s @ ?es\<rparr>)"
    using emit peer uncut by (simp add: emit_act_def)
  have "linked ev src ch depth svc' (s\<lparr>us_log := us_log s @ ?es\<rparr>)"
    using d one svc'(2,3) unfolding linked_def by (auto simp: try_send_def)
  moreover have "ch_queue (sv_chans svc' ch) = (let q = ch_queue (sv_chans svc ch) in if length q < depth then q @ [?n] else q)"
    using svc'(3) d(2-4) by (auto simp: try_send_def Let_def)
  ultimately show ?thesis using act peer svc'(2,3) by (intro exI [of _ svc'] exI [of _ ?es]) simp
qed

lemma linked_take:
  assumes "linked ev src ch depth svc s" "take_act ch svc = (svc', ms)"
  shows "linked ev src ch depth svc' s \<and> sv_subs svc' = sv_subs svc \<and> (\<forall>c. c \<noteq> ch \<longrightarrow> sv_chans svc' c = sv_chans svc c)
    \<and> ch_queue (sv_chans svc ch) = ms @ ch_queue (sv_chans svc' ch) \<and> (ms = [] \<longrightarrow> ch_queue (sv_chans svc ch) = []) \<and> length ms \<le> 1"
  using assms by (auto simp: take_act_def linked_def recv_def split: list.splits option.splits if_splits)

lemma event_run_fifo:
  assumes "linked ev src ch depth svc s" "\<forall>p. Emitted p \<in> set acts \<longrightarrow> 16 + length p \<le> 65507"
  shows "\<exists>svc' es taken. event_run ev src ch (svc, s) acts = Some ((svc', s\<lparr>us_log := us_log s @ es\<rparr>), taken)
    \<and> (taken, ch_queue (sv_chans svc' ch)) = fifo depth (notification s ev) (ch_queue (sv_chans svc ch)) acts
    \<and> to_peer src es = emitted (\<lambda>p. wire (notification s ev p)) acts
    \<and> (\<forall>c. c \<notin> set (sv_subs svc ev) \<longrightarrow> sv_chans svc' c = sv_chans svc c)"
  using assms
proof (induction acts arbitrary: svc s)
  case Nil
  then show ?case by (intro exI [of _ svc] exI [of _ "[]"]) simp
next
  case (Cons act acts)
  show ?case
  proof (cases act)
    case (Emitted p)
    have "16 + length p \<le> 65507" using Cons.prems(2) Emitted by simp
    from linked_emit [OF Cons.prems(1) this] obtain svc1 es1 where e: "emit_act ev src (svc, s) p = Some (svc1, s\<lparr>us_log := us_log s @ es1\<rparr>)"
      "to_peer src es1 = [wire (notification s ev p)]" "linked ev src ch depth svc1 (s\<lparr>us_log := us_log s @ es1\<rparr>)" "sv_subs svc1 = sv_subs svc"
      "ch_queue (sv_chans svc1 ch) = (let q = ch_queue (sv_chans svc ch) in if length q < depth then q @ [notification s ev p] else q)"
      "\<forall>c. c \<notin> set (sv_subs svc ev) \<longrightarrow> sv_chans svc1 c = sv_chans svc c" by blast
    from Cons.IH [OF e(3)] Cons.prems(2) obtain svc2 es2 taken where
      "event_run ev src ch (svc1, s\<lparr>us_log := us_log s @ es1\<rparr>) acts = Some ((svc2, s\<lparr>us_log := us_log s @ es1 @ es2\<rparr>), taken)"
      "(taken, ch_queue (sv_chans svc2 ch)) = fifo depth (notification s ev) (ch_queue (sv_chans svc1 ch)) acts"
      "to_peer src es2 = emitted (\<lambda>p. wire (notification s ev p)) acts" "\<forall>c. c \<notin> set (sv_subs svc1 ev) \<longrightarrow> sv_chans svc2 c = sv_chans svc1 c" by auto
    with e Emitted show ?thesis by (intro exI [of _ svc2] exI [of _ "es1 @ es2"] exI [of _ taken]) (simp add: Let_def)
  next
    case Taken
    obtain svc1 ms where t: "take_act ch svc = (svc1, ms)" by fastforce
    note k = linked_take [OF Cons.prems(1) t]
    have mem: "ch \<in> set (sv_subs svc ev)" using Cons.prems(1) by (simp add: linked_def)
    from Cons.IH [of svc1 s] k Cons.prems(2) obtain svc2 es taken where
      r: "event_run ev src ch (svc1, s) acts = Some ((svc2, s\<lparr>us_log := us_log s @ es\<rparr>), taken)"
      "(taken, ch_queue (sv_chans svc2 ch)) = fifo depth (notification s ev) (ch_queue (sv_chans svc1 ch)) acts"
      "to_peer src es = emitted (\<lambda>p. wire (notification s ev p)) acts" "\<forall>c. c \<notin> set (sv_subs svc1 ev) \<longrightarrow> sv_chans svc2 c = sv_chans svc1 c" by auto
    have "fifo depth (notification s ev) (ch_queue (sv_chans svc ch)) (Taken # acts) = (ms @ taken, ch_queue (sv_chans svc2 ch))"
      using k r(2) [symmetric] by (cases ms) (auto simp: Let_def)
    with r k t mem Taken show ?thesis by (intro exI [of _ svc2] exI [of _ es] exI [of _ "ms @ taken"]) (auto simp: Let_def)
  qed
qed

section \<open>Properties\<close>

text \<open>C18: events over UDP, end to end. \<open>Subscribe\<close> sends one frame; the server that handles it registers the address it came
  from and acknowledges, which the client ignores. From then on, in whatever order the server emits the event and
  the application takes from the channel of the subscription, each \<open>Emit\<close> of a payload that fits a datagram sends this
  client exactly one, and the channel is a queue of its depth: the application takes the notifications in the order
  they were emitted, each once, but for those that arrived when the channel was full, which are dropped. No channel of
  another event is touched. Every datagram the server sends the client is taken to arrive at once, in order.\<close>

theorem udp_event_end_to_end:
  assumes "\<not> sv_closed svc" "1 \<le> depth" "\<not> us_closed s" "server_ok s"
    and "\<forall>e. \<forall>ch \<in> set (sv_subs svc e). ch < sv_next svc \<and> \<not> ch_closed (sv_chans svc ch)" "distinct (sv_subs svc ev)"
    and "w = 32 \<or> w = 64" "\<not> (us_ServiceID s = SDServiceID \<and> ev = SDMethodID)"
    and small: "\<forall>p. Emitted p \<in> set acts \<longrightarrow> 16 + length p \<le> 65507"
  shows "\<exists>svc1 ch frame s1 ack svc2 s2 taken. Subscribe svc ev depth (\<lambda>_. None) = Some (svc1, Inr ch)
    \<and> sv_log svc1 = sv_log svc @ [Datagram (sv_serverAddr svc) frame]
    \<and> Server_readLoop [Read (frame, src)] = ([(frame, src)], False) \<and> handleFrame w s frame src = Some s1
    \<and> us_log s1 = us_log s @ [Datagram src ack] \<and> Service_readLoop svc1 [Read ack] = Some (svc1, False)
    \<and> event_run ev src ch (svc1, s1) acts = Some ((svc2, s2), taken)
    \<and> to_peer src (drop (length (us_log s1)) (us_log s2)) = emitted (\<lambda>p. wire (notification s1 ev p)) acts
    \<and> (taken, ch_queue (sv_chans svc2 ch)) = fifo (nat depth) (notification s1 ev) [] acts
    \<and> (\<forall>c. c \<notin> set (sv_subs svc1 ev) \<longrightarrow> sv_chans svc2 c = sv_chans svc1 c)"
proof -
  let ?svc1 = "send_udp (subscribed svc ev depth) (sub_frame svc ev subscribeTTL)" and ?ch = "sv_next svc"
  let ?e = "entry_carried (sub_entry EntryTypeSubscribe (sv_ServiceID svc) (sv_InstanceID svc) ev subscribeTTL)"
  let ?s1 = "subscribe_effect s ?e src"
  let ?ack = "wire (sub_message EntryTypeSubscribeAck (us_ServiceID s) (us_InstanceID s) ev subscribeTTL)"
  have sub: "Subscribe svc ev depth (\<lambda>_. None) = Some (?svc1, Inr ?ch)"
    using assms(1,2) by (simp add: Subscribe_eq)
  have ttl: "subscribeTTL \<noteq> 0" by (simp add: subscribeTTL_def)
  have s1: "?s1 = write_udp (fst (RegisterSubscriber s ev src)) src ?ack"
    using ttl by (simp add: subscribe_effect_def sub_entry_carried)
  have ids: "us_log ?s1 = us_log s @ [Datagram src ?ack]" "\<not> us_closed ?s1" "us_ServiceID ?s1 = us_ServiceID s"
    using assms(3) by (simp_all add: s1, auto simp: RegisterSubscriber_def write_udp_def)
  have one: "length (filter (\<lambda>a. addr_text a = addr_text src) (us_subs ?s1 ev)) = 1"
    using registered_once [OF assms(4,3)] by (simp add: s1)
  have uncut: "take (nat maxUDPFrameSize) (wire (sub_message t sid iid ev n)) = wire (sub_message t sid iid ev n)" for t sid iid n
    by (intro take_all) (simp add: maxUDPFrameSize_def sub_message_def)
  have uncut_sub: "take (nat maxUDPFrameSize) (sub_frame svc ev n) = sub_frame svc ev n" for n unfolding sub_frame_def by (rule uncut)
  have log: "sv_log ?svc1 = sv_log svc @ [Datagram (sv_serverAddr svc) (sub_frame svc ev subscribeTTL)]"
    by (simp add: send_udp_def subscribed_def)
  have loops: "Server_readLoop [Read (sub_frame svc ev subscribeTTL, src)] = ([(sub_frame svc ev subscribeTTL, src)], False)"
    "Service_readLoop ?svc1 [Read ?ack] = Some (?svc1, False)"
    by (simp_all only: Server_readLoop_def Service_readLoop.simps serve_loop.simps prod.case Let_def uncut uncut_sub ack_ignored Option.bind.simps)
  have subs: "sv_subs ?svc1 ev = sv_subs svc ev @ [?ch]" by (simp add: subscribed_def)
  have new: "sv_chans ?svc1 ?ch = \<lparr>ch_queue = [], ch_cap = depth, ch_closed = False\<rparr>" by (simp add: subscribed_def)
  have "?ch \<notin> set (sv_subs svc ev)" using assms(5) by blast
  then have dist: "distinct (sv_subs ?svc1 ev)" using assms(6) unfolding subs by simp
  have "\<forall>ch \<in> set (sv_subs ?svc1 ev). \<not> ch_closed (sv_chans ?svc1 ch)"
    using assms(5) by (auto simp: subscribed_def)
  then have "linked ev src ?ch (nat depth) ?svc1 ?s1"
    using dist ids one new assms(2,8) subs unfolding linked_def by simp
  from event_run_fifo [OF this small, unfolded new chan.simps] obtain svc2 es taken where
    "event_run ev src ?ch (?svc1, ?s1) acts = Some ((svc2, ?s1\<lparr>us_log := us_log ?s1 @ es\<rparr>), taken)"
    "(taken, ch_queue (sv_chans svc2 ?ch)) = fifo (nat depth) (notification ?s1 ev) [] acts"
    "to_peer src es = emitted (\<lambda>p. wire (notification ?s1 ev p)) acts"
    "\<forall>c. c \<notin> set (sv_subs ?svc1 ev) \<longrightarrow> sv_chans svc2 c = sv_chans ?svc1 c" by blast
  with sub log loops ids(1) sub_frame_handled [OF assms(7), of s svc ev subscribeTTL src] show ?thesis
    by - (rule exI [of _ ?svc1], rule exI [of _ ?ch], rule exI [of _ "sub_frame svc ev subscribeTTL"], rule exI [of _ ?s1], rule exI [of _ ?ack],
      rule exI [of _ svc2], rule exI [of _ "?s1\<lparr>us_log := us_log ?s1 @ es\<rparr>"], rule exI [of _ taken], simp)
qed

text \<open>A channel of depth 1: the second event is dropped, the one after the first was taken is not.\<close>

theorem udp_event_end_to_end_witness:
  "\<exists>svc1 ch s1 svc2 s2 taken. Subscribe sample_service 0x8001 1 (\<lambda>_. None) = Some (svc1, Inr ch)
    \<and> event_run 0x8001 sample_addr ch (svc1, s1) [Emitted [5], Emitted [6], Taken, Emitted [7], Taken] = Some ((svc2, s2), taken)
    \<and> map Payload taken = [[5], [7]] \<and> ch_queue (sv_chans svc2 ch) = []"
proof -
  let ?acts = "[Emitted [5], Emitted [6], Taken, Emitted [7], Taken]"
  have c: "\<not> sv_closed sample_service" "1 \<le> (1 :: int)" "\<not> us_closed sample_server" "server_ok sample_server"
    "\<forall>e. \<forall>ch \<in> set (sv_subs sample_service e). ch < sv_next sample_service \<and> \<not> ch_closed (sv_chans sample_service ch)"
    "distinct (sv_subs sample_service 0x8001)" "64 = (32 :: nat) \<or> 64 = (64 :: nat)"
    "\<not> (us_ServiceID sample_server = SDServiceID \<and> 0x8001 = SDMethodID)" "\<forall>p. Emitted p \<in> set ?acts \<longrightarrow> 16 + length p \<le> 65507"
    by (auto simp: sample_service_def sample_server_def server_ok_def SDServiceID_def)
  from udp_event_end_to_end [OF c, of sample_addr] obtain svc1 ch s1 svc2 s2 taken where
    "Subscribe sample_service 0x8001 1 (\<lambda>_. None) = Some (svc1, Inr ch)"
    "event_run 0x8001 sample_addr ch (svc1, s1) ?acts = Some ((svc2, s2), taken)"
    "(taken, ch_queue (sv_chans svc2 ch)) = fifo (nat 1) (notification s1 0x8001) [] ?acts" by blast
  then show ?thesis
    by - (rule exI [of _ svc1], rule exI [of _ ch], rule exI [of _ s1], rule exI [of _ svc2], rule exI [of _ s2], rule exI [of _ taken],
      simp add: notification_def del: event_run.simps)
qed

end
