(* ===== verification/Spec2Isabelle.thy ===== *)
theory Spec2Isabelle
  imports E2E TP_Traffic SD_Announce CLI Sessions UDP_Frames Call_Answers Server_Goroutines Clients_Agree TCP_Server Contract Quickstart UDP_Events
begin

text \<open>
  go-SOMEIP is a Go library for SOME/IP, the service protocol of automotive Ethernet: messages with a 16 byte
  header, method calls and events between a \<open>Service\<close> (the client) and a \<open>Server\<close> over three transports, service
  discovery (SD), segmentation (TP), end-to-end protection (E2E), an adapter to the RELAY message envelope, and a
  command line tool. This development models all of them from the sources under \<open>src/\<close> and proves what makes
  them correct, and where they fall short.

  \<^bold>\<open>How the parts interact.\<close> \<open>someip.go\<close> has the message, the error values and the interfaces; \<open>codec\<close> turns a
  message into a frame and back; every transport sends and reads frames of the codec. The SD daemon (\<open>sd/udp\<close>) exchanges
  entries and options (\<open>sd\<close>) in such frames, and keeps what others offer in the registry of \<open>sd\<close>. \<open>tp\<close> cuts
  a message into segments and puts it together; \<open>e2e\<close> protects a payload; both stand beside the transports and
  are called by the application. The adapter (\<open>adapt.go\<close>) calls any transport through the \<open>Service\<close> interface; the
  command line tool converts messages and sends them through the codec.

  \<^bold>\<open>Theories\<close>, in the order of their imports.
  \<^item> \<open>Prelude\<close>: bytes, machine integers at their width (\<open>goint w\<close> for Go's \<open>int\<close>), slices, byte order, errors with
    \<open>errors.Is\<close>, folds of fallible steps, the collections of rewrite rules. An \<open>option\<close> outside the result type
    is a Go panic; \<open>goerr + 'a\<close> is an error or a value.
  \<^item> \<open>Strconv\<close>: \<open>FormatUint\<close>, \<open>ParseUint\<close>, \<open>SplitN\<close>. \<open>SomeIP\<close> (\<open>someip.go\<close>): \<open>message\<close>, \<open>Validate\<close>, the constants.
  \<^item> \<open>Interfaces\<close>: the locales: a codec and its round trip, a registry with expiry, a bounded queue, an
    integrity check, the table of calls a client waits on (\<open>call_table\<close>: whatever is lost, repeated or reordered, a call has its own
    answer; \<open>call_lifecycle\<close>: what a late answer does when session numbers have come round), two machines in step
    (\<open>lockstep\<close>). Each is interpreted in the theory of the component that provides it. \<open>Goroutines\<close>: goroutines with one
    section under a lock each and then writes that may fail, the more so on a socket that is closed (\<open>go_step\<close>), and the locale
    \<open>serial_sections\<close>: what they do together they could do one after another, but for the writes that failed.
  \<^item> \<open>Codec\<close> (\<open>codec/codec.go\<close>): \<open>Encode\<close> with the destination slice and its spare capacity, \<open>Decode\<close>; round trip,
    canonicity, layout, outcome on any bytes.
  \<^item> \<open>E2E\<close> (\<open>e2e/e2e.go\<close>): the CRC engines against their bit-serial definitions, \<open>Protect\<close> and \<open>Check\<close> of Profiles 01 and 05;
    what corruption they detect.
  \<^item> \<open>TP\<close> (\<open>tp/tp.go\<close>): \<open>Segment\<close> as the loop it is, \<open>Reassembler\<close> with windows, tombstones and collector; order and
    duplicates do not matter, memory is bounded, expiry. \<open>TP_Traffic\<close>: a message among interleaved traffic of other keys; two senders
    with one key.
  \<^item> \<open>SD\<close> (\<open>sd/sd.go\<close>): entries, options, endpoint resolution, the registry, which refines the list of the last offers.
  \<^item> \<open>Net\<close>: UDP addresses, Go channels and read loops. \<open>SDUDP\<close> (\<open>sd/udp/sdudp.go\<close>): SD frames and the daemon; offers, finds,
    withdrawals and subscriptions between two daemons, panic freedom, the race of \<open>Offer\<close> with \<open>Close\<close>. \<open>SD_Announce\<close>: the
    goroutine that announces an offer, against the clock: how long a service stays discoverable, and a tick that comes late.
  \<^item> \<open>UDP\<close> (\<open>udp/udp.go\<close>) and \<open>TCP\<close> (\<open>tcp/tcp.go\<close>): server and client with every operation. A call is \<open>Call_begin\<close>, up to its
    \<open>select\<close>, and \<open>Call_select\<close>, from what wakes it; between them other goroutines step. Calls and events from end to
    end, panic freedom under every interleaving (\<open>client_step\<close>), framing of a stream cut anywhere.
  \<^item> \<open>UDP_Events\<close>: a subscription and what is emitted to it afterwards, as a queue of bounded length (\<open>fifo\<close>).
  \<^item> \<open>UDP_Frames\<close>: every frame of a UDP server or client is a well-typed message in its own name; what a server answers.
    \<open>Call_Sections\<close>: \<open>Call\<close> and the read loop in their critical sections, each a step of its own (\<open>section_step\<close>); run without
    interruption they are the operations of \<open>UDP\<close>. \<open>Call_Answers\<close>: there, an answer that arrives while its call waits is not lost.
    \<open>Server_Goroutines\<close>: the goroutines of a UDP and of a TCP server, which is as if it served them in some order, and not always in
    that of their arrival; what is lost when \<open>Close\<close> closes the socket under them. \<open>Sessions\<close>: session numbers that come round, over both transports.
    \<open>TCP_Client\<close>: \<open>Call\<close>, \<open>CallNoReturn\<close> and the read loop of a TCP client in their sections, each a step of its own (\<open>tcp_step\<close>). \<open>TCP_Server\<close>: the wait group of a TCP server and when \<open>Close\<close>
    returns (\<open>server_step\<close>). \<open>Clients_Agree\<close>: the two clients are in step.
  \<^item> \<open>Mock\<close> (\<open>mock/mock.go\<close>): the bus as a store of servers, services and subscriptions; \<open>mock_step\<close> interleaves
    emitters with every other operation.
  \<^item> \<open>Contract\<close> (the interfaces of \<open>someip.go\<close>): \<open>Service\<close>, \<open>Server\<close> and \<open>Subscription\<close> as records of operations, filled in by each transport; what
    their comments promise as the locales \<open>closable_service\<close>, \<open>closable_server\<close> and \<open>subscription_contract\<close>, interpreted on the bus, on UDP and on TCP.
  \<^item> \<open>Adapt\<close> (\<open>adapt.go\<close>): the conversions, the adapter over any transport, its back pressure; the locale \<open>rpc_transport\<close> is
    what it relies on, interpreted for the bus, for UDP and for TCP.
  \<^item> \<open>CLI\<close> (\<open>cmd/go-someip\<close>): flags, \<open>send\<close>, \<open>convert\<close>, the documents, \<open>main\<close>.
  \<^item> \<open>Quickstart\<close> (\<open>examples/quickstart\<close>): the two example programs, cut where they block, and their run together.
  \<^item> This theory: the properties that span components: the transports agree when a method succeeds and disagree
    when it fails; what \<open>send\<close> writes a TCP server reads; a protected payload in segments in frames arrives. What
    joins the components here and in \<open>Adapt\<close> (\<open>receive\<close>, \<open>mock_rpc\<close>, \<open>udp_rpc\<close>, \<open>tcp_rpc\<close>) is composition of
    the modelled operations and stands for no code of the repository.

  \<^bold>\<open>State and effects.\<close> A struct behind a pointer is a record that operations take and return; where the code
  shares many objects (the bus) they are a store indexed by numbers. Mutexes make an operation one step; where the
  code releases a lock and goes on, the operation is several definitions, or is cut into its sections in a theory of its own, and a
  step relation lets others in between.
  A Go map is a partial map, or an association list and a permutation where its order of iteration may show: the theorems hold for
  every permutation. Time is an argument. What is written to a socket is logged. The result of a write is an argument where the code
  looks at it; what a server or a daemon writes over UDP, where it does not, is logged whether the write succeeds or not, and \<open>Server_Goroutines\<close>
  tells the datagrams that are sent from those that are lost.

  \<^bold>\<open>Bounds.\<close> No definition uses fuel: loops are structural or have a measure (bytes left, length of the rest); the
  \<open>DropOldest\<close> loop, which may run for ever, is a partial function whose \<open>None\<close> is that. Platform dependence
  is the width \<open>w\<close> of \<open>int\<close>: a theorem says 64, or any width, where it matters. Hypotheses on lengths are those of the format: a
  payload with its header fits the 32-bit Length field, a TCP frame fits 64 MiB, a UDP frame the 65507 bytes of a datagram and of the read buffers.

  \<^bold>\<open>Not modelled.\<close> Sockets, dialling, listening and multicast membership, which are the operating system's: what a read
  or a write gives is an argument. The interfaces of \<open>someip.go\<close> nothing implements (\<open>HealthProvider\<close>, \<open>MetricsProvider\<close>,
  \<open>Drainer\<close>), its aliases of the RELAY module and the option helpers that call it;
  that module, JSON, contexts and handlers are arguments. Messages on the standard error output, what the handlers of the examples log, and
  the text of errors, of which only identity and wrapping are kept. Where goroutines interleave, \<open>CallNoReturn\<close>, \<open>Subscribe\<close>
  and \<open>Unsubscribe\<close> of the UDP client are one step each, as is \<open>Close\<close> of a client, and so are the operations of the SD daemon,
  but for \<open>Offer\<close> with its goroutine and \<open>Close\<close>; \<open>closeOnce\<close> of the bus sets its flag and closes its channel in one step.
\<close>

section \<open>One adapter, three transports\<close>

text \<open>C19: the transports agree on success, but for two entries of the Meta. The in-process bus, a UDP server and a TCP
  server serve the same method of the same service with handlers that answer the payload of the request alike, whatever else it
  says; the frames fit the read buffers of UDP, and the TCP server has interface version 0. Then a call through the RELAY
  adapter returns over each of them the conversion of a response with the handler's output and return code OK. The three
  differ in nothing but their times, the session number, which is that of the client's own call, and the interface version,
  which is the UDP server's over UDP and 0 over the others; each transport is left able to serve the next call.\<close>

theorem transports_agree:
  assumes "FromMessage req = Inr m"
    and "mock_open svc b" "handled (ms_handlers (served_by svc b)) (MethodID m) (Payload m) out" "fst (ms_key (served_by svc b)) = sid"
    and "udp_open u" "handled (us_handlers (snd u)) (MethodID m) (Payload m) out" "us_ServiceID (snd u) = sid"
    and "tcp_open chunks t" "handled (ts_handlers (snd t)) (MethodID m) (Payload m) out" "ts_ServiceID (snd t) = sid"
    and "16 + length (Payload m) \<le> 65507" "16 + length out \<le> 65507" "ts_InterfaceVersion (snd t) = 0"
  shows "\<exists>b' u' t' r1 r2 r3.
    adapter_Call SOMEIP now1 (mock_rpc svc) b req = Some (b', Inr r1) \<and> mock_open svc b' \<and>
    adapter_Call SOMEIP now2 (udp_rpc w src) u req = Some (u', Inr r2) \<and> udp_open u' \<and>
    adapter_Call SOMEIP now3 (tcp_rpc chunks conn) t req = Some (t', Inr r3) \<and> tcp_open chunks t' \<and>
    r1 = ToMessage SOMEIP now1 (ok_response sid (MethodID m) (mc_sessionID (h_services b svc) + 1) 0 out) \<and>
    r2 = ToMessage SOMEIP now2 (ok_response sid (MethodID m) (sv_sessionID (fst u) + 1) (us_InterfaceVersion (snd u)) out) \<and>
    r3 = ToMessage SOMEIP now3 (ok_response sid (MethodID m) (tv_sessionID (fst t) + 1) 0 out) \<and>
    (\<forall>r \<in> {r2, r3}. \<exists>time session version. r = r1\<lparr>rm_Timestamp := time,
       rm_Meta := (rm_Meta r1)(''someip.session_id'' \<mapsto> session, ''someip.interface_version'' \<mapsto> version)\<rparr>)"
proof -
  have meta: "ToMessage SOMEIP now (ok_response sid m s v out) = (ToMessage SOMEIP now' (ok_response sid m s' v' out))
      \<lparr>rm_Timestamp := now, rm_Meta := (rm_Meta (ToMessage SOMEIP now' (ok_response sid m s' v' out)))
        (''someip.session_id'' \<mapsto> FormatUint (unat s), ''someip.interface_version'' \<mapsto> FormatUint (unat v))\<rparr>" for m s v s' v' now now'
    by (simp add: ToMessage_def ok_response_def fun_eq_iff)
  have "16 + int (length (Payload m)) \<le> maxUDPFrameSize" "16 + int (length out) \<le> maxUDPFrameSize" "tcp_reaches t (MethodID m) (Payload m) out"
    using assms(9,11-13) by (simp_all add: maxUDPFrameSize_def tcp_reaches_def maxFrameSize_eq)
  then show ?thesis
    using mock_transport.adapter_call [OF assms(2,1,3), of SOMEIP now1]
      udp_transport.adapter_call [where out = out, OF assms(5,1) conjI [OF assms(6) conjI], of SOMEIP now2 w src]
      tcp_transport.adapter_call [where out = out, OF assms(8,1), of SOMEIP now3 conn] meta
    unfolding assms(4,7,10,13) mock_response_def udp_response_def tcp_response_def by blast
qed

definition demo_bus :: Bus where
  "demo_bus = (let b = fst (Mock.NewServer NewBus 0x1234 1); b = fst (Mock.RegisterMethod b 0 1 (\<lambda>m. Inr (take 4 (Payload m))))
     in fst (Mock.NewService b 0x1234 1))"

definition demo_udp :: "UDP.Service \<times> UDP.Server" where
  "demo_udp = (sample_service, sample_server\<lparr>us_handlers := [1 \<mapsto> \<lambda>m. Inr (take 4 (Payload m))]\<rparr>)"

lemma demo_mock:
  "mock_open 0 demo_bus" "handled (ms_handlers (served_by 0 demo_bus)) 1 p (take 4 p)" "fst (ms_key (served_by 0 demo_bus)) = 0x1234"
  "ms_handlers (served_by 0 demo_bus) m = (if m = 1 then Some (\<lambda>m. Inr (take 4 (Payload m))) else None)"
  by (simp_all add: demo_bus_def mock_open_def handled_def Mock.NewServer_def Mock.NewService_def
      NewBus_def Mock.RegisterMethod_def upd_server_def new_server_def Let_def)

lemma demo_udp:
  "udp_open demo_udp" "handled (us_handlers (snd demo_udp)) 1 p (take 4 p)" "us_ServiceID (snd demo_udp) = 0x1234"
  by (simp_all add: demo_udp_def udp_open_def handled_def sample_service_def sample_server_def SDServiceID_def)

lemma demo_tcp:
  "tcp_open (map (\<lambda>x. [x])) (tcp_sample_service, tcp_sample_server)"
  "handled (ts_handlers (snd (tcp_sample_service, tcp_sample_server))) 1 p (take 4 p)"
  "ts_ServiceID (snd (tcp_sample_service, tcp_sample_server)) = 0x1234"
  "ts_InterfaceVersion (snd (tcp_sample_service, tcp_sample_server)) = 0"
  by (simp_all add: tcp_open_def handled_def tcp_sample_service_def tcp_sample_server_def)

theorem transports_agree_witness:
  "\<exists>b' r1 u' r2 t' r3.
    adapter_Call () 0 (mock_rpc 0) demo_bus (ToMessage () 0 sample_request) = Some (b', Inr r1) \<and>
    adapter_Call () 1 (udp_rpc 64 sample_addr) demo_udp (ToMessage () 0 sample_request) = Some (u', Inr r2) \<and>
    adapter_Call () 2 (tcp_rpc (map (\<lambda>x. [x])) 1) (tcp_sample_service, tcp_sample_server) (ToMessage () 0 sample_request)
      = Some (t', Inr r3) \<and>
    (\<forall>r \<in> {r1, r2, r3}. rm_ID r = ''4660/1'' \<and> rm_Payload r = [112, 105, 110, 103] \<and> rm_Meta r ''someip.return_code'' = Some ''0'') \<and>
    map (\<lambda>r. rm_Meta r ''someip.interface_version'') [r1, r2, r3] = [Some ''0'', Some ''2'', Some ''0'']"
proof -
  let ?m = "sample_request\<lparr>ProtocolVersion := 1\<rparr>"
  have p: "take 4 (Payload ?m) = [112, 105, 110, 103]" "MethodID ?m = 1" "16 + length (Payload ?m) \<le> 65507"
    "16 + length [112 :: byte, 105, 110, 103] \<le> 65507" by (simp_all add: sample_request_def)
  have f: "FormatUint (unat (0x1234 :: u16)) = ''4660''" "FormatUint (unat (1 :: u16)) = ''1''" "FormatUint (unat (2 :: u8)) = ''2''"
    "FormatUint (unat (0 :: u8)) = ''0''" by code_simp+
  have h: "handled (ms_handlers (served_by 0 demo_bus)) (MethodID ?m) (Payload ?m) [112, 105, 110, 103]"
    "handled (us_handlers (snd demo_udp)) (MethodID ?m) (Payload ?m) [112, 105, 110, 103]"
    "handled (ts_handlers (snd (tcp_sample_service, tcp_sample_server))) (MethodID ?m) (Payload ?m) [112, 105, 110, 103]"
    using demo_mock(2) [of "Payload ?m"] demo_udp(2) [of "Payload ?m"] demo_tcp(2) [of "Payload ?m"] by (simp_all only: p)
  have v: "us_InterfaceVersion (snd demo_udp) = 2" by (simp add: demo_udp_def sample_server_def)
  have r: "rm_ID (ToMessage () now (ok_response 0x1234 1 s ver out)) = ''4660/1''" "rm_Payload (ToMessage () now (ok_response 0x1234 1 s ver out)) = out"
    "rm_Meta (ToMessage () now (ok_response 0x1234 1 s ver out)) ''someip.return_code'' = Some ''0''"
    "rm_Meta (ToMessage () now (ok_response 0x1234 1 s ver out)) ''someip.interface_version'' = Some (FormatUint (unat ver))" for now s ver out
    using f by (simp_all add: ToMessage_def ok_response_def ret_codes)
  from transports_agree [OF FromMessage_ToMessage demo_mock(1) h(1) demo_mock(3) demo_udp(1) h(2) demo_udp(3)
      demo_tcp(1) h(3) demo_tcp(3) p(3,4) demo_tcp(4), of "()" 0 "()" 0 1 64 sample_addr 2 1]
  obtain b' u' t' r1 r2 r3 where c: "adapter_Call () 0 (mock_rpc 0) demo_bus (ToMessage () 0 sample_request) = Some (b', Inr r1)"
    "adapter_Call () 1 (udp_rpc 64 sample_addr) demo_udp (ToMessage () 0 sample_request) = Some (u', Inr r2)"
    "adapter_Call () 2 (tcp_rpc (map (\<lambda>x. [x])) 1) (tcp_sample_service, tcp_sample_server) (ToMessage () 0 sample_request) = Some (t', Inr r3)"
    and e: "\<exists>s1. r1 = ToMessage () 0 (ok_response 0x1234 1 s1 0 [112, 105, 110, 103])" "\<exists>s2. r2 = ToMessage () 1 (ok_response 0x1234 1 s2 2 [112, 105, 110, 103])"
      "\<exists>s3. r3 = ToMessage () 2 (ok_response 0x1234 1 s3 0 [112, 105, 110, 103])"
    unfolding p(2) v by blast
  show ?thesis using c e
    by - (rule exI [of _ b'], rule exI [of _ r1], rule exI [of _ u'], rule exI [of _ r2], rule exI [of _ t'], rule exI [of _ r3],
      intro conjI; (assumption | auto simp: r f [simplified]))
qed

text \<open>The transports disagree on failure. A call of a method nobody registered is an error through the adapter
  over the in-process bus, one that matches \<open>ErrUnknownMethod\<close>. Over UDP and TCP the same call succeeds, with a nil
  error: its caller has to read in the Meta that the message type is 129, an error, and the return code 3.\<close>

theorem failures_differ:
  assumes "FromMessage req = Inr m"
    and "mock_open svc b" "ms_handlers (served_by svc b) (MethodID m) = None"
    and "udp_open u" "us_handlers (snd u) (MethodID m) = None" "length (Payload m) \<le> 1000"
    and "tcp_open chunks t" "ts_handlers (snd t) (MethodID m) = None" "ts_InterfaceVersion (snd t) = 0"
  shows "\<exists>b' e u' r2 t' r3.
    adapter_Call SOMEIP now (mock_rpc svc) b req = Some (b', Inl e) \<and> errors_is e ErrUnknownMethod \<and>
    adapter_Call SOMEIP now (udp_rpc w src) u req = Some (u', Inr r2) \<and>
    adapter_Call SOMEIP now (tcp_rpc chunks conn) t req = Some (t', Inr r3) \<and>
    (\<forall>r \<in> {r2, r3}. rm_Meta r ''someip.msg_type'' = Some ''129'' \<and> rm_Meta r ''someip.return_code'' = Some ''3'' \<and> rm_Payload r = [])"
proof -
  obtain us ud where u: "u = (us, ud)" by (cases u)
  obtain ts td where t: "t = (ts, td)" by (cases t)
  let ?ru = "(UDP.request us (MethodID m) (sv_sessionID us + 1) MsgTypeRequest (Payload m))\<lparr>ProtocolVersion := 1\<rparr>"
  let ?rt = "(TCP.request ts (MethodID m) (tv_sessionID ts + 1) MsgTypeRequest (Payload m))\<lparr>ProtocolVersion := 1\<rparr>"
  have f: "FormatUint 129 = ''129''" "FormatUint 3 = ''3''" by code_simp+
  have au: "MessageType (UDP.server_answer ud ?ru) = MsgTypeError \<and> ReturnCode (UDP.server_answer ud ?ru) = RetUnknownMethod
      \<and> Payload (UDP.server_answer ud ?ru) = []"
    using assms(5) by (simp add: u UDP.server_answer_def UDP.request_def Let_def zero_message_def)
  have at: "MessageType (TCP.server_answer td ?rt) = MsgTypeError \<and> ReturnCode (TCP.server_answer td ?rt) = RetUnknownMethod
      \<and> Payload (TCP.server_answer td ?rt) = []"
    using assms(8,9) by (simp add: t TCP.server_answer_def TCP.request_def Let_def zero_message_def)
  obtain us' where us': "udp_rpc w src (us, ud) (MethodID m) (Payload m)
      = Some ((us', write_udp ud src (wire (UDP.server_answer ud ?ru))), Inr (UDP.server_answer ud ?ru))"
    using udp_rpc_answer [OF _ _ refl, of us ud "Payload m" "MethodID m" w src] assms(4,6) au u by (auto simp: maxUDPFrameSize_def)
  obtain ts' where ts': "tcp_rpc chunks conn (ts, td) (MethodID m) (Payload m)
      = Some ((ts', write_conn td conn (wire (TCP.server_answer td ?rt))), Inr (TCP.server_answer td ?rt))"
    using tcp_rpc_answer [OF _ _ refl, of chunks ts td "Payload m" "MethodID m" conn] assms(6,7) at t
    by (auto simp: frameable_def maxFrameSize_eq)
  have mk: "\<exists>b'. mock_rpc svc b (MethodID m) (Payload m) = Some (b', Inl (Errorf ''method'' ErrUnknownMethod))"
    using assms(2,3) by (simp add: mock_rpc_def Mock.Call_def server_call_def mock_open_def Mock.nextSession_def Let_def)
  obtain b' where "mock_rpc svc b (MethodID m) (Payload m) = Some (b', Inl (Errorf ''method'' ErrUnknownMethod))" using mk by blast
  then have "adapter_Call SOMEIP now (mock_rpc svc) b req = Some (b', Inl (Errorf ''method'' ErrUnknownMethod))"
    using assms(1) by (simp add: adapter_Call_def)
  moreover have "errors_is (Errorf ''method'' ErrUnknownMethod) ErrUnknownMethod" by (simp add: ErrUnknownMethod_def)
  moreover have "adapter_Call SOMEIP now (udp_rpc w src) u req =
      Some ((us', write_udp ud src (wire (UDP.server_answer ud ?ru))), Inr (ToMessage SOMEIP now (UDP.server_answer ud ?ru)))"
    using assms(1) us' by (simp add: adapter_Call_def u)
  moreover have "adapter_Call SOMEIP now (tcp_rpc chunks conn) t req =
      Some ((ts', write_conn td conn (wire (TCP.server_answer td ?rt))), Inr (ToMessage SOMEIP now (TCP.server_answer td ?rt)))"
    using assms(1) ts' by (simp add: adapter_Call_def t)
  moreover have "rm_Meta (ToMessage SOMEIP now a) ''someip.msg_type'' = Some ''129'' \<and>
      rm_Meta (ToMessage SOMEIP now a) ''someip.return_code'' = Some ''3'' \<and> rm_Payload (ToMessage SOMEIP now a) = []"
    if "MessageType a = MsgTypeError \<and> ReturnCode a = RetUnknownMethod \<and> Payload a = []" for a
    using that by (simp add: ToMessage_def msg_types ret_codes f)
  note this [OF au] this [OF at]
  ultimately show ?thesis by (intro exI conjI) (assumption+, simp)
qed

theorem failures_differ_witness:
  "\<exists>b' e t' r. adapter_Call () 0 (mock_rpc 0) demo_bus (ToMessage () 0 (sample_request\<lparr>MethodID := 9\<rparr>)) = Some (b', Inl e)
    \<and> adapter_Call () 0 (tcp_rpc (map (\<lambda>x. [x])) 1) (tcp_sample_service, tcp_sample_server)
        (ToMessage () 0 (sample_request\<lparr>MethodID := 9\<rparr>)) = Some (t', Inr r)
    \<and> rm_Meta r ''someip.return_code'' = Some ''3''"
proof -
  let ?m = "(sample_request\<lparr>MethodID := 9\<rparr>)\<lparr>ProtocolVersion := 1\<rparr>"
  have unknown: "ms_handlers (served_by 0 demo_bus) (MethodID ?m) = None"
    "us_handlers (snd demo_udp) (MethodID ?m) = None" "length (Payload ?m) \<le> 1000"
    "ts_handlers (snd (tcp_sample_service, tcp_sample_server)) (MethodID ?m) = None"
    "ts_InterfaceVersion (snd (tcp_sample_service, tcp_sample_server)) = 0"
    by (simp_all add: demo_mock(4) demo_udp_def sample_request_def tcp_sample_server_def)
  show ?thesis
    using failures_differ [OF FromMessage_ToMessage demo_mock(1) unknown(1) demo_udp(1) unknown(2,3) demo_tcp(1) unknown(4,5),
        of "()" 0 "()" 0 64 sample_addr 1]
    by blast
qed

section \<open>From the command line to a server\<close>

text \<open>C37: what \<open>send\<close> sends a TCP server receives. When every nonblank line of the input is a message whose
  frame fits, the input ends, the connection is made and the writes succeed, \<open>send\<close> exits with 0 having counted all
  lines as sent, and the server reads exactly these messages, in order, and then the end of the stream, however
  the network cuts the bytes.\<close>

theorem send_reaches_server:
  assumes "ep \<noteq> ''''" "dial ''tcp4'' ep = None" "\<And>ws f. write ws f = None" "scan input = (ls, False)"
    and "\<forall>l \<in> set (nonblank ls). \<exists>m. line_message unmarshal l = Some m \<and> frameable m"
  shows "\<exists>frames. runSend unmarshal dial write [''--format'', ''json'', ''--transport'', ''tcp'', ''--endpoint'', ep] (input, None)
      = Some (0, frames, Some (length (nonblank ls), 0)) \<and>
    (\<forall>net. concat (rd_chunks net) = concat frames \<and> rd_end net = io_EOF \<longrightarrow>
      serveConn net = Some (map (the \<circ> line_message unmarshal) (nonblank ls), io_EOF))"
proof -
  let ?nb = "nonblank ls" and ?f = "line_message unmarshal"
  let ?ms = "map (the \<circ> ?f) ?nb"
  have all: "List.map_filter ?f xs = map (the \<circ> ?f) xs \<and> filter (\<lambda>l. ?f l = None) xs = []"
    if "\<forall>l \<in> set xs. \<exists>m. ?f l = Some m \<and> frameable m" for xs
    using that by (induction xs) (auto simp: List.map_filter_simps)
  have v1: "m\<lparr>ProtocolVersion := 1\<rparr> = m" if "?f l = Some m" for l m
  proof -
    have "ProtocolVersion m = 1"
      using that FromMessage_cases by (fastforce simp: line_message_def split: sum.splits)
    then show ?thesis by simp
  qed
  have d: "dialNetwork ''tcp'' = (''tcp4'', True)" by code_simp
  have "runSend unmarshal dial write [''--format'', ''json'', ''--transport'', ''tcp'', ''--endpoint'', ep] (input, None)
      = Some (0, map wire ?ms, Some (length ?nb, 0))"
    using runSend_ok [of _ _ ep "''tcp''" "''tcp4''" dial "write", OF parse_send_flags [of "''tcp''" ep] _ _ assms(1) _ d assms(2,3,4), where unmarshal = unmarshal]
      all [OF assms(5)] assms(5) by auto
  moreover have "serveConn net = Some (?ms, io_EOF)" if "concat (rd_chunks net) = concat (map wire ?ms)" "rd_end net = io_EOF" for net
  proof -
    have "\<forall>m \<in> set ?ms. frameable m \<and> m\<lparr>ProtocolVersion := 1\<rparr> = m" using assms(5) v1 by fastforce
    then have "map (\<lambda>m. m\<lparr>ProtocolVersion := 1\<rparr>) ?ms = ?ms" "\<forall>m \<in> set ?ms. frameable m" by (auto intro: map_idI)
    then show ?thesis using serveConn_frames [OF _ _ stream_end, of ?ms net] that by (simp add: stream_def)
  qed
  ultimately show ?thesis by blast
qed

theorem send_reaches_server_witness:
  "\<exists>frames. runSend (\<lambda>l. if l = ''m'' then Inr (ToMessage () 0 sample_request) else Inl (External ''json''))
      (\<lambda>_ _. None) (\<lambda>_ _. None) [''--format'', ''json'', ''--transport'', ''tcp'', ''--endpoint'', ''h:1''] ([CHR 0x20, CHR ''m'', CHR 0x0A, CHR 0x0A], None)
      = Some (0, frames, Some (1, 0)) \<and>
    (\<forall>net. concat (rd_chunks net) = concat frames \<and> rd_end net = io_EOF \<longrightarrow>
      serveConn net = Some ([sample_request\<lparr>ProtocolVersion := 1\<rparr>], io_EOF))"
proof -
  let ?u = "\<lambda>l. if l = ''m'' then Inr (ToMessage () 0 sample_request) else Inl (External ''json'')"
  let ?ls = "[[CHR 0x20, CHR ''m''], []]"
  have t: "TrimSpace [CHR 0x20, CHR ''m''] = ''m''" "TrimSpace [] = []"
    by (simp_all add: TrimSpace_def trim_left.simps leading_space_def spaces_def upt_rec)
  have s: "scan [CHR 0x20, CHR ''m'', CHR 0x0A, CHR 0x0A] = (?ls, False)" by (simp add: scan_def drop_cr_def)
  have n: "nonblank ?ls = [[CHR 0x20, CHR ''m'']]" by (simp add: nonblank_def t)
  have m: "line_message ?u [CHR 0x20, CHR ''m''] = Some (sample_request\<lparr>ProtocolVersion := 1\<rparr>)"
    by (simp add: line_message_def t FromMessage_ToMessage)
  have "frameable (sample_request\<lparr>ProtocolVersion := 1\<rparr>)" by (simp add: frameable_def maxFrameSize_eq sample_request_def)
  then show ?thesis
    using send_reaches_server [of "''h:1''" "\<lambda>_ _. None" "\<lambda>_ _. None", OF _ _ _ s, of ?u] by (simp add: n m)
qed

section \<open>Protection, segments and frames together\<close>

text \<open>A receiver of segments: it decodes each frame it is given and hands the message to its reassembler.\<close>

fun receive :: "((int \<times> byte list) list \<Rightarrow> (int \<times> byte list) list) \<Rightarrow> Reassembler \<Rightarrow> (int \<times> byte list) list \<Rightarrow>
    (Reassembler \<times> (goerr + message option) list) option" where
  "receive ord r [] = Some (r, [])"
| "receive ord r ((now, b) # rest) = do {
     x \<leftarrow> Decode b;
     (r, y) \<leftarrow> (case x of Inl e \<Rightarrow> Some (r, Inl e) | Inr m \<Rightarrow> Add ord r now m);
     (r, ys) \<leftarrow> receive ord r rest;
     Some (r, y # ys)
   }"

lemma receive_wires:
  "\<forall>x \<in> set arr. fits (snd x) \<and> ProtocolVersion (snd x) = 1 \<Longrightarrow>
   receive ord r (map (\<lambda>x. (fst x, wire (snd x))) arr) = add_all ord r arr"
proof (induction arr arbitrary: r)
  case (Cons x arr)
  obtain t m where x: "x = (t, m)" by (cases x)
  have "m\<lparr>ProtocolVersion := 1\<rparr> = m" using Cons.prems by (simp add: x)
  then have "Decode (wire m) = Some (Inr m)" using Decode_wire [of m] Cons.prems by (simp add: x)
  then show ?case using Cons.IH Cons.prems by (simp add: x)
qed simp

lemma Segment_fits:
  assumes "Segment msg n = Some (Inr segs)" "int (length (Payload msg)) \<le> MaxReassembledSize" "seg \<in> set segs"
  shows "fits seg \<and> ProtocolVersion seg = ProtocolVersion msg"
  using assms(1)
proof (cases rule: Segment_cases)
  case single
  then show ?thesis using assms(2,3) by (simp add: fits_def MaxReassembledSize_def)
next
  case split
  then obtain o' d where d: "(o', d) \<in> set (pieces (Payload msg) (seg_size n) 0)" "seg = segment_of msg (seg_size n) (o', d)"
    using assms(3) by auto
  have "length d \<le> length (Payload msg)" using pieces_mem [OF d(1)] by simp
  then show ?thesis using d(2) assms(2) by (simp add: fits_def segment_of_def MaxReassembledSize_def)
qed

text \<open>What arrives is frames of segments, each with a time: the segments themselves.\<close>

lemma arrivals_of_segments:
  assumes dec: "\<And>x. x \<in> set segs \<Longrightarrow> dec (wire x) = x"
    and all: "snd ` set arr = wire ` set segs" "snd ` set (butlast arr) \<noteq> wire ` set segs"
  shows "\<exists>arr'. map (\<lambda>x. (fst x, wire (snd x))) arr' = arr \<and> set (map snd arr') = set segs \<and> set (map snd (butlast arr')) \<noteq> set segs"
proof (intro exI conjI)
  let ?arr = "map (\<lambda>x. (fst x, dec (snd x))) arr"
  have "(fst x, wire (dec (snd x))) = x" if "x \<in> set arr" for x
  proof -
    have "snd x \<in> wire ` set segs" using all(1) that by blast
    then show ?thesis using dec by (cases x) auto
  qed
  then show arr: "map (\<lambda>x. (fst x, wire (snd x))) ?arr = arr" by (simp add: comp_def map_idI)
  have "dec ` wire ` set segs = set segs" using dec by (force simp: image_image)
  then show "set (map snd ?arr) = set segs" using all(1) by (simp add: image_image [symmetric, of dec snd] comp_def)
  show "set (map snd (butlast ?arr)) \<noteq> set segs"
  proof
    assume "set (map snd (butlast ?arr)) = set segs"
    then have "wire ` snd ` set (butlast ?arr) = wire ` set segs" by simp
    moreover have "butlast arr = map (\<lambda>x. (fst x, wire (snd x))) (butlast ?arr)" by (subst arr [symmetric]) (simp only: map_butlast)
    then have "snd ` set (butlast arr) = wire ` snd ` set (butlast ?arr)" by (simp add: image_image)
    ultimately show False using all(2) by simp
  qed
qed

text \<open>C6: a protected message arrives whole. A payload protected by Profile 05 and sent as SOME/IP-TP segments, each in a
  frame of its own, comes out of the receiver that is given the frames in any order and with any repetition before
  the timeout: nothing until the last missing frame, then the protected message, in which \<open>Check\<close>
  accepts the counter it was protected with, no other, and returns the payload.\<close>

theorem protected_message_arrives:
  assumes "P05_Protect p payload c = Some (Inr f)" and seg: "Segment (msg\<lparr>Payload := f\<rparr>) n = Some (Inr segs)"
    and msg: "ProtocolVersion msg = 1" "\<not> IsTP msg" and small: "int (length f) \<le> MaxReassembledSize"
    and ord: "\<And>xs. mset (ord xs) = mset xs"
    and fresh: "windows r (seg_key msg) = None" "tombstones r (seg_key msg) = None"
    and times: "\<forall>x \<in> set arr. fst x \<le> fst (hd arr) + timeout r"
    and all: "Some ` snd ` set arr = encode_frame ` set segs" "Some ` snd ` set (butlast arr) \<noteq> encode_frame ` set segs"
  shows "receive ord r arr = Some (r, replicate (length arr - 1) (Inr None) @ [Inr (Some (msg\<lparr>Payload := f\<rparr>))])
    \<and> (\<forall>d. if d = c then P05_Check p f d = Some (Inr payload) else \<exists>e. P05_Check p f d = Some (Inl e) \<and> errors_is e ErrCounterMismatch)"
proof -
  let ?m = "msg\<lparr>Payload := f\<rparr>"
  have ok: "fits x \<and> ProtocolVersion x = 1" if "x \<in> set segs" for x
    using Segment_fits [OF seg _ that] small msg by simp
  have dec: "(case Decode (wire x) of Some (Inr m) \<Rightarrow> m) = x" if "x \<in> set segs" for x
    using Decode_wire [of x] ok [OF that] by simp
  have e: "encode_frame ` set segs = Some ` (wire ` set segs)" by (auto simp: encode_frame_eq)
  have all': "snd ` set arr = wire ` set segs" "snd ` set (butlast arr) \<noteq> wire ` set segs"
    using all unfolding e by (auto simp: inj_image_eq_iff)
  obtain arr' where arr: "map (\<lambda>x. (fst x, wire (snd x))) arr' = arr" and s: "set (map snd arr') = set segs" "set (map snd (butlast arr')) \<noteq> set segs"
    using arrivals_of_segments [where dec = "\<lambda>b. case Decode b of Some (Inr m) \<Rightarrow> m", OF dec all'] by blast
  have ne: "arr' \<noteq> []" using s by auto
  have t': "\<forall>(t, x) \<in> set arr'. t \<le> fst (hd arr') + timeout r" using times ne unfolding arr [symmetric] by (auto simp: hd_map)
  have key: "seg_key ?m = seg_key msg" "IsTP ?m = IsTP msg" by (simp_all add: seg_key_def IsTP_def)
  have "add_all ord r arr' = Some (r, replicate (length arr' - 1) (Inr None) @ [Inr (Some ?m)])"
    using reassemble_segments [where ord = ord, OF seg _ _ ord _ _ t' s] small fresh msg(2) by (simp add: key)
  moreover have "receive ord r arr = add_all ord r arr'"
    unfolding arr [symmetric] using ok s(1) by (intro receive_wires) auto
  moreover have "length arr' = length arr" unfolding arr [symmetric] by simp
  moreover have "f = p05_frame p payload c" using assms(1) by (simp add: P05_Protect_eq)
  ultimately show ?thesis using p05.check_protect [of c _ p payload] p05.check_stale [of c _ p payload] by auto
qed

theorem protected_message_arrives_witness:
  "\<exists>f a b. P05_Protect \<lparr>P05_DataID = 7\<rparr> (replicate 12 5) 3 = Some (Inr f) \<and>
     receive rev sample_reassembler [(0, b), (3, b), (7, a)]
       = Some (sample_reassembler, [Inr None, Inr None, Inr (Some (sample_message\<lparr>ProtocolVersion := 1, Payload := f\<rparr>))]) \<and>
     P05_Check \<lparr>P05_DataID = 7\<rparr> f 3 = Some (Inr (replicate 12 5))"
proof -
  let ?p = "\<lparr>P05_DataID = 7\<rparr> :: Profile05" and ?pl = "replicate 12 5 :: byte list"
  define f where "f = p05_frame ?p ?pl 3"
  let ?s = "sample_message\<lparr>ProtocolVersion := 1\<rparr>"
  let ?m = "?s\<lparr>Payload := f\<rparr>"
  have len: "length f = 20" by (simp add: f_def)
  let ?a = "segment_of ?m 16 (0, take 16 f)" and ?b = "segment_of ?m 16 (16, drop 16 f)"
  have prot: "P05_Protect ?p ?pl 3 = Some (Inr f)" by (simp add: P05_Protect_eq f_def)
  have "pieces f 16 0 = [(0, take 16 f), (16, drop 16 f)]" by (simp add: pieces_Cons pieces_Nil len)
  then have seg: "Segment ?m 16 = Some (Inr [?a, ?b])" by (simp add: Segment_eq seg_size_def len)
  have "length (wire ?a) \<noteq> length (wire ?b)" by (simp add: segment_of_def len)
  then have ne: "wire ?a \<noteq> wire ?b" by metis
  let ?arr = "[(0, wire ?b), (3, wire ?b), (7, wire ?a)] :: (int \<times> byte list) list"
  have plain: "ProtocolVersion ?s = 1" "\<not> IsTP ?s"
    by (simp_all add: sample_message_def IsTP_def tpBit_def zero_message_def)
  have r: "windows sample_reassembler k = None" "tombstones sample_reassembler k = None" "timeout sample_reassembler = DefaultReassemblyTimeout" for k
    by (simp_all add: sample_reassembler_def)
  have "receive rev sample_reassembler ?arr
      = Some (sample_reassembler, replicate (length ?arr - 1) (Inr None) @ [Inr (Some ?m)])
    \<and> (\<forall>d. if d = 3 then P05_Check ?p f d = Some (Inr ?pl)
        else \<exists>e. P05_Check ?p f d = Some (Inl e) \<and> errors_is e ErrCounterMismatch)"
    using ne by (intro protected_message_arrives [OF prot seg plain])
      (auto simp: len r MaxReassembledSize_def DefaultReassemblyTimeout_def)
  then show ?thesis using prot by (auto simp del: receive.simps simp: eval_nat_numeral)
qed

end
